(* ===== verification/Prelude.thy ===== *)
theory Prelude
  imports Complex_Main "HOL-Library.Multiset"
begin

text \<open>
  Shared vocabulary of the PathStrings development: Python's exceptions as an error
  datatype, a result type \<open>'a res = pyexc + 'a\<close> with its bind \<open>ebind\<close> (and the
  congruence rule that lets the function package see through it), and the Python list and
  dict accesses that raise instead of returning an unspecified value.
\<close>

named_theorems res_simps "evaluation rules of the Python access helpers"

datatype pyexc = IndexError | KeyError | NameError | TypeError | ValueError | ZeroDivisionError

type_synonym 'a res = "pyexc + 'a"

definition ebind :: "'a res \<Rightarrow> ('a \<Rightarrow> 'b res) \<Rightarrow> 'b res" where
  "ebind r f = (case r of Inl e \<Rightarrow> Inl e | Inr x \<Rightarrow> f x)"

text \<open>\<open>xs[i]\<close> for a non-negative index.\<close>

definition py_nth :: "'a list \<Rightarrow> nat \<Rightarrow> 'a res" where
  "py_nth xs i = (if i < length xs then Inr (xs ! i) else Inl IndexError)"

text \<open>\<open>xs[-1]\<close>, equivalently \<open>xs[len(xs) - 1]\<close>.\<close>

definition py_last :: "'a list \<Rightarrow> 'a res" where
  "py_last xs = (if xs = [] then Inl IndexError else Inr (last xs))"

text \<open>\<open>d[k]\<close> on a dict.\<close>

definition dict_get :: "('k \<rightharpoonup> 'v) \<Rightarrow> 'k \<Rightarrow> 'v res" where
  "dict_get m k = (case m k of None \<Rightarrow> Inl KeyError | Some v \<Rightarrow> Inr v)"

text \<open>\<open>xs.remove(x)\<close>: removes the first element equal to \<open>x\<close>, \<open>ValueError\<close> if none.\<close>

definition py_remove :: "'a list \<Rightarrow> 'a \<Rightarrow> 'a list res" where
  "py_remove xs x = (if x \<in> set xs then Inr (remove1 x xs) else Inl ValueError)"

subsection \<open>The result bind\<close>

lemma ebind_Inl [simp]: "ebind (Inl e) f = Inl e"
  by (simp add: ebind_def)

lemma ebind_Inr [simp]: "ebind (Inr x) f = f x"
  by (simp add: ebind_def)

lemma ebind_cong [fundef_cong]:
  "r = r' \<Longrightarrow> (\<And>x. r' = Inr x \<Longrightarrow> f x = g x) \<Longrightarrow> ebind r f = ebind r' g"
  by (cases r) auto

lemma ebind_eq_Inr:
  "ebind r f = Inr y \<longleftrightarrow> (\<exists>x. r = Inr x \<and> f x = Inr y)"
  by (cases r) auto

lemma ebind_eq_Inl:
  "ebind r f = Inl e \<longleftrightarrow> r = Inl e \<or> (\<exists>x. r = Inr x \<and> f x = Inl e)"
  by (cases r) auto

lemma py_nth_ok [res_simps]: "i < length xs \<Longrightarrow> py_nth xs i = Inr (xs ! i)"
  by (simp add: py_nth_def)

lemma py_nth_out [res_simps]: "length xs \<le> i \<Longrightarrow> py_nth xs i = Inl IndexError"
  by (simp add: py_nth_def)

lemma py_last_ok [res_simps]: "xs \<noteq> [] \<Longrightarrow> py_last xs = Inr (last xs)"
  by (simp add: py_last_def)

lemma py_last_Nil [res_simps]: "py_last [] = Inl IndexError"
  by (simp add: py_last_def)

lemma py_remove_ok [res_simps]: "x \<in> set xs \<Longrightarrow> py_remove xs x = Inr (remove1 x xs)"
  by (simp add: py_remove_def)

lemma dict_get_Some [res_simps]: "m k = Some v \<Longrightarrow> dict_get m k = Inr v"
  by (simp add: dict_get_def)

lemma dict_get_None [res_simps]: "m k = None \<Longrightarrow> dict_get m k = Inl KeyError"
  by (simp add: dict_get_def)

subsection \<open>Lists\<close>

text \<open>Removing position \<open>i\<close> (Python's \<open>pop(i)\<close>) and splitting a list around it.\<close>

lemma take_drop_Suc_split:
  "i < length xs \<Longrightarrow> xs = take i xs @ xs ! i # drop (Suc i) xs"
  by (simp add: id_take_nth_drop)

lemma mset_butlast_last:
  "xs \<noteq> [] \<Longrightarrow> mset xs = add_mset (last xs) (mset (butlast xs))"
proof -
  assume "xs \<noteq> []"
  then have "mset xs = mset (butlast xs @ [last xs])" by simp
  then show ?thesis by simp
qed

end
