(* ===== verification/Geometry.thy ===== *)
theory Geometry
  imports Prelude
begin

text \<open>
  The geometric primitives of src/CleanSolution.py (classes \<open>Pt\<close> and \<open>LineSegment\<close>,
  lines 8-110). Coordinates are Python floats, modelled as \<open>real\<close> (rounding is not
  modelled). The class attribute \<open>LineSegment.epsilon\<close> (1e-2) is read through
  \<open>self.epsilon\<close> and can be reassigned, so every primitive takes it as the parameter
  \<open>eps\<close>; \<open>epsilon\<close> is its default value. The lemmas show the symmetry of
  \<open>intersect\<close> (also under reversal of either segment), that segments sharing an
  endpoint always intersect (why the solver skips the neighbouring edges).
\<close>

record pt =
  pt_x :: real
  pt_y :: real

definition Pt :: "real \<Rightarrow> real \<Rightarrow> pt" where
  "Pt a b = \<lparr>pt_x = a, pt_y = b\<rparr>"

record lineSegment =
  pt1 :: pt
  pt2 :: pt

definition LineSegment :: "pt \<Rightarrow> pt \<Rightarrow> lineSegment" where
  "LineSegment p q = \<lparr>pt1 = p, pt2 = q\<rparr>"

definition epsilon :: real where
  "epsilon = 1 / 100"

definition signedArea :: "lineSegment \<Rightarrow> pt \<Rightarrow> real" where
  "signedArea s p =
     (pt_x (pt2 s) - pt_x (pt1 s)) * (pt_y p - pt_y (pt1 s))
     - (pt_y (pt2 s) - pt_y (pt1 s)) * (pt_x p - pt_x (pt1 s))"

definition contains :: "real \<Rightarrow> lineSegment \<Rightarrow> pt \<Rightarrow> bool" where
  "contains eps s p =
     (let minx = min (pt_x (pt1 s)) (pt_x (pt2 s));
          maxx = max (pt_x (pt1 s)) (pt_x (pt2 s))
      in if pt_x p \<ge> minx \<and> pt_x p \<le> maxx then \<bar>signedArea s p\<bar> \<le> eps else False)"

definition orientation :: "real \<Rightarrow> lineSegment \<Rightarrow> pt \<Rightarrow> int" where
  "orientation eps s p =
     (let value = signedArea s p
      in if \<bar>value\<bar> \<le> eps then 0 else if value < 0 then -1 else 1)"

definition intersect :: "real \<Rightarrow> lineSegment \<Rightarrow> lineSegment \<Rightarrow> bool" where
  "intersect eps s t =
     (let selfminx = min (pt_x (pt1 s)) (pt_x (pt2 s));
          selfmaxx = max (pt_x (pt1 s)) (pt_x (pt2 s));
          otherminx = min (pt_x (pt1 t)) (pt_x (pt2 t));
          othermaxx = max (pt_x (pt1 t)) (pt_x (pt2 t));
          selfOrient1 = orientation eps s (pt1 t);
          selfOrient2 = orientation eps s (pt2 t);
          otherOrient1 = orientation eps t (pt1 s);
          otherOrient2 = orientation eps t (pt2 s)
      in if selfOrient1 \<noteq> selfOrient2 \<and> otherOrient1 \<noteq> otherOrient2 then True
      else if selfOrient1 = 0 \<and> pt_x (pt1 t) \<ge> selfminx \<and> pt_x (pt1 t) \<le> selfmaxx then True
      else if selfOrient2 = 0 \<and> pt_x (pt2 t) \<ge> selfminx \<and> pt_x (pt2 t) \<le> selfmaxx then True
      else if otherOrient1 = 0 \<and> pt_x (pt1 s) \<ge> otherminx \<and> pt_x (pt1 s) \<le> othermaxx then True
      else if otherOrient2 = 0 \<and> pt_x (pt2 s) \<ge> otherminx \<and> pt_x (pt2 s) \<le> othermaxx then True
      else False)"

text \<open>The reversed segment (same endpoints, opposite direction).\<close>

definition rev_seg :: "lineSegment \<Rightarrow> lineSegment" where
  "rev_seg s = LineSegment (pt2 s) (pt1 s)"

subsection \<open>Basic facts\<close>

lemma LineSegment_sel [simp]:
  "pt1 (LineSegment p q) = p" "pt2 (LineSegment p q) = q"
  by (simp_all add: LineSegment_def)

lemma Pt_sel [simp]: "pt_x (Pt a b) = a" "pt_y (Pt a b) = b"
  by (simp_all add: Pt_def)

lemma LineSegment_eq_iff [simp]:
  "LineSegment p q = LineSegment p' q' \<longleftrightarrow> p = p' \<and> q = q'"
  by (simp add: LineSegment_def)

lemma Pt_eq_iff [simp]: "Pt a b = Pt c d \<longleftrightarrow> a = c \<and> b = d"
  by (simp add: Pt_def)

lemma orientation_range: "orientation eps s p \<in> {-1, 0, 1}"
  by (simp add: orientation_def Let_def)

lemma signedArea_rev: "signedArea (rev_seg s) p = - signedArea s p"
  by (simp add: signedArea_def rev_seg_def algebra_simps)

lemma orientation_rev: "0 \<le> eps \<Longrightarrow> orientation eps (rev_seg s) p = - orientation eps s p"
  by (auto simp: orientation_def signedArea_rev Let_def)

lemma signedArea_endpoint1 [simp]: "signedArea s (pt1 s) = 0"
  by (simp add: signedArea_def)

lemma signedArea_endpoint2 [simp]: "signedArea s (pt2 s) = 0"
  by (simp add: signedArea_def)

lemma orientation_endpoint [simp]:
  "0 \<le> eps \<Longrightarrow> orientation eps s (pt1 s) = 0"
  "0 \<le> eps \<Longrightarrow> orientation eps s (pt2 s) = 0"
  by (simp_all add: orientation_def)

text \<open>Orientation is the sign of the signed area, with the band \<open>[-eps, eps]\<close> read as 0.\<close>

lemma orientation_zero_iff: "orientation eps s p = 0 \<longleftrightarrow> \<bar>signedArea s p\<bar> \<le> eps"
  by (simp add: orientation_def Let_def)

lemma orientation_pos_iff: "orientation eps s p = 1 \<longleftrightarrow> \<not> \<bar>signedArea s p\<bar> \<le> eps \<and> 0 \<le> signedArea s p"
  by (auto simp: orientation_def Let_def)

lemma orientation_neg_iff: "orientation eps s p = -1 \<longleftrightarrow> \<not> \<bar>signedArea s p\<bar> \<le> eps \<and> signedArea s p < 0"
  by (auto simp: orientation_def Let_def)

lemma orientation_LineSegment_end [simp]:
  "0 \<le> eps \<Longrightarrow> orientation eps (LineSegment p q) p = 0"
  "0 \<le> eps \<Longrightarrow> orientation eps (LineSegment p q) q = 0"
  by (simp_all add: orientation_def signedArea_def)

lemma rev_seg_sel [simp]: "pt1 (rev_seg s) = pt2 s" "pt2 (rev_seg s) = pt1 s"
  by (simp_all add: rev_seg_def)

text \<open>\<open>contains\<close> is orientation 0 together with the x-range test.\<close>

lemma contains_orientation:
  "contains eps s p \<longleftrightarrow> orientation eps s p = 0
     \<and> min (pt_x (pt1 s)) (pt_x (pt2 s)) \<le> pt_x p \<and> pt_x p \<le> max (pt_x (pt1 s)) (pt_x (pt2 s))"
  by (auto simp: contains_def orientation_zero_iff Let_def)

text \<open>
  \<open>intersect\<close> reads as: a proper crossing, or one endpoint is \<open>contains\<close>-ed by the
  other segment. The four endpoint tests of the source are exactly the four
  \<open>contains\<close> tests.
\<close>

lemma intersect_iff:
  "intersect eps s t \<longleftrightarrow>
     (orientation eps s (pt1 t) \<noteq> orientation eps s (pt2 t)
      \<and> orientation eps t (pt1 s) \<noteq> orientation eps t (pt2 s))
     \<or> contains eps s (pt1 t) \<or> contains eps s (pt2 t)
     \<or> contains eps t (pt1 s) \<or> contains eps t (pt2 s)"
  by (simp add: intersect_def contains_orientation Let_def)

lemma contains_rev_seg: "contains eps (rev_seg s) p = contains eps s p"
  by (simp add: contains_def signedArea_rev min.commute max.commute)

subsection \<open>Properties of the intersection test\<close>

text \<open>
  C3: the intersection test is symmetric for every tolerance: its proper-crossing test
  and its four endpoint-on-segment tests are permuted when the segments are exchanged.
\<close>

theorem intersect_sym: "intersect eps s t = intersect eps t s"
  by (auto simp: intersect_iff)

text \<open>
  C4: for a non-negative tolerance, the test does not depend on the direction of the
  segments: reversing either argument leaves the answer unchanged.
\<close>

theorem intersect_rev_seg:
  "0 \<le> eps \<Longrightarrow> intersect eps (rev_seg s) t = intersect eps s t \<and> intersect eps s (rev_seg t) = intersect eps s t"
  by (auto simp: intersect_iff contains_rev_seg orientation_rev)

theorem intersect_rev_seg_witness:
  "intersect epsilon (rev_seg (LineSegment (Pt 0 0) (Pt 2 2))) (LineSegment (Pt 0 2) (Pt 2 0))
     = intersect epsilon (LineSegment (Pt 0 0) (Pt 2 2)) (LineSegment (Pt 0 2) (Pt 2 0))
   \<and> intersect epsilon (LineSegment (Pt 0 0) (Pt 2 2)) (rev_seg (LineSegment (Pt 0 2) (Pt 2 0)))
     = intersect epsilon (LineSegment (Pt 0 0) (Pt 2 2)) (LineSegment (Pt 0 2) (Pt 2 0))"
  using intersect_rev_seg [of epsilon] by (simp add: epsilon_def)

text \<open>
  C5: two segments that share an endpoint (consecutive edges of a path) are always
  reported as intersecting when the tolerance is non-negative. This is why the solver
  never tests a new edge against the edge it is joined to.
\<close>

theorem adjacent_segments_intersect:
  "0 \<le> eps \<Longrightarrow> intersect eps (LineSegment a b) (LineSegment b c)"
  by (simp add: intersect_def Let_def)

theorem adjacent_segments_intersect_witness:
  "intersect epsilon (LineSegment (Pt 0 0) (Pt 1 2)) (LineSegment (Pt 1 2) (Pt 2 1))"
  using adjacent_segments_intersect [of epsilon "Pt 0 0" "Pt 1 2" "Pt 2 1"]
  by (simp add: epsilon_def)

end
