(* ===== verification/Path.thy ===== *)
theory Path
  imports Geometry
begin

text \<open>
  What a solution of the path-string problem is (spec, sections 3 and 4.5), stated on the
  solver's own representation, a list of \<open>LineSegment\<close>s (src/CleanSolution.py builds
  them at lines 170-172, 190, 217, 253-254). A solution for the points \<open>pts\<close> and the
  pattern \<open>s\<close> is chained (each edge starts where the previous one ends), visits the points
  exactly once (its vertex list is a permutation of \<open>pts\<close>), has the up/down profile
  \<open>s\<close>, and no two non-consecutive edges \<open>intersect\<close>. The lemmas say how these
  predicates behave under the three ways the solver builds paths: prepending an edge,
  appending one, and splitting one edge in two.
\<close>

type_synonym path = "lineSegment list"

fun chained :: "path \<Rightarrow> bool" where
  "chained (a # b # r) = (pt2 a = pt1 b \<and> chained (b # r))"
| "chained _ = True"

definition vertices :: "path \<Rightarrow> pt list" where
  "vertices p = (case p of [] \<Rightarrow> [] | e # _ \<Rightarrow> pt1 e # map pt2 p)"

definition dir :: "lineSegment \<Rightarrow> char" where
  "dir e = (if pt_y (pt1 e) < pt_y (pt2 e) then CHR ''U'' else CHR ''D'')"

definition profile :: "path \<Rightarrow> string" where
  "profile p = map dir p"

text \<open>No edge meets an edge that is not its neighbour.\<close>

fun noncross :: "real \<Rightarrow> path \<Rightarrow> bool" where
  "noncross eps [] = True"
| "noncross eps (e # es) = ((\<forall>f \<in> set (drop 1 es). \<not> intersect eps e f) \<and> noncross eps es)"

definition path_ok :: "real \<Rightarrow> pt list \<Rightarrow> string \<Rightarrow> path \<Rightarrow> bool" where
  "path_ok eps pts s p \<longleftrightarrow>
     length p = length s \<and> chained p \<and> mset (vertices p) = mset pts \<and> profile p = s
     \<and> noncross eps p"

text \<open>The points are sorted strictly ascending by height (general position, sorted).\<close>

definition heights_sorted :: "pt list \<Rightarrow> bool" where
  "heights_sorted pts = sorted_wrt (<) (map pt_y pts)"

subsection \<open>Chains\<close>

lemma chained_Cons:
  "chained (e # es) \<longleftrightarrow> chained es \<and> (es \<noteq> [] \<longrightarrow> pt2 e = pt1 (hd es))"
  by (cases es) auto

lemma chained_append:
  "chained (xs @ ys) \<longleftrightarrow>
     chained xs \<and> chained ys \<and> (xs \<noteq> [] \<longrightarrow> ys \<noteq> [] \<longrightarrow> pt2 (last xs) = pt1 (hd ys))"
  by (induction xs) (auto simp: chained_Cons)

lemma chained_take: "chained xs \<Longrightarrow> chained (take i xs)"
  by (metis append_take_drop_id chained_append)

lemma chained_drop: "chained xs \<Longrightarrow> chained (drop i xs)"
  by (metis append_take_drop_id chained_append)

lemma chained_nth:
  "chained xs \<Longrightarrow> Suc i < length xs \<Longrightarrow> pt2 (xs ! i) = pt1 (xs ! Suc i)"
proof (induction xs arbitrary: i rule: chained.induct)
  case (1 a b r)
  then show ?case by (cases i) auto
qed auto

subsection \<open>Non-crossing\<close>

lemma noncross_append:
  "noncross eps (xs @ ys) \<longleftrightarrow>
     noncross eps xs \<and> noncross eps ys
     \<and> (\<forall>a \<in> set (butlast xs). \<forall>b \<in> set ys. \<not> intersect eps a b)
     \<and> (xs \<noteq> [] \<longrightarrow> (\<forall>b \<in> set (drop 1 ys). \<not> intersect eps (last xs) b))"
proof (induction xs)
  case Nil
  then show ?case by simp
next
  case (Cons x xs)
  then show ?case by (cases xs) auto
qed

lemma noncross_snoc:
  "noncross eps (xs @ [e]) \<longleftrightarrow>
     noncross eps xs \<and> (\<forall>a \<in> set (butlast xs). \<not> intersect eps a e)"
  by (simp add: noncross_append)

subsection \<open>Vertices and profile\<close>

lemma mset_vertices_Cons:
  "mset (vertices (e # es)) = add_mset (pt1 e) (mset (map pt2 (e # es)))"
  by (simp add: vertices_def)

lemma profile_append [simp]: "profile (xs @ ys) = profile xs @ profile ys"
  by (simp add: profile_def)

lemma profile_Cons [simp]: "profile (e # es) = dir e # profile es"
  by (simp add: profile_def)

lemma profile_Nil [simp]: "profile [] = []"
  by (simp add: profile_def)

lemma length_profile [simp]: "length (profile p) = length p"
  by (simp add: profile_def)

lemma heights_sorted_butlast: "heights_sorted pts \<Longrightarrow> heights_sorted (butlast pts)"
proof -
  assume "heights_sorted pts"
  then have "sorted_wrt (<) (map pt_y (butlast pts) @ map pt_y (drop (length pts - 1) pts))"
    by (simp add: heights_sorted_def butlast_conv_take flip: map_append)
  then show ?thesis by (simp add: heights_sorted_def sorted_wrt_append)
qed

text \<open>In a sorted point list the last point is strictly the highest.\<close>

lemma heights_sorted_last_top:
  assumes "heights_sorted pts" "q \<in> set (butlast pts)"
  shows "pt_y q < pt_y (last pts)"
proof -
  from assms(2) have ne: "pts \<noteq> []" by auto
  then have "pts = butlast pts @ [last pts]" by simp
  with assms(1) have "sorted_wrt (<) (map pt_y (butlast pts) @ [pt_y (last pts)])"
    by (metis heights_sorted_def list.simps(8,9) map_append)
  with assms(2) show ?thesis by (auto simp: sorted_wrt_append)
qed

subsection \<open>Splitting an edge in two\<close>

text \<open>
  Replacing edge \<open>e\<close> of \<open>L @ e # R\<close> by two edges \<open>n1, n2\<close> through a new
  point keeps the path non-crossing when the new edges miss every edge but their
  neighbours, keeps it chained, and adds the new point to its vertices.
\<close>

lemma pt2_in_vertices: "e \<in> set p \<Longrightarrow> pt2 e \<in> set (vertices p)"
  by (cases p) (auto simp: vertices_def)

lemma pt1_in_vertices: "chained p \<Longrightarrow> e \<in> set p \<Longrightarrow> pt1 e \<in> set (vertices p)"
proof (induction p rule: chained.induct)
  case (1 a b r)
  then show ?case by (auto simp: vertices_def)
qed (auto simp: vertices_def)

lemma noncross_splice:
  assumes "noncross eps (L @ e # R)"
    and "\<forall>a\<in>set (butlast L). \<not> intersect eps a n1 \<and> \<not> intersect eps a n2"
    and "L \<noteq> [] \<Longrightarrow> \<not> intersect eps (last L) n2"
    and "R \<noteq> [] \<Longrightarrow> \<not> intersect eps n1 (hd R)"
    and "\<forall>b\<in>set (drop 1 R). \<not> intersect eps n1 b \<and> \<not> intersect eps n2 b"
  shows "noncross eps (L @ n1 # n2 # R)"
proof -
  from assms(1) have L: "noncross eps L" and R: "noncross eps R"
    and LR: "\<forall>a\<in>set (butlast L). \<forall>b\<in>set R. \<not> intersect eps a b"
    and lastR: "L \<noteq> [] \<longrightarrow> (\<forall>b\<in>set R. \<not> intersect eps (last L) b)"
    by (auto simp: noncross_append)
  have n1R: "\<forall>b\<in>set R. \<not> intersect eps n1 b"
    using assms(4,5) by (cases R) auto
  have mid: "noncross eps (n1 # n2 # R)"
    using n1R assms(5) R by simp
  show ?thesis
    using L mid LR lastR assms(2,3) by (auto simp: noncross_append)
qed

lemma chained_splice:
  "chained (L @ e # R) \<Longrightarrow> pt2 n1 = pt1 n2 \<Longrightarrow> pt1 n1 = pt1 e \<Longrightarrow> pt2 n2 = pt2 e
   \<Longrightarrow> chained (L @ n1 # n2 # R)"
  by (auto simp: chained_append chained_Cons)

lemma mset_vertices_splice:
  "pt1 n1 = pt1 e \<Longrightarrow> pt2 n2 = pt2 e \<Longrightarrow>
   mset (vertices (L @ n1 # n2 # R)) = add_mset (pt2 n1) (mset (vertices (L @ e # R)))"
  by (cases L) (auto simp: vertices_def)

subsection \<open>Prepending, appending, and the vertices below the top\<close>

lemma mset_vertices_prepend:
  "p \<noteq> [] \<Longrightarrow> pt2 n = pt1 (hd p) \<Longrightarrow> mset (vertices (n # p)) = add_mset (pt1 n) (mset (vertices p))"
  by (cases p) (auto simp: vertices_def)

lemma mset_vertices_snoc:
  "p \<noteq> [] \<Longrightarrow> mset (vertices (p @ [n])) = add_mset (pt2 n) (mset (vertices p))"
  by (cases p) (auto simp: vertices_def)

lemma path_ok_vertex_below:
  assumes "path_ok eps (butlast points) s' p" "heights_sorted points" "v \<in> set (vertices p)"
  shows "pt_y v < pt_y (last points)"
proof -
  from assms(1) have "set (vertices p) = set (butlast points)"
    by (auto simp: path_ok_def dest: mset_eq_setD)
  with assms(2,3) show ?thesis by (auto intro: heights_sorted_last_top)
qed

lemma take_profile: "profile (take i p) = take i (profile p)"
  by (simp add: profile_def take_map)

lemma drop_profile: "profile (drop i p) = drop i (profile p)"
  by (simp add: profile_def drop_map)

lemma heights_sorted_take: "heights_sorted P \<Longrightarrow> heights_sorted (take n P)"
  by (simp add: heights_sorted_def take_map [symmetric] sorted_wrt_take)

end
