(* ===== verification/PathStringDP.thy ===== *)
theory PathStringDP
  imports Path
begin

text \<open>
  The dynamic-programming solver \<open>pathStringDP\<close> of src/CleanSolution.py (lines 147-316).
  The memo table \<open>solved\<close> is a dict from pattern strings to lists of paths, threaded
  through the recursion as explicit state; Python exceptions are \<open>Inl\<close> values.
  \<open>caseI_ext\<close>, \<open>caseII_ext\<close> and \<open>caseIII_ext\<close> are the bodies of the three
  \<open>for partialsol in ...\<close> loops (one candidate each), \<open>extend_into\<close> runs such a loop
  and appends the accepted paths to \<open>solved[string]\<close>, \<open>ensure_solved\<close> is the
  recurring \<open>if partial not in solved: pathStringDP(points[:-1], partial, solved)\<close>, and
  \<open>find_UD\<close> is the scan for the first \<open>"UD"\<close>: the source's \<open>return solved\<close> sits
  inside that loop, so only the first occurrence is ever processed.
  \<open>solutions\<close> is the same recursion without the memo table: the reference the memoised
  solver is proved to compute.
\<close>

type_synonym memo = "string \<rightharpoonup> path list"

subsection \<open>One candidate of each case\<close>

text \<open>Case I (lines 185-200): a new first edge from the top point to the old start.\<close>

definition caseI_ext :: "real \<Rightarrow> pt list \<Rightarrow> path \<Rightarrow> path option res" where
  "caseI_ext eps points partialsolution =
     (case partialsolution of
        [] \<Rightarrow> Inl IndexError
      | e # es \<Rightarrow> ebind (py_last points) (\<lambda>top.
          (let newLine = LineSegment top (pt1 e)
           in if list_ex (\<lambda>f. intersect eps f newLine) es then Inr None
              else Inr (Some (newLine # partialsolution)))))"

text \<open>Case II (lines 212-227): a new last edge from the old end to the top point.\<close>

definition caseII_ext :: "real \<Rightarrow> pt list \<Rightarrow> path \<Rightarrow> path option res" where
  "caseII_ext eps points partialsolution =
     (if partialsolution = [] then Inl IndexError
      else ebind (py_last points) (\<lambda>top.
        (let newLine = LineSegment (pt2 (last partialsolution)) top
         in if list_ex (\<lambda>f. intersect eps f newLine) (butlast partialsolution) then Inr None
            else Inr (Some (partialsolution @ [newLine])))))"

text \<open>
  Case III (lines 247-276 and 284-314): edge \<open>i\<close> is popped and replaced by two edges
  through the top point; the new edges are tested against every edge but their own
  neighbours.
\<close>

definition caseIII_ext :: "real \<Rightarrow> pt list \<Rightarrow> nat \<Rightarrow> path \<Rightarrow> path option res" where
  "caseIII_ext eps points i partialSolution =
     (if i < length partialSolution then
        ebind (py_last points) (\<lambda>top.
        (let oldLine = partialSolution ! i;
             rest = take i partialSolution @ drop (Suc i) partialSolution;
             newLine1 = LineSegment (pt1 oldLine) top;
             newLine2 = LineSegment top (pt2 oldLine);
             valid =
               (\<not> list_ex (\<lambda>f. intersect eps newLine1 f \<or> intersect eps newLine2 f) (take (i - 1) rest)
                \<and> \<not> (0 < i \<and> intersect eps (rest ! (i - 1)) newLine2)
                \<and> \<not> (i < length rest \<and> intersect eps (rest ! i) newLine1)
                \<and> \<not> list_ex (\<lambda>f. intersect eps newLine1 f \<or> intersect eps newLine2 f) (drop (i + 1) rest))
         in if valid then Inr (Some (take i rest @ [newLine1, newLine2] @ drop i rest))
            else Inr None))
      else Inl IndexError)"

subsection \<open>The candidate loops\<close>

text \<open>
  \<open>for partialsol in partialsolutions: ... solved[string].append(...)\<close>: each accepted
  path is appended to the entry of \<open>string\<close> (a missing entry would be a KeyError).
\<close>

fun extend_into :: "(path \<Rightarrow> path option res) \<Rightarrow> string \<Rightarrow> path list \<Rightarrow> memo \<Rightarrow> memo res" where
  "extend_into f s [] solved = Inr solved"
| "extend_into f s (p # ps) solved =
     ebind (f p) (\<lambda>r. case r of
        None \<Rightarrow> extend_into f s ps solved
      | Some q \<Rightarrow> ebind (dict_get solved s) (\<lambda>cur. extend_into f s ps (solved(s \<mapsto> cur @ [q]))))"

text \<open>The same loop collecting the accepted paths in a list (used by the reference).\<close>

fun collect :: "(path \<Rightarrow> path option res) \<Rightarrow> path list \<Rightarrow> path list res" where
  "collect f [] = Inr []"
| "collect f (p # ps) =
     ebind (f p) (\<lambda>r. ebind (collect f ps) (\<lambda>qs. Inr (case r of None \<Rightarrow> qs | Some q \<Rightarrow> q # qs)))"

subsection \<open>Patterns\<close>

text \<open>The scan \<open>for i in range(0, len(string) - 1): if string[i] == "U": if string[i+1] == "D"\<close>.\<close>

function find_UD :: "string \<Rightarrow> nat \<Rightarrow> nat option" where
  "find_UD s i =
     (if i + 1 < length s then
        (if s ! i = CHR ''U'' \<and> s ! (i + 1) = CHR ''D'' then Some i else find_UD s (i + 1))
      else None)"
  by pat_completeness auto
termination
  by (relation "measure (\<lambda>(s, i). length s - i)") auto

declare find_UD.simps [simp del]

text \<open>\<open>string[:i] + c + string[i + 2:]\<close> (lines 238-239).\<close>

definition collapse :: "string \<Rightarrow> nat \<Rightarrow> char \<Rightarrow> string" where
  "collapse s i c = take i s @ [c] @ drop (i + 2) s"

lemma find_UD_Some:
  "find_UD s j = Some i \<Longrightarrow> j \<le> i \<and> i + 1 < length s \<and> s ! i = CHR ''U'' \<and> s ! (i + 1) = CHR ''D''"
proof (induction s j rule: find_UD.induct)
  case (1 s j)
  then show ?case
    by (cases "j + 1 < length s") (auto simp: find_UD.simps [of s j] split: if_splits)
qed

lemma length_collapse: "i + 1 < length s \<Longrightarrow> length (collapse s i c) = length s - 1"
  by (simp add: collapse_def)

subsection \<open>The solver\<close>

text \<open>\<open>if partial not in solved: pathStringDP(points[:len(points) - 1], partial, solved)\<close>.\<close>

definition ensure_solved :: "('k \<Rightarrow> ('k \<rightharpoonup> 'v) \<Rightarrow> (('k \<rightharpoonup> 'v) \<times> 'r) res) \<Rightarrow> 'k \<Rightarrow> ('k \<rightharpoonup> 'v) \<Rightarrow> ('k \<rightharpoonup> 'v) res" where
  "ensure_solved rec partial solved =
     (if partial \<in> dom solved then Inr solved else ebind (rec partial solved) (\<lambda>r. Inr (fst r)))"

lemma ensure_solved_cong [fundef_cong]:
  "p = p' \<Longrightarrow> m = m' \<Longrightarrow> (p' \<notin> dom m' \<Longrightarrow> rec p' m' = rec' p' m')
   \<Longrightarrow> ensure_solved rec p m = ensure_solved rec' p' m'"
  by (simp add: ensure_solved_def)

text \<open>The single edge of the base case (lines 168-173).\<close>

definition base_edge :: "pt list \<Rightarrow> string \<Rightarrow> lineSegment res" where
  "base_edge points string =
     ebind (py_nth points 0) (\<lambda>p0. ebind (py_nth points 1) (\<lambda>p1.
       Inr (if string ! 0 = CHR ''U'' then LineSegment p0 p1 else LineSegment p1 p0)))"

text \<open>
  The result is the memo table and the function's return value: \<open>None\<close> where the source
  falls off its end or returns bare (the base case, or no \<open>"UD"\<close> in the string), and
  \<open>Some solved\<close> where it executes \<open>return solved\<close>.
\<close>

function pathStringDP :: "real \<Rightarrow> pt list \<Rightarrow> string \<Rightarrow> memo \<Rightarrow> (memo \<times> memo option) res" where
  "pathStringDP eps points string solved0 =
    (let solved = solved0(string \<mapsto> []) in
     if length string = 1 then
       ebind (base_edge points string) (\<lambda>e. Inr (solved(string \<mapsto> [[e]]), None))
     else if string = [] then Inl IndexError
     else
       ebind (if hd string = CHR ''D'' then
           ebind (ensure_solved (pathStringDP eps (butlast points)) (tl string) solved) (\<lambda>solved1.
           ebind (dict_get solved1 (tl string)) (\<lambda>partialsolutions.
             extend_into (caseI_ext eps points) string partialsolutions solved1))
         else Inr solved) (\<lambda>solved2.
       ebind (if last string = CHR ''U'' then
           ebind (ensure_solved (pathStringDP eps (butlast points)) (butlast string) solved2) (\<lambda>solved3.
           ebind (dict_get solved3 (butlast string)) (\<lambda>partialsolutions.
             extend_into (caseII_ext eps points) string partialsolutions solved3))
         else Inr solved2) (\<lambda>solved4.
       (case find_UD string 0 of
          None \<Rightarrow> Inr (solved4, None)
        | Some i \<Rightarrow>
           ebind (ensure_solved (pathStringDP eps (butlast points)) (collapse string i CHR ''U'') solved4) (\<lambda>solved5.
           ebind (dict_get solved5 (collapse string i CHR ''U'')) (\<lambda>partialSolutions1.
           ebind (extend_into (caseIII_ext eps points i) string partialSolutions1 solved5) (\<lambda>solved6.
           ebind (ensure_solved (pathStringDP eps (butlast points)) (collapse string i CHR ''D'') solved6) (\<lambda>solved7.
           ebind (dict_get solved7 (collapse string i CHR ''D'')) (\<lambda>partialSolutions2.
           ebind (extend_into (caseIII_ext eps points i) string partialSolutions2 solved7) (\<lambda>solved8.
             Inr (solved8, Some solved8)))))))))))"
  by pat_completeness auto
termination
  by (relation "measure (\<lambda>(eps, points, string, solved). length string)")
     (auto simp: length_collapse dest: find_UD_Some)

declare pathStringDP.simps [simp del]

subsection \<open>The reference recursion without memo table\<close>

function solutions :: "real \<Rightarrow> pt list \<Rightarrow> string \<Rightarrow> path list res" where
  "solutions eps points string =
    (if length string = 1 then ebind (base_edge points string) (\<lambda>e. Inr [[e]])
     else if string = [] then Inl IndexError
     else
       ebind (if hd string = CHR ''D'' then
           ebind (solutions eps (butlast points) (tl string)) (collect (caseI_ext eps points))
         else Inr []) (\<lambda>A.
       ebind (if last string = CHR ''U'' then
           ebind (solutions eps (butlast points) (butlast string)) (collect (caseII_ext eps points))
         else Inr []) (\<lambda>B.
       ebind (case find_UD string 0 of
          None \<Rightarrow> Inr []
        | Some i \<Rightarrow>
           ebind (solutions eps (butlast points) (collapse string i CHR ''U'')) (\<lambda>S1.
           ebind (collect (caseIII_ext eps points i) S1) (\<lambda>C1.
           ebind (solutions eps (butlast points) (collapse string i CHR ''D'')) (\<lambda>S2.
           ebind (collect (caseIII_ext eps points i) S2) (\<lambda>C2. Inr (C1 @ C2)))))) (\<lambda>C.
       Inr (A @ B @ C)))))"
  by pat_completeness auto
termination
  by (relation "measure (\<lambda>(eps, points, string). length string)")
     (auto simp: length_collapse dest: find_UD_Some)

declare solutions.simps [simp del]

subsection \<open>The reference never raises on well-sized input\<close>

text \<open>
  \<open>ext_total f n\<close>: the candidate step \<open>f\<close> raises on no path of \<open>n\<close> edges and
  every path it accepts has one edge more.
\<close>

definition ext_total :: "(path \<Rightarrow> path option res) \<Rightarrow> nat \<Rightarrow> bool" where
  "ext_total f n \<longleftrightarrow> (\<forall>p. length p = n \<longrightarrow> (\<exists>r. f p = Inr r \<and> (\<forall>q. r = Some q \<longrightarrow> length q = Suc n)))"

lemma caseI_ext_total: "0 < n \<Longrightarrow> points \<noteq> [] \<Longrightarrow> ext_total (caseI_ext eps points) n"
  by (auto simp: ext_total_def caseI_ext_def py_last_ok Let_def split: list.splits)

lemma caseII_ext_total: "0 < n \<Longrightarrow> points \<noteq> [] \<Longrightarrow> ext_total (caseII_ext eps points) n"
  by (auto simp: ext_total_def caseII_ext_def py_last_ok Let_def)

lemma caseIII_ext_total: "i < n \<Longrightarrow> points \<noteq> [] \<Longrightarrow> ext_total (caseIII_ext eps points i) n"
  by (auto simp: ext_total_def caseIII_ext_def py_last_ok Let_def)

lemma collect_total:
  "ext_total f n \<Longrightarrow> \<forall>p\<in>set ps. length p = n \<Longrightarrow>
   \<exists>qs. collect f ps = Inr qs \<and> (\<forall>q\<in>set qs. length q = Suc n)"
proof (induction ps)
  case (Cons p ps)
  then obtain r where "f p = Inr r" "\<forall>q. r = Some q \<longrightarrow> length q = Suc n"
    by (auto simp: ext_total_def)
  with Cons show ?case by (cases r) auto
qed simp

lemma base_edge_total: "length points = 2 \<Longrightarrow> \<exists>e. base_edge points s = Inr e"
  by (simp add: base_edge_def res_simps)

lemma solutions_total:
  "s \<noteq> [] \<Longrightarrow> length points = length s + 1 \<Longrightarrow>
   \<exists>sols. solutions eps points s = Inr sols \<and> (\<forall>p\<in>set sols. length p = length s)"
proof (induction "length s" arbitrary: s points rule: less_induct)
  case less
  show ?case
  proof (cases "length s = 1")
    case True
    with less.prems base_edge_total [of points s] show ?thesis
      by (auto simp: solutions.simps [of eps points s])
  next
    case False
    have "length s \<noteq> 0" using less.prems(1) by simp
    with False have two: "2 \<le> length s" by linarith
    define pts' where "pts' = butlast points"
    have lp: "length pts' = length s" "points \<noteq> []" using less.prems by (auto simp: pts'_def)
    have rec: "\<exists>S. solutions eps pts' s' = Inr S \<and> (\<forall>p\<in>set S. length p = length s - 1)"
      if "length s' = length s - 1" for s'
    proof -
      have "s' \<noteq> []" "length pts' = length s' + 1" "length s' < length s"
        using that two lp by auto
      then show ?thesis using less.hyps [of s' pts'] that by auto
    qed
    obtain A where A: "(if hd s = CHR ''D'' then ebind (solutions eps pts' (tl s)) (collect (caseI_ext eps points)) else Inr []) = Inr A"
      and A': "\<forall>p\<in>set A. length p = length s"
    proof (cases "hd s = CHR ''D''")
      case True
      obtain S where S: "solutions eps pts' (tl s) = Inr S" "\<forall>p\<in>set S. length p = length s - 1"
        using rec [of "tl s"] by auto
      have "0 < length s - 1" using two by simp
      then obtain qs where "collect (caseI_ext eps points) S = Inr qs"
          "\<forall>q\<in>set qs. length q = Suc (length s - 1)"
        using collect_total [OF caseI_ext_total [where eps = eps, OF _ lp(2)] S(2)] by blast
      moreover have "Suc (length s - 1) = length s" using two by simp
      ultimately show ?thesis using S True by (intro that) auto
    qed (use that in auto)
    obtain B where B: "(if last s = CHR ''U'' then ebind (solutions eps pts' (butlast s)) (collect (caseII_ext eps points)) else Inr []) = Inr B"
      and B': "\<forall>p\<in>set B. length p = length s"
    proof (cases "last s = CHR ''U''")
      case True
      obtain S where S: "solutions eps pts' (butlast s) = Inr S" "\<forall>p\<in>set S. length p = length s - 1"
        using rec [of "butlast s"] by auto
      have "0 < length s - 1" using two by simp
      then obtain qs where "collect (caseII_ext eps points) S = Inr qs"
          "\<forall>q\<in>set qs. length q = Suc (length s - 1)"
        using collect_total [OF caseII_ext_total [where eps = eps, OF _ lp(2)] S(2)] by blast
      moreover have "Suc (length s - 1) = length s" using two by simp
      ultimately show ?thesis using S True by (intro that) auto
    qed (use that in auto)
    have C: "\<exists>C. (case find_UD s 0 of None \<Rightarrow> Inr [] | Some i \<Rightarrow>
           ebind (solutions eps pts' (collapse s i CHR ''U'')) (\<lambda>S1.
           ebind (collect (caseIII_ext eps points i) S1) (\<lambda>C1.
           ebind (solutions eps pts' (collapse s i CHR ''D'')) (\<lambda>S2.
           ebind (collect (caseIII_ext eps points i) S2) (\<lambda>C2. Inr (C1 @ C2)))))) = Inr C
           \<and> (\<forall>p\<in>set C. length p = length s)"
    proof (cases "find_UD s 0")
      case (Some i)
      then have i: "i + 1 < length s" by (auto dest: find_UD_Some)
      then have "i < length s - 1" by simp
      note ext = collect_total [OF caseIII_ext_total [where eps = eps, OF this lp(2)]]
      from rec [of "collapse s i CHR ''U''"] rec [of "collapse s i CHR ''D''"] i
      obtain S1 S2 where "solutions eps pts' (collapse s i CHR ''U'') = Inr S1"
          "\<forall>p\<in>set S1. length p = length s - 1"
          "solutions eps pts' (collapse s i CHR ''D'') = Inr S2"
          "\<forall>p\<in>set S2. length p = length s - 1"
        by (auto simp: length_collapse)
      with ext [of S1] ext [of S2] Some two show ?thesis by fastforce
    qed simp
    then obtain C where C: "(case find_UD s 0 of None \<Rightarrow> Inr [] | Some i \<Rightarrow>
           ebind (solutions eps pts' (collapse s i CHR ''U'')) (\<lambda>S1.
           ebind (collect (caseIII_ext eps points i) S1) (\<lambda>C1.
           ebind (solutions eps pts' (collapse s i CHR ''D'')) (\<lambda>S2.
           ebind (collect (caseIII_ext eps points i) S2) (\<lambda>C2. Inr (C1 @ C2)))))) = Inr C"
      and C': "\<forall>p\<in>set C. length p = length s" by blast
    have "solutions eps points s = ebind (Inr A) (\<lambda>A. ebind (Inr B) (\<lambda>B. ebind (Inr C) (\<lambda>C. Inr (A @ B @ C))))"
      unfolding solutions.simps [of eps points s] if_not_P [OF False] if_not_P [OF less.prems(1)]
        pts'_def [symmetric] A B C ..
    then have "solutions eps points s = Inr (A @ B @ C)" by simp
    with A' B' C' show ?thesis by auto
  qed
qed
subsection \<open>Every path the reference builds is a solution\<close>

lemma caseI_ext_sound:
  assumes ok: "path_ok eps (butlast points) (tl s) p" and hs: "heights_sorted points"
    and D: "hd s = CHR ''D''" and ne: "s \<noteq> []"
    and ext: "caseI_ext eps points p = Inr (Some q)"
  shows "path_ok eps points s q"
proof -
  from ext obtain e es where p: "p = e # es" and pts: "points \<noteq> []"
    and q: "q = LineSegment (last points) (pt1 e) # p"
    and nx: "\<forall>f\<in>set es. \<not> intersect eps f (LineSegment (last points) (pt1 e))"
    by (auto simp: caseI_ext_def py_last_def Let_def list_ex_iff split: list.splits if_splits)
  from ok p have "pt_y (pt1 e) < pt_y (last points)"
    by (intro path_ok_vertex_below [OF ok hs]) (auto simp: path_ok_def intro: pt1_in_vertices)
  then have "dir (LineSegment (last points) (pt1 e)) = CHR ''D''" by (simp add: dir_def)
  moreover have "mset (vertices q) = mset points"
    using ok p q pts by (simp add: mset_vertices_prepend path_ok_def mset_butlast_last)
  moreover have "s = CHR ''D'' # tl s" using D ne by (cases s) auto
  ultimately show ?thesis
    using ok p q nx by (auto simp: path_ok_def intersect_iff)
qed

lemma caseII_ext_sound:
  assumes ok: "path_ok eps (butlast points) (butlast s) p" and hs: "heights_sorted points"
    and U: "last s = CHR ''U''" and ne: "s \<noteq> []"
    and ext: "caseII_ext eps points p = Inr (Some q)"
  shows "path_ok eps points s q"
proof -
  from ext have p: "p \<noteq> []" and pts: "points \<noteq> []"
    and q: "q = p @ [LineSegment (pt2 (last p)) (last points)]"
    and nx: "\<forall>f\<in>set (butlast p). \<not> intersect eps f (LineSegment (pt2 (last p)) (last points))"
    by (auto simp: caseII_ext_def py_last_def Let_def list_ex_iff split: if_splits)
  from p have "pt_y (pt2 (last p)) < pt_y (last points)"
    by (intro path_ok_vertex_below [OF ok hs] pt2_in_vertices) simp
  then have "dir (LineSegment (pt2 (last p)) (last points)) = CHR ''U''" by (simp add: dir_def)
  moreover have "mset (vertices q) = mset points"
    using ok p q pts by (simp add: mset_vertices_snoc path_ok_def mset_butlast_last)
  moreover have "s = butlast s @ [last s]" using ne by simp
  ultimately show ?thesis
    using ok p q nx U ne by (auto simp: path_ok_def noncross_snoc chained_append)
qed


lemma caseIII_ext_Some:
  assumes "caseIII_ext eps points i p = Inr (Some q)"
  shows "points \<noteq> [] \<and> i < length p
    \<and> q = take i p @ LineSegment (pt1 (p ! i)) (last points) # LineSegment (last points) (pt2 (p ! i)) # drop (Suc i) p
    \<and> (\<forall>a\<in>set (take (i - 1) p). \<not> intersect eps (LineSegment (pt1 (p ! i)) (last points)) a
         \<and> \<not> intersect eps (LineSegment (last points) (pt2 (p ! i))) a)
    \<and> (0 < i \<longrightarrow> \<not> intersect eps (p ! (i - 1)) (LineSegment (last points) (pt2 (p ! i))))
    \<and> (Suc i < length p \<longrightarrow> \<not> intersect eps (p ! Suc i) (LineSegment (pt1 (p ! i)) (last points)))
    \<and> (\<forall>b\<in>set (drop (i + 2) p). \<not> intersect eps (LineSegment (pt1 (p ! i)) (last points)) b
         \<and> \<not> intersect eps (LineSegment (last points) (pt2 (p ! i))) b)"
proof -
  from assms have i: "i < length p" and pts: "points \<noteq> []"
    by (auto simp: caseIII_ext_def py_last_def split: if_splits)
  define rest where "rest = take i p @ drop (Suc i) p"
  have rest: "take (i - Suc 0) rest = take (i - Suc 0) p" "length rest = length p - Suc 0"
      "take i rest = take i p" "drop i rest = drop (Suc i) p" "drop (Suc i) rest = drop (Suc (Suc i)) p"
      "0 < i \<Longrightarrow> rest ! (i - Suc 0) = p ! (i - Suc 0)"
      "i < length rest \<Longrightarrow> rest ! i = p ! Suc i"
    using i by (auto simp: rest_def nth_append min_def)
  from assms i pts show ?thesis
    unfolding caseIII_ext_def rest_def [symmetric]
    by (auto simp: rest py_last_def Let_def list_ex_iff split: if_splits)
qed


lemma UD_split:
  "i + 1 < length s \<Longrightarrow> s ! i = CHR ''U'' \<Longrightarrow> s ! (i + 1) = CHR ''D'' \<Longrightarrow>
   s = take i s @ [CHR ''U'', CHR ''D''] @ drop (i + 2) s"
  by (metis Cons_nth_drop_Suc Suc_eq_plus1 add_2_eq_Suc' append_Cons append_Nil append_take_drop_id
      Suc_lessD)

lemma caseIII_ext_sound:
  assumes ok: "path_ok eps (butlast points) (collapse s i c) p" and hs: "heights_sorted points"
    and i: "i + 1 < length s" "s ! i = CHR ''U''" "s ! (i + 1) = CHR ''D''"
    and ext: "caseIII_ext eps points i p = Inr (Some q)"
  shows "path_ok eps points s q"
proof -
  define L R e top where "L = take i p" and "R = drop (Suc i) p" and "e = p ! i"
    and "top = last points"
  define n1 n2 where "n1 = LineSegment (pt1 e) top" and "n2 = LineSegment top (pt2 e)"
  note inv = caseIII_ext_Some [OF ext, folded e_def top_def, folded n1_def n2_def]
  from inv have il: "i < length p" and pts: "points \<noteq> []" by auto
  have p: "p = L @ e # R" using il by (simp add: L_def R_def e_def id_take_nth_drop)
  have q: "q = L @ n1 # n2 # R" using inv by (simp add: L_def R_def)
  have butL: "butlast L = take (i - 1) p" using il by (simp add: L_def butlast_take)
  have lastL: "L \<noteq> [] \<Longrightarrow> last L = p ! (i - 1)" using il
    by (simp add: L_def last_conv_nth min_def)
  have hdR: "R \<noteq> [] \<Longrightarrow> hd R = p ! Suc i" by (simp add: R_def hd_drop_conv_nth)
  have dropR: "drop 1 R = drop (i + 2) p" by (simp add: R_def)
  have nc: "noncross eps q"
    unfolding q
  proof (rule noncross_splice)
    show "noncross eps (L @ e # R)" using ok p by (simp add: path_ok_def)
  qed (use inv butL lastL hdR dropR in \<open>auto simp: L_def R_def intersect_iff\<close>)
  have ch: "chained q" using ok p q by (auto simp: path_ok_def n1_def n2_def intro: chained_splice)
  have ev: "pt1 e \<in> set (vertices p)" "pt2 e \<in> set (vertices p)"
    using ok il by (auto simp: path_ok_def e_def intro: pt1_in_vertices pt2_in_vertices)
  have up: "dir n1 = CHR ''U''" and down: "dir n2 = CHR ''D''"
    using path_ok_vertex_below [OF ok hs ev(1)] path_ok_vertex_below [OF ok hs ev(2)]
    by (auto simp: dir_def n1_def n2_def top_def)
  have ms: "mset (vertices q) = mset points"
    using ok p q pts by (simp add: mset_vertices_splice n1_def n2_def top_def path_ok_def mset_butlast_last)
  have pr: "profile q = s"
  proof -
    have "profile p = collapse s i c" using ok by (simp add: path_ok_def)
    then have "profile L = take i s" "profile R = drop (i + 2) s"
      using i(1) by (simp_all add: L_def R_def take_profile drop_profile collapse_def)
    then show ?thesis using q up down UD_split [OF i] by simp
  qed
  have "length q = length s" using ok q p i(1) by (simp add: path_ok_def length_collapse)
  with nc ch ms pr show ?thesis by (simp add: path_ok_def)
qed


lemma collect_sound:
  "collect f ps = Inr qs \<Longrightarrow> \<forall>p\<in>set ps. \<forall>q. f p = Inr (Some q) \<longrightarrow> P q \<Longrightarrow> \<forall>q\<in>set qs. P q"
proof (induction ps arbitrary: qs)
  case (Cons p ps)
  then show ?case by (auto simp: ebind_eq_Inr split: option.splits)
qed simp

lemma solutions_InrE:
  assumes "solutions eps points s = Inr sols" "length s \<noteq> 1" "s \<noteq> []"
  obtains A B C where "sols = A @ B @ C"
    and "if hd s = CHR ''D'' then \<exists>S. solutions eps (butlast points) (tl s) = Inr S
           \<and> collect (caseI_ext eps points) S = Inr A else A = []"
    and "if last s = CHR ''U'' then \<exists>S. solutions eps (butlast points) (butlast s) = Inr S
           \<and> collect (caseII_ext eps points) S = Inr B else B = []"
    and "case find_UD s 0 of None \<Rightarrow> C = []
         | Some i \<Rightarrow> \<exists>S1 C1 S2 C2. solutions eps (butlast points) (collapse s i CHR ''U'') = Inr S1
             \<and> collect (caseIII_ext eps points i) S1 = Inr C1
             \<and> solutions eps (butlast points) (collapse s i CHR ''D'') = Inr S2
             \<and> collect (caseIII_ext eps points i) S2 = Inr C2 \<and> C = C1 @ C2"
  using assms
  by (simp add: solutions.simps [of eps points s] ebind_eq_Inr split: if_splits option.splits)
    blast+


lemma solutions_base_sound:
  assumes "length s = 1" "length points = 2" "heights_sorted points" "set s \<subseteq> {CHR ''U'', CHR ''D''}"
    and "solutions eps points s = Inr sols"
  shows "\<forall>p\<in>set sols. path_ok eps points s p"
proof -
  obtain c where s: "s = [c]" using assms(1) by (cases s) auto
  obtain a b where pts: "points = [a, b]" using assms(2)
    by (cases points; cases "tl points") auto
  have ab: "pt_y a < pt_y b" using assms(3) by (simp add: pts heights_sorted_def)
  have c: "c = CHR ''U'' \<or> c = CHR ''D''" using assms(4) by (simp add: s)
  from assms(5) have "sols = [[if c = CHR ''U'' then LineSegment a b else LineSegment b a]]"
    unfolding s pts by (simp add: solutions.simps [of eps "[a, b]" "[c]"] base_edge_def res_simps)
  with ab c show ?thesis
    by (auto simp: path_ok_def s pts vertices_def dir_def)
qed

lemma set_collapse: "set (collapse s i c) \<subseteq> insert c (set s)"
  by (auto simp: collapse_def dest: in_set_takeD in_set_dropD)

lemma solutions_paths_ok:
  "solutions eps points s = Inr sols \<Longrightarrow> length points = length s + 1 \<Longrightarrow> heights_sorted points
   \<Longrightarrow> set s \<subseteq> {CHR ''U'', CHR ''D''} \<Longrightarrow> \<forall>p\<in>set sols. path_ok eps points s p"
proof (induction "length s" arbitrary: s points sols rule: less_induct)
  case less
  show ?case
  proof (cases "length s = 1")
    case True
    with less.prems show ?thesis by (intro solutions_base_sound) auto
  next
    case False
    have ne: "s \<noteq> []" using less.prems(1) by (auto simp: solutions.simps [of eps points s])
    define pts' where "pts' = butlast points"
    have hs': "heights_sorted pts'" using less.prems(3) by (simp add: pts'_def heights_sorted_butlast)
    have rec: "\<forall>p\<in>set S. path_ok eps pts' s' p"
      if "solutions eps pts' s' = Inr S" "length s' = length s - 1" "set s' \<subseteq> {CHR ''U'', CHR ''D''}"
      for s' S
      using less.hyps [of s' pts' S] that ne hs' less.prems(2) by (simp add: pts'_def)
    obtain A B C where sols: "sols = A @ B @ C"
      and A: "if hd s = CHR ''D'' then \<exists>S. solutions eps pts' (tl s) = Inr S
           \<and> collect (caseI_ext eps points) S = Inr A else A = []"
      and B: "if last s = CHR ''U'' then \<exists>S. solutions eps pts' (butlast s) = Inr S
           \<and> collect (caseII_ext eps points) S = Inr B else B = []"
      and C: "case find_UD s 0 of None \<Rightarrow> C = []
         | Some i \<Rightarrow> \<exists>S1 C1 S2 C2. solutions eps pts' (collapse s i CHR ''U'') = Inr S1
             \<and> collect (caseIII_ext eps points i) S1 = Inr C1
             \<and> solutions eps pts' (collapse s i CHR ''D'') = Inr S2
             \<and> collect (caseIII_ext eps points i) S2 = Inr C2 \<and> C = C1 @ C2"
      using solutions_InrE [OF less.prems(1) False ne] unfolding pts'_def by blast
    have "\<forall>q\<in>set A. path_ok eps points s q"
    proof (cases "hd s = CHR ''D''")
      case True
      with A obtain S where S: "solutions eps pts' (tl s) = Inr S"
          and col: "collect (caseI_ext eps points) S = Inr A"
        by auto
      have "set (tl s) \<subseteq> {CHR ''U'', CHR ''D''}" using less.prems(4) by (cases s) auto
      with S ne have "\<forall>p\<in>set S. path_ok eps pts' (tl s) p" by (intro rec) auto
      with True ne less.prems(3) have "\<forall>p\<in>set S. \<forall>q. caseI_ext eps points p = Inr (Some q) \<longrightarrow> path_ok eps points s q"
        unfolding pts'_def by (blast intro: caseI_ext_sound)
      with col show ?thesis by (rule collect_sound)
    qed (use A in simp)
    moreover have "\<forall>q\<in>set B. path_ok eps points s q"
    proof (cases "last s = CHR ''U''")
      case True
      with B obtain S where S: "solutions eps pts' (butlast s) = Inr S"
          and col: "collect (caseII_ext eps points) S = Inr B"
        by auto
      have "set (butlast s) \<subseteq> {CHR ''U'', CHR ''D''}" using less.prems(4) by (auto dest: in_set_butlastD)
      with S ne have "\<forall>p\<in>set S. path_ok eps pts' (butlast s) p" by (intro rec) auto
      with True ne less.prems(3) have "\<forall>p\<in>set S. \<forall>q. caseII_ext eps points p = Inr (Some q) \<longrightarrow> path_ok eps points s q"
        unfolding pts'_def by (blast intro: caseII_ext_sound)
      with col show ?thesis by (rule collect_sound)
    qed (use B in simp)
    moreover have "\<forall>q\<in>set C. path_ok eps points s q"
    proof (cases "find_UD s 0")
      case (Some i)
      note i = find_UD_Some [OF Some]
      from C Some obtain S1 C1 S2 C2 where
          S1: "solutions eps pts' (collapse s i CHR ''U'') = Inr S1" and C1: "collect (caseIII_ext eps points i) S1 = Inr C1"
          and S2: "solutions eps pts' (collapse s i CHR ''D'') = Inr S2" and C2: "collect (caseIII_ext eps points i) S2 = Inr C2"
          and CC: "C = C1 @ C2"
        by auto
      have part: "\<forall>q\<in>set Cs. path_ok eps points s q"
        if Sc: "solutions eps pts' (collapse s i c) = Inr Sc" and Cc: "collect (caseIII_ext eps points i) Sc = Inr Cs"
          and c: "c \<in> {CHR ''U'', CHR ''D''}" for c Sc Cs
      proof -
        have "set (collapse s i c) \<subseteq> {CHR ''U'', CHR ''D''}"
          using set_collapse [of s i c] less.prems(4) c by auto
        with Sc i have "\<forall>p\<in>set Sc. path_ok eps pts' (collapse s i c) p"
          by (intro rec) (auto simp: length_collapse)
        with i less.prems(3) have "\<forall>p\<in>set Sc. \<forall>q. caseIII_ext eps points i p = Inr (Some q) \<longrightarrow> path_ok eps points s q"
          unfolding pts'_def by (blast intro: caseIII_ext_sound)
        with Cc show ?thesis by (rule collect_sound)
      qed
      show ?thesis using part [OF S1 C1] part [OF S2 C2] CC by auto
    qed (use C in simp)
    ultimately show ?thesis by (simp add: sols ball_Un)
  qed
qed

subsection \<open>Too few points\<close>

lemma find_UD_exists:
  "s ! j = CHR ''U'' \<Longrightarrow> j < length s \<Longrightarrow> last s = CHR ''D'' \<Longrightarrow> set s \<subseteq> {CHR ''U'', CHR ''D''}
   \<Longrightarrow> find_UD s j \<noteq> None"
proof (induction s j rule: find_UD.induct)
  case (1 s j)
  show ?case
  proof (cases "j + 1 < length s")
    case True
    moreover have "s ! (j + 1) \<in> {CHR ''U'', CHR ''D''}" using True "1.prems"(4) nth_mem [of "j + 1" s] by blast
    ultimately show ?thesis using "1.IH" "1.prems"(1,3,4) by (auto simp: find_UD.simps [of s j])
  next
    case False
    then have "j = length s - 1" using "1.prems"(2) by simp
    moreover have "s \<noteq> []" using "1.prems"(2) by auto
    ultimately have "s ! j = last s" by (simp add: last_conv_nth)
    then show ?thesis using "1.prems"(1,3) by simp
  qed
qed

text \<open>
  C9: the solver needs one point more than the pattern has letters. On a pattern over
  \<open>{U, D}\<close> with at most as many points as letters, started from a dict with no entry
  for a shorter pattern (an empty dict, say), every branch recurses on one point and
  one letter fewer until the base case reads \<open>points[1]\<close> of a list of at most one
  point: the call raises \<open>IndexError\<close>.
\<close>

theorem pathStringDP_too_few_points:
  assumes "set s \<subseteq> {CHR ''U'', CHR ''D''}" "length points \<le> length s"
    and "\<forall>k. length k < length s \<longrightarrow> m k = None"
  shows "pathStringDP eps points s m = Inl IndexError"
  using assms
proof (induction "length s" arbitrary: s points m rule: less_induct)
  case less
  show ?case
  proof (cases "length s \<le> 1")
    case True
    show ?thesis
    proof (cases "s = []")
      case True
      then show ?thesis by (simp add: pathStringDP.simps [of eps points "[]"] Let_def)
    next
      case False
      with True have "length s = 1" by (cases s) auto
      with less.prems(2) show ?thesis by (simp add: pathStringDP.simps [of eps points s] base_edge_def py_nth_def)
    qed
  next
    case False
    then have ne: "s \<noteq> []" "length s \<noteq> 1" by auto
    define solved where "solved = m(s \<mapsto> [])"
    have rec: "ensure_solved (pathStringDP eps (butlast points)) p solved = Inl IndexError"
      if "length p + 1 = length s" "set p \<subseteq> {CHR ''U'', CHR ''D''}" for p
    proof -
      have "p \<notin> dom solved" using that(1) less.prems(3) by (auto simp: solved_def)
      moreover have "\<forall>k. length k < length p \<longrightarrow> solved k = None"
        using that(1) less.prems(3) by (auto simp: solved_def)
      ultimately show ?thesis using less.hyps [of p "butlast points" solved] that less.prems(2)
        by (simp add: ensure_solved_def)
    qed
    have tl: "length (tl s) + 1 = length s" "set (tl s) \<subseteq> {CHR ''U'', CHR ''D''}"
      and bl: "length (butlast s) + 1 = length s" "set (butlast s) \<subseteq> {CHR ''U'', CHR ''D''}"
      using ne(1) less.prems(1) by (auto dest: list.set_sel(2) in_set_butlastD)
    have "s ! 0 \<in> set s" "last s \<in> set s" using ne(1) by (simp_all add: nth_mem)
    then have s0: "s ! 0 \<in> {CHR ''U'', CHR ''D''}" "last s \<in> {CHR ''U'', CHR ''D''}"
      using less.prems(1) by blast+
    show ?thesis
    proof (cases "hd s = CHR ''D''")
      case True
      then show ?thesis using ne rec [OF tl] by (simp add: pathStringDP.simps [of eps points s] solved_def)
    next
      case hU: False
      show ?thesis
      proof (cases "last s = CHR ''U''")
        case True
        then show ?thesis using ne hU rec [OF bl] by (simp add: pathStringDP.simps [of eps points s] solved_def)
      next
        case False
        have "s ! 0 = CHR ''U''" using hU s0 ne(1) by (auto simp: hd_conv_nth)
        then obtain i where i: "find_UD s 0 = Some i"
          using find_UD_exists [of s 0] False s0(2) ne(1) less.prems(1) by auto
        note f = find_UD_Some [OF i]
        have "length (collapse s i CHR ''U'') + 1 = length s" "set (collapse s i CHR ''U'') \<subseteq> {CHR ''U'', CHR ''D''}"
          using f less.prems(1) set_collapse [of s i "CHR ''U''"] by (auto simp: length_collapse)
        from rec [OF this] show ?thesis using ne hU False i
          by (simp add: pathStringDP.simps [of eps points s] solved_def)
      qed
    qed
  qed
qed

theorem pathStringDP_too_few_points_witness:
  "pathStringDP epsilon [Pt 0 0, Pt 2 1] ''UD'' Map.empty = Inl IndexError"
  using pathStringDP_too_few_points [of "''UD''" "[Pt 0 0, Pt 2 1]" "Map.empty" epsilon] by simp

end
