(* ===== verification/MemoTable.thy ===== *)
theory MemoTable
  imports PathStringDP
begin

text \<open>
  The memo table shared by the recursive calls of a path-string solver, against a
  memo-free reference \<open>ref\<close> (\<open>solutions\<close> for \<open>pathStringDP\<close> of
  src/CleanSolution.py, \<open>solutions_all\<close> for \<open>pathString\<close> of src/Solver.py). An entry
  is correct (\<open>entry_ok\<close>) when it maps a non-empty pattern \<open>k\<close> to the reference's
  result on the \<open>length k + 1\<close> lowest points of the session's point list \<open>P\<close> (spec,
  section 3: a key's length fixes its point subset). \<open>memo_ok ref eps P n m\<close> says every
  entry of \<open>m\<close> whose key has length at most \<open>n\<close> is correct; \<open>stage_ok\<close> is what
  holds between the statements of one call (the entry of the pattern itself is pending,
  longer keys are untouched); \<open>dp_spec\<close> is what a call promises. \<open>dp_block\<close> is one
  "ensure the sub-pattern is solved, then extend its paths" block of the two solvers,
  proved once for any recursive solver \<open>rec\<close> that keeps its promise on shorter patterns.
\<close>

definition entry_ok :: "(real \<Rightarrow> pt list \<Rightarrow> string \<Rightarrow> path list res) \<Rightarrow> real \<Rightarrow> pt list \<Rightarrow> string \<Rightarrow> path list \<Rightarrow> bool" where
  "entry_ok ref eps P k sols \<longleftrightarrow>
     k \<noteq> [] \<and> length k < length P \<and> ref eps (take (length k + 1) P) k = Inr sols"

definition memo_ok :: "(real \<Rightarrow> pt list \<Rightarrow> string \<Rightarrow> path list res) \<Rightarrow> real \<Rightarrow> pt list \<Rightarrow> nat \<Rightarrow> memo \<Rightarrow> bool" where
  "memo_ok ref eps P n m \<longleftrightarrow> (\<forall>k sols. length k \<le> n \<longrightarrow> m k = Some sols \<longrightarrow> entry_ok ref eps P k sols)"

definition dp_spec :: "(real \<Rightarrow> pt list \<Rightarrow> string \<Rightarrow> path list res) \<Rightarrow> real \<Rightarrow> pt list \<Rightarrow> string \<Rightarrow> memo \<Rightarrow> (memo \<times> 'r) res \<Rightarrow> bool" where
  "dp_spec ref eps P s m r \<longleftrightarrow>
     (\<exists>m' x sols. r = Inr (m', x) \<and> ref eps (take (length s + 1) P) s = Inr sols
        \<and> m' s = Some sols \<and> memo_ok ref eps P (length s) m' \<and> (\<forall>k. length s < length k \<longrightarrow> m' k = m k))"

definition stage_ok :: "(real \<Rightarrow> pt list \<Rightarrow> string \<Rightarrow> path list res) \<Rightarrow> real \<Rightarrow> pt list \<Rightarrow> string \<Rightarrow> memo \<Rightarrow> memo \<Rightarrow> bool" where
  "stage_ok ref eps P s m0 m \<longleftrightarrow> memo_ok ref eps P (length s) (m(s := None)) \<and> (\<forall>k. length s < length k \<longrightarrow> m k = m0 k)"

lemma ebind_Inr_right [simp]: "ebind r Inr = r"
  by (cases r) auto

lemma memo_ok_mono: "memo_ok ref eps P n m \<Longrightarrow> n' \<le> n \<Longrightarrow> memo_ok ref eps P n' m"
  by (auto simp: memo_ok_def)

lemma memo_ok_cong:
  "\<forall>k. length k \<le> n \<longrightarrow> m k = m' k \<Longrightarrow> memo_ok ref eps P n m = memo_ok ref eps P n m'"
  unfolding memo_ok_def by metis

lemma memo_ok_upd_long: "n < length k \<Longrightarrow> memo_ok ref eps P n (m(k := v)) = memo_ok ref eps P n m"
  by (rule memo_ok_cong) auto

lemma extend_into_collect:
  "m s = Some cur \<Longrightarrow> collect f ps = Inr qs \<Longrightarrow> extend_into f s ps m = Inr (m(s \<mapsto> cur @ qs))"
proof (induction ps arbitrary: m cur qs)
  case (Cons p ps)
  from Cons.prems(2) obtain r qs' where fp: "f p = Inr r" and cq: "collect f ps = Inr qs'"
    and qs: "qs = (case r of None \<Rightarrow> qs' | Some q \<Rightarrow> q # qs')"
    by (auto simp: ebind_eq_Inr)
  show ?case
  proof (cases r)
    case None
    with Cons.IH [where m = m and cur = cur, OF Cons.prems(1) cq] fp qs show ?thesis by simp
  next
    case (Some q)
    have "(m(s \<mapsto> cur @ [q])) s = Some (cur @ [q])" by simp
    from Cons.IH [where m = "m(s \<mapsto> cur @ [q])" and cur = "cur @ [q]", OF this cq]
    have IH': "extend_into f s ps (m(s \<mapsto> cur @ [q])) = Inr (m(s \<mapsto> cur @ q # qs'))"
      by (simp only: fun_upd_upd append_assoc append_Cons append_Nil)
    show ?thesis using fp qs Some Cons.prems(1) IH' by (simp add: dict_get_def fun_upd_def)
  qed
qed (auto simp: fun_upd_idem)

lemma dp_block:
  assumes st: "stage_ok ref eps P s m0 m1" and cur: "m1 s = Some cur"
    and lp: "length p + 1 = length s" "p \<noteq> []" "length s < length P"
    and IH: "\<And>m. memo_ok ref eps P (length p) (m(p := None)) \<Longrightarrow> dp_spec ref eps P p m (rec (take (length p + 1) P) p m)"
    and pts': "pts' = take (length p + 1) P"
    and S: "ref eps pts' p = Inr S" and col: "collect f S = Inr A"
  shows "\<exists>m2. ebind (ensure_solved (rec pts') p m1)
           (\<lambda>m. ebind (dict_get m p) (\<lambda>ps. ebind (extend_into f s ps m) K)) = K m2
         \<and> m2 s = Some (cur @ A) \<and> stage_ok ref eps P s m0 m2"
proof -
  note S = S [unfolded pts']
  from st have mo: "memo_ok ref eps P (length p) m1"
    using lp memo_ok_mono [of ref eps P "length s" "m1(s := None)" "length p"]
      memo_ok_upd_long [of "length p" s ref eps P m1 None]
    by (simp add: stage_ok_def)
  obtain m' where ens: "ensure_solved (rec (take (length p + 1) P)) p m1 = Inr m'"
    and mp: "m' p = Some S" and mo': "memo_ok ref eps P (length p) m'"
    and fr: "\<forall>k. length p < length k \<longrightarrow> m' k = m1 k"
  proof (cases "p \<in> dom m1")
    case True
    then obtain S' where "m1 p = Some S'" by auto
    with mo lp S have "m1 p = Some S" by (auto simp: memo_ok_def entry_ok_def)
    with True mo show ?thesis by (intro that [of m1]) (auto simp: ensure_solved_def)
  next
    case False
    then have "m1(p := None) = m1" by auto
    with mo IH [of m1] S obtain m' x where "rec (take (length p + 1) P) p m1 = Inr (m', x)"
      "m' p = Some S" "memo_ok ref eps P (length p) m'" "\<forall>k. length p < length k \<longrightarrow> m' k = m1 k"
      by (auto simp: dp_spec_def)
    with False show ?thesis by (intro that [of m']) (auto simp: ensure_solved_def)
  qed
  have ms: "m' s = Some cur" using fr cur lp by auto
  have st': "stage_ok ref eps P s m0 (m'(s \<mapsto> cur @ A))"
    unfolding stage_ok_def
  proof (intro conjI allI impI)
    show "memo_ok ref eps P (length s) ((m'(s \<mapsto> cur @ A))(s := None))"
      unfolding memo_ok_def
    proof (intro allI impI)
      fix k :: string and sols
      assume k: "length k \<le> length s" and e: "((m'(s \<mapsto> cur @ A))(s := None)) k = Some sols"
      then have ks: "k \<noteq> s" and m'k: "m' k = Some sols" by (auto split: if_splits)
      show "entry_ok ref eps P k sols"
      proof (cases "length k \<le> length p")
        case True
        with mo' m'k show ?thesis by (auto simp: memo_ok_def)
      next
        case False
        with fr m'k ks k st show ?thesis by (auto simp: stage_ok_def memo_ok_def)
      qed
    qed
    fix k :: string assume "length s < length k"
    with fr st lp show "(m'(s \<mapsto> cur @ A)) k = m0 k" by (auto simp: stage_ok_def)
  qed
  show ?thesis
    using ens mp ms st' extend_into_collect [where m = m' and cur = cur, OF ms col] pts'
    by (intro exI [of _ "m'(s \<mapsto> cur @ A)"]) (simp add: dict_get_def)
qed


lemma dp_block_last:
  assumes "stage_ok ref eps P s m0 m1" "m1 s = Some cur"
    "length p + 1 = length s" "p \<noteq> []" "length s < length P"
    "\<And>m. memo_ok ref eps P (length p) (m(p := None)) \<Longrightarrow> dp_spec ref eps P p m (rec (take (length p + 1) P) p m)"
    "pts' = take (length p + 1) P" "ref eps pts' p = Inr S" "collect f S = Inr A"
  shows "\<exists>m2. ebind (ensure_solved (rec pts') p m1)
           (\<lambda>m. ebind (dict_get m p) (\<lambda>ps. extend_into f s ps m)) = Inr m2
         \<and> m2 s = Some (cur @ A) \<and> stage_ok ref eps P s m0 m2"
  using dp_block [where rec = rec and ref = ref and K = Inr, OF assms] by simp

lemma stage_ok_init: "memo_ok ref eps P (length s) (m(s := None)) \<Longrightarrow> stage_ok ref eps P s m (m(s \<mapsto> []))"
  by (simp add: stage_ok_def)

lemma stage_ok_dp_spec:
  assumes "stage_ok ref eps P s m0 m" "m s = Some sols" "ref eps (take (length s + 1) P) s = Inr sols"
    "s \<noteq> []" "length s < length P"
  shows "dp_spec ref eps P s m0 (Inr (m, x))"
proof -
  have "memo_ok ref eps P (length s) m"
    unfolding memo_ok_def
  proof (intro allI impI)
    fix k :: string and ks assume "length k \<le> length s" "m k = Some ks"
    with assms show "entry_ok ref eps P k ks"
      by (cases "k = s") (auto simp: stage_ok_def memo_ok_def entry_ok_def)
  qed
  with assms show ?thesis by (auto simp: dp_spec_def stage_ok_def)
qed

end
