(* ===== verification/MemoDP.thy ===== *)
theory MemoDP
  imports MemoTable
begin

text \<open>
  The memo table of \<open>pathStringDP\<close> (src/CleanSolution.py, lines 147-316) against the
  memo-free reference \<open>solutions\<close>, by the block lemma of \<open>MemoTable\<close>. The main
  lemma, \<open>pathStringDP_dp_spec\<close>, is by induction on the pattern length.
\<close>

lemma pathStringDP_dp_spec:
  "s \<noteq> [] \<Longrightarrow> length s < length P \<Longrightarrow> memo_ok solutions eps P (length s) (m(s := None))
   \<Longrightarrow> dp_spec solutions eps P s m (pathStringDP eps (take (length s + 1) P) s m)"
proof (induction "length s" arbitrary: s m rule: less_induct)
  case less
  define points where "points = take (length s + 1) P"
  have lp: "length points = length s + 1" using less.prems(2) by (simp add: points_def)
  have IH: "\<And>m'. memo_ok solutions eps P (length p) (m'(p := None))
      \<Longrightarrow> dp_spec solutions eps P p m' (pathStringDP eps (take (length p + 1) P) p m')"
    if "length p + 1 = length s" "p \<noteq> []" for p
    using less.hyps [of p] that less.prems(2) by auto
  have bp: "butlast points = take (length p + 1) P" if "length p + 1 = length s" for p :: string
    using that less.prems(2) by (simp add: points_def butlast_take)
  obtain sols where sols: "solutions eps points s = Inr sols"
    using solutions_total [OF less.prems(1) lp] by blast
  have st0: "stage_ok solutions eps P s m (m(s \<mapsto> []))"
    using less.prems(3) by (rule stage_ok_init)
  show ?case
  proof (cases "length s = 1")
    case True
    from sols obtain e where e: "base_edge points s = Inr e" and se: "sols = [[e]]"
      by (auto simp: solutions.simps [of eps points s] True ebind_eq_Inr)
    have run: "pathStringDP eps points s m = Inr ((m(s \<mapsto> []))(s \<mapsto> [[e]]), None)"
      by (simp add: pathStringDP.simps [of eps points s m] True e)
    have "stage_ok solutions eps P s m ((m(s \<mapsto> []))(s \<mapsto> [[e]]))"
      using st0 by (simp add: stage_ok_def)
    with run sols se less.prems(1,2) show ?thesis
      unfolding points_def by (auto intro: stage_ok_dp_spec)
  next
    case False
    have "length s \<noteq> 0" using less.prems(1) by simp
    with False have two: "2 \<le> length s" by linarith
    obtain A B C where sABC: "sols = A @ B @ C"
      and A: "if hd s = CHR ''D'' then \<exists>S. solutions eps (butlast points) (tl s) = Inr S
           \<and> collect (caseI_ext eps points) S = Inr A else A = []"
      and B: "if last s = CHR ''U'' then \<exists>S. solutions eps (butlast points) (butlast s) = Inr S
           \<and> collect (caseII_ext eps points) S = Inr B else B = []"
      and C: "case find_UD s 0 of None \<Rightarrow> C = []
         | Some i \<Rightarrow> \<exists>S1 C1 S2 C2. solutions eps (butlast points) (collapse s i CHR ''U'') = Inr S1
             \<and> collect (caseIII_ext eps points i) S1 = Inr C1
             \<and> solutions eps (butlast points) (collapse s i CHR ''D'') = Inr S2
             \<and> collect (caseIII_ext eps points i) S2 = Inr C2 \<and> C = C1 @ C2"
      using solutions_InrE [OF sols False less.prems(1)] by blast
    have lt: "length (tl s) + 1 = length s" "tl s \<noteq> []" "length (butlast s) + 1 = length s" "butlast s \<noteq> []"
      using two by (auto simp: tl_Nil simp flip: length_0_conv)
    obtain m2 where m2: "(if hd s = CHR ''D'' then
           ebind (ensure_solved (pathStringDP eps (butlast points)) (tl s) (m(s \<mapsto> []))) (\<lambda>solved1.
           ebind (dict_get solved1 (tl s)) (\<lambda>partialsolutions.
             extend_into (caseI_ext eps points) s partialsolutions solved1))
         else Inr (m(s \<mapsto> []))) = Inr m2" and m2s: "m2 s = Some A" and st2: "stage_ok solutions eps P s m m2"
    proof (cases "hd s = CHR ''D''")
      case True
      with A obtain S where "solutions eps (butlast points) (tl s) = Inr S"
          "collect (caseI_ext eps points) S = Inr A" by auto
      from dp_block_last [where rec = "pathStringDP eps", OF st0 _ lt(1,2) less.prems(2) IH [OF lt(1,2)] bp [OF lt(1)] this]
      show ?thesis using True that by auto
    qed (use A st0 that in auto)
    obtain m3 where m3: "(if last s = CHR ''U'' then
           ebind (ensure_solved (pathStringDP eps (butlast points)) (butlast s) m2) (\<lambda>solved3.
           ebind (dict_get solved3 (butlast s)) (\<lambda>partialsolutions.
             extend_into (caseII_ext eps points) s partialsolutions solved3))
         else Inr m2) = Inr m3" and m3s: "m3 s = Some (A @ B)" and st3: "stage_ok solutions eps P s m m3"
    proof (cases "last s = CHR ''U''")
      case True
      with B obtain S where "solutions eps (butlast points) (butlast s) = Inr S"
          "collect (caseII_ext eps points) S = Inr B" by auto
      from dp_block_last [where rec = "pathStringDP eps", OF st2 m2s lt(3,4) less.prems(2) IH [OF lt(3,4)] bp [OF lt(3)] this]
      show ?thesis using True that by auto
    qed (use B m2s st2 that in auto)
    obtain m4 r where m4: "(case find_UD s 0 of
          None \<Rightarrow> Inr (m3, None)
        | Some i \<Rightarrow>
           ebind (ensure_solved (pathStringDP eps (butlast points)) (collapse s i CHR ''U'') m3) (\<lambda>solved5.
           ebind (dict_get solved5 (collapse s i CHR ''U'')) (\<lambda>partialSolutions1.
           ebind (extend_into (caseIII_ext eps points i) s partialSolutions1 solved5) (\<lambda>solved6.
           ebind (ensure_solved (pathStringDP eps (butlast points)) (collapse s i CHR ''D'') solved6) (\<lambda>solved7.
           ebind (dict_get solved7 (collapse s i CHR ''D'')) (\<lambda>partialSolutions2.
           ebind (extend_into (caseIII_ext eps points i) s partialSolutions2 solved7) (\<lambda>solved8.
             Inr (solved8, Some solved8))))))))
        = Inr (m4, r)" and m4s: "m4 s = Some (A @ B @ C)" and st4: "stage_ok solutions eps P s m m4"
    proof (cases "find_UD s 0")
      case (Some i)
      then have i: "i + 1 < length s" by (auto dest: find_UD_Some)
      have lc: "length (collapse s i c) + 1 = length s" "collapse s i c \<noteq> []" for c
        using i by (auto simp: length_collapse collapse_def)
      from C Some obtain S1 C1 S2 C2 where
          S1: "solutions eps (butlast points) (collapse s i CHR ''U'') = Inr S1"
          and C1: "collect (caseIII_ext eps points i) S1 = Inr C1"
          and S2: "solutions eps (butlast points) (collapse s i CHR ''D'') = Inr S2"
          and C2: "collect (caseIII_ext eps points i) S2 = Inr C2" and CC: "C = C1 @ C2"
        by auto
      obtain m6 where b1: "ebind (ensure_solved (pathStringDP eps (butlast points)) (collapse s i CHR ''U'') m3)
           (\<lambda>solved5. ebind (dict_get solved5 (collapse s i CHR ''U'')) (\<lambda>partialSolutions1.
           ebind (extend_into (caseIII_ext eps points i) s partialSolutions1 solved5) (\<lambda>solved6.
           ebind (ensure_solved (pathStringDP eps (butlast points)) (collapse s i CHR ''D'') solved6) (\<lambda>solved7.
           ebind (dict_get solved7 (collapse s i CHR ''D'')) (\<lambda>partialSolutions2.
           ebind (extend_into (caseIII_ext eps points i) s partialSolutions2 solved7) (\<lambda>solved8.
             Inr (solved8, Some solved8)))))))
        = ebind (ensure_solved (pathStringDP eps (butlast points)) (collapse s i CHR ''D'') m6) (\<lambda>solved7.
           ebind (dict_get solved7 (collapse s i CHR ''D'')) (\<lambda>partialSolutions2.
           ebind (extend_into (caseIII_ext eps points i) s partialSolutions2 solved7) (\<lambda>solved8.
             Inr (solved8, Some solved8))))"
        and m6s: "m6 s = Some (A @ B @ C1)" and st6: "stage_ok solutions eps P s m m6"
        using dp_block [where rec = "pathStringDP eps", OF st3 m3s lc less.prems(2) IH [OF lc] bp [OF lc(1)] S1 C1] by auto
      obtain m8 where b2: "ebind (ensure_solved (pathStringDP eps (butlast points)) (collapse s i CHR ''D'') m6) (\<lambda>solved7.
           ebind (dict_get solved7 (collapse s i CHR ''D'')) (\<lambda>partialSolutions2.
           ebind (extend_into (caseIII_ext eps points i) s partialSolutions2 solved7) (\<lambda>solved8.
             Inr (solved8, Some solved8)))) = Inr (m8, Some m8)"
        and m8s: "m8 s = Some ((A @ B @ C1) @ C2)" and st8: "stage_ok solutions eps P s m m8"
        using dp_block [where rec = "pathStringDP eps", OF st6 m6s lc less.prems(2) IH [OF lc] bp [OF lc(1)] S2 C2] by auto
      show ?thesis using Some b1 b2 m8s st8 CC by (intro that [of m8 "Some m8"]) auto
    qed (use C m3s st3 that in auto)
    have "pathStringDP eps points s m = Inr (m4, r)"
      unfolding pathStringDP.simps [of eps points s m] Let_def if_not_P [OF False]
        if_not_P [OF less.prems(1)] m2 ebind_Inr m3 m4 ..
    with m4s st4 sols sABC less.prems(1,2) show ?thesis
      unfolding points_def by (auto intro: stage_ok_dp_spec)
  qed
qed

subsection \<open>The solver computes the reference and stores only solutions\<close>

text \<open>
  The example point set of the spec (section 8): \<open>(0,0), (2,1), (1,2)\<close>, already sorted
  by height. \<open>dp_eval_simps\<close> are the equations that let \<open>simp\<close> run the solver on it.
\<close>

definition ex3 :: "pt list" where
  "ex3 = [Pt 0 0, Pt 2 1, Pt 1 2]"

lemmas dp_eval_simps = pathStringDP.simps ensure_solved_def base_edge_def find_UD.simps
  collapse_def caseI_ext_def caseII_ext_def caseIII_ext_def intersect_def orientation_def
  signedArea_def epsilon_def dict_get_def py_nth_def py_last_def Let_def

text \<open>
  C1: on any memo table whose entries for patterns no longer than \<open>s\<close> (other than
  \<open>s\<close> itself) are correct, \<open>pathStringDP\<close> returns without an exception, stores under
  \<open>s\<close> exactly what the memo-free recursion \<open>solutions\<close> computes on the
  \<open>length s + 1\<close> lowest points, keeps every entry up to that length correct, and leaves
  the entries of longer patterns untouched. A fresh table (\<open>Map.empty\<close>) satisfies the
  hypothesis, and so does a table shared across a batch of patterns of one length.
\<close>

theorem pathStringDP_refines:
  assumes "s \<noteq> []" "length s < length P" "memo_ok solutions eps P (length s) (m(s := None))"
  shows "\<exists>m' r sols. pathStringDP eps (take (length s + 1) P) s m = Inr (m', r)
           \<and> solutions eps (take (length s + 1) P) s = Inr sols \<and> m' s = Some sols
           \<and> memo_ok solutions eps P (length s) m' \<and> (\<forall>k. length s < length k \<longrightarrow> m' k = m k)"
  using pathStringDP_dp_spec [OF assms] by (auto simp: dp_spec_def)

theorem pathStringDP_refines_witness:
  "''UD'' \<noteq> [] \<and> length ''UD'' < length ex3 \<and> memo_ok solutions epsilon ex3 (length ''UD'') (Map.empty(''UD'' := None))
   \<and> (\<exists>m' r sols. pathStringDP epsilon (take (length ''UD'' + 1) ex3) ''UD'' Map.empty = Inr (m', r)
       \<and> solutions epsilon (take (length ''UD'' + 1) ex3) ''UD'' = Inr sols \<and> m' ''UD'' = Some sols
       \<and> memo_ok solutions epsilon ex3 (length ''UD'') m' \<and> (\<forall>k. length ''UD'' < length k \<longrightarrow> m' k = Map.empty k))"
proof -
  have h: "''UD'' \<noteq> []" "length ''UD'' < length ex3" "memo_ok solutions epsilon ex3 (length ''UD'') (Map.empty(''UD'' := None))"
    by (simp_all add: ex3_def memo_ok_def)
  show ?thesis using h pathStringDP_refines [OF h] by blast
qed

text \<open>
  C2: every path the solver stores for a pattern over \<open>{U, D}\<close>, on points sorted
  strictly by height, is a solution: it has one edge per letter, consecutive edges share
  their endpoint, it visits each of the \<open>length s + 1\<close> lowest points exactly once, its
  up/down profile is the pattern, and no two non-consecutive edges \<open>intersect\<close>.
\<close>

theorem pathStringDP_sound:
  assumes "heights_sorted P" "set s \<subseteq> {CHR ''U'', CHR ''D''}" "s \<noteq> []" "length s < length P"
    and "memo_ok solutions eps P (length s) (m(s := None))"
    and "pathStringDP eps (take (length s + 1) P) s m = Inr (m', r)" "m' s = Some sols" "p \<in> set sols"
  shows "path_ok eps (take (length s + 1) P) s p"
proof -
  from pathStringDP_dp_spec [OF assms(3,4,5)] assms(6,7)
  have "solutions eps (take (length s + 1) P) s = Inr sols" by (auto simp: dp_spec_def)
  moreover have "length (take (length s + 1) P) = length s + 1" using assms(4) by simp
  ultimately show ?thesis
    using solutions_paths_ok heights_sorted_take [OF assms(1)] assms(2,8) by blast
qed

definition ex3_memo :: memo where
  "ex3_memo = [''U'' \<mapsto> [[LineSegment (Pt 0 0) (Pt 2 1)]], ''D'' \<mapsto> [[LineSegment (Pt 2 1) (Pt 0 0)]],
     ''UD'' \<mapsto> [[LineSegment (Pt 0 0) (Pt 1 2), LineSegment (Pt 1 2) (Pt 2 1)],
                [LineSegment (Pt 2 1) (Pt 1 2), LineSegment (Pt 1 2) (Pt 0 0)]]]"

lemma ex3_run: "pathStringDP epsilon ex3 ''UD'' Map.empty = Inr (ex3_memo, Some ex3_memo)"
  by (simp add: ex3_def ex3_memo_def dp_eval_simps)

theorem pathStringDP_sound_witness:
  "heights_sorted ex3 \<and> set ''UD'' \<subseteq> {CHR ''U'', CHR ''D''} \<and> ''UD'' \<noteq> [] \<and> length ''UD'' < length ex3
   \<and> memo_ok solutions epsilon ex3 (length ''UD'') (Map.empty(''UD'' := None))
   \<and> pathStringDP epsilon (take (length ''UD'' + 1) ex3) ''UD'' Map.empty = Inr (ex3_memo, Some ex3_memo)
   \<and> ex3_memo ''UD'' = Some [[LineSegment (Pt 0 0) (Pt 1 2), LineSegment (Pt 1 2) (Pt 2 1)],
                [LineSegment (Pt 2 1) (Pt 1 2), LineSegment (Pt 1 2) (Pt 0 0)]]
   \<and> path_ok epsilon (take (length ''UD'' + 1) ex3) ''UD'' [LineSegment (Pt 0 0) (Pt 1 2), LineSegment (Pt 1 2) (Pt 2 1)]"
proof -
  have h: "heights_sorted ex3" "set ''UD'' \<subseteq> {CHR ''U'', CHR ''D''}" "''UD'' \<noteq> []" "length ''UD'' < length ex3"
    "memo_ok solutions epsilon ex3 (length ''UD'') (Map.empty(''UD'' := None))"
    "pathStringDP epsilon (take (length ''UD'' + 1) ex3) ''UD'' Map.empty = Inr (ex3_memo, Some ex3_memo)"
    "ex3_memo ''UD'' = Some [[LineSegment (Pt 0 0) (Pt 1 2), LineSegment (Pt 1 2) (Pt 2 1)],
                [LineSegment (Pt 2 1) (Pt 1 2), LineSegment (Pt 1 2) (Pt 0 0)]]"
    using ex3_run by (simp_all add: ex3_def heights_sorted_def memo_ok_def ex3_memo_def)
  show ?thesis using h pathStringDP_sound [OF h] by simp
qed

text \<open>
  The spec's three-point example (section 8), run: the solver stores exactly two paths
  for \<open>"UD"\<close>, the path \<open>(0,0) \<rightarrow> (1,2) \<rightarrow> (2,1)\<close> and its reverse, and both are
  solutions. The spec says the pattern has exactly one solution; the code counts the two
  directions of the same polyline as two paths (both from Case III, one through each
  collapse \<open>"U"\<close> and \<open>"D"\<close> of the \<open>"UD"\<close>).
\<close>

lemma ex3_UD_two_solutions:
  "\<exists>m p1 p2. pathStringDP epsilon ex3 ''UD'' Map.empty = Inr (m, Some m) \<and> m ''UD'' = Some [p1, p2]
     \<and> p1 \<noteq> p2 \<and> p2 = rev (map rev_seg p1)
     \<and> path_ok epsilon ex3 ''UD'' p1 \<and> path_ok epsilon ex3 ''UD'' p2"
proof -
  have "path_ok epsilon ex3 ''UD'' [LineSegment (Pt 0 0) (Pt 1 2), LineSegment (Pt 1 2) (Pt 2 1)]"
    "path_ok epsilon ex3 ''UD'' [LineSegment (Pt 2 1) (Pt 1 2), LineSegment (Pt 1 2) (Pt 0 0)]"
    by (simp_all add: path_ok_def ex3_def vertices_def dir_def add_mset_commute)
  then show ?thesis using ex3_run by (simp add: ex3_memo_def rev_seg_def)
qed

end
