(* ===== verification/Session.thy ===== *)
theory Session
  imports MemoDP
begin

text \<open>
  A session of the solver: one memo dict shared by a sequence of calls of
  \<open>pathStringDP\<close> on the same points, as the batch drivers share \<open>solved\<close> across all
  patterns. \<open>dp_session eps P m\<close> says \<open>m\<close> is reachable from the empty dict by calls on
  non-empty patterns shorter than the point list (each on its \<open>length s + 1\<close> lowest
  points). The invariant \<open>table_ok\<close> (every entry is the memo-free reference's result)
  holds in every reachable dict, by rule induction.
\<close>

inductive dp_session :: "real \<Rightarrow> pt list \<Rightarrow> memo \<Rightarrow> bool" for eps P where
  start: "dp_session eps P Map.empty"
| step: "dp_session eps P m \<Longrightarrow> s \<noteq> [] \<Longrightarrow> length s < length P
    \<Longrightarrow> pathStringDP eps (take (length s + 1) P) s m = Inr (m', r) \<Longrightarrow> dp_session eps P m'"

definition table_ok :: "real \<Rightarrow> pt list \<Rightarrow> memo \<Rightarrow> bool" where
  "table_ok eps P m \<longleftrightarrow> (\<forall>k sols. m k = Some sols \<longrightarrow> entry_ok solutions eps P k sols)"

lemma table_ok_memo_ok: "table_ok eps P m \<Longrightarrow> memo_ok solutions eps P n (m(s := None))"
  by (auto simp: table_ok_def memo_ok_def)

text \<open>One call keeps the invariant: shorter keys are correct by the refinement, longer ones untouched.\<close>

lemma table_ok_step:
  assumes ok: "table_ok eps P m" and s: "s \<noteq> []" "length s < length P"
    and run: "pathStringDP eps (take (length s + 1) P) s m = Inr (m', r)"
  shows "table_ok eps P m'"
proof -
  from pathStringDP_dp_spec [OF s table_ok_memo_ok [OF ok]] run
  have mo: "memo_ok solutions eps P (length s) m'" and fr: "\<forall>k. length s < length k \<longrightarrow> m' k = m k"
    by (auto simp: dp_spec_def)
  show ?thesis unfolding table_ok_def
  proof (intro allI impI)
    fix k sols assume e: "m' k = Some sols"
    show "entry_ok solutions eps P k sols"
    proof (cases "length k \<le> length s")
      case True
      with mo e show ?thesis by (auto simp: memo_ok_def)
    next
      case False
      with fr e ok show ?thesis by (auto simp: table_ok_def)
    qed
  qed
qed

lemma dp_session_table_ok: "dp_session eps P m \<Longrightarrow> table_ok eps P m"
proof (induction rule: dp_session.induct)
  case start
  show ?case by (simp add: table_ok_def)
next
  case (step m s m' r)
  from step.IH step.hyps(2,3,4) show ?case by (rule table_ok_step)
qed

text \<open>
  C24: every dict reachable in a session holds, under each key, exactly the
  reference's solutions for that pattern on its \<open>length k + 1\<close> lowest points.
\<close>

theorem session_invariant:
  assumes "dp_session eps P m" "m k = Some sols"
  shows "k \<noteq> [] \<and> length k < length P \<and> solutions eps (take (length k + 1) P) k = Inr sols"
  using dp_session_table_ok [OF assms(1)] assms(2) by (auto simp: table_ok_def entry_ok_def)

lemma ex3_session: "dp_session epsilon ex3 ex3_memo"
proof (rule dp_session.step [OF dp_session.start])
  have t: "take (length ''UD'' + 1) ex3 = ex3" by (simp add: ex3_def)
  show "''UD'' \<noteq> []" "length ''UD'' < length ex3" by (simp_all add: ex3_def)
  show "pathStringDP epsilon (take (length ''UD'' + 1) ex3) ''UD'' Map.empty = Inr (ex3_memo, Some ex3_memo)"
    unfolding t by (rule ex3_run)
qed

theorem session_invariant_witness:
  "''UD'' \<noteq> [] \<and> length ''UD'' < length ex3
   \<and> solutions epsilon (take (length ''UD'' + 1) ex3) ''UD'' = Inr (the (ex3_memo ''UD''))"
proof -
  have "ex3_memo ''UD'' = Some (the (ex3_memo ''UD''))" by (simp add: ex3_memo_def)
  from session_invariant [OF ex3_session this] show ?thesis .
qed

end
