(* ===== verification/PartialOrderings.thy ===== *)
theory PartialOrderings
  imports PathStringDP
begin

text \<open>
  The counting oracle of src/PartialOrderings.py. \<open>partialOrderings\<close> follows the three
  cases of the solver but adds counts instead of building paths, and visits every
  \<open>"UD"\<close> of the pattern (its loop has no early return). Its memo dict first receives the
  placeholder \<open>[]\<close> (line 6) and then the count, so a memo value is \<open>PEmpty\<close> or
  \<open>PCount n\<close>; adding a placeholder to a count is Python's \<open>TypeError\<close>. The
  \<open>for i\<close> loop of lines 20-31 is \<open>po_loop\<close>, mutually recursive with the function.
  \<open>po_count\<close> is the memo-free reference.
\<close>

datatype po_val = PEmpty | PCount nat

type_synonym po_memo = "string \<rightharpoonup> po_val"

text \<open>\<open>count += solved[partial]\<close> (the variable \<open>count\<close> is \<open>cnt\<close> here).\<close>

definition py_add :: "nat \<Rightarrow> po_val \<Rightarrow> nat res" where
  "py_add cnt v = (case v of PEmpty \<Rightarrow> Inl TypeError | PCount n \<Rightarrow> Inr (cnt + n))"

function partialOrderings :: "string \<Rightarrow> po_memo \<Rightarrow> (po_memo \<times> nat option) res"
  and po_loop :: "string \<Rightarrow> nat \<Rightarrow> nat \<Rightarrow> po_memo \<Rightarrow> (nat \<times> po_memo) res" where
  "partialOrderings string solved0 =
    (let solved = solved0(string \<mapsto> PEmpty) in
     if length string = 1 then Inr (solved(string \<mapsto> PCount 1), None)
     else if string = [] then Inl IndexError
     else
       ebind (if hd string = CHR ''D'' then
           ebind (ensure_solved partialOrderings (tl string) solved) (\<lambda>solved1.
           ebind (dict_get solved1 (tl string)) (\<lambda>v.
           ebind (py_add 0 v) (\<lambda>cnt. Inr (cnt, solved1))))
         else Inr (0, solved)) (\<lambda>(cnt1, solved2).
       ebind (if last string = CHR ''U'' then
           ebind (ensure_solved partialOrderings (butlast string) solved2) (\<lambda>solved3.
           ebind (dict_get solved3 (butlast string)) (\<lambda>v.
           ebind (py_add cnt1 v) (\<lambda>cnt. Inr (cnt, solved3))))
         else Inr (cnt1, solved2)) (\<lambda>(cnt2, solved4).
       ebind (po_loop string 0 cnt2 solved4) (\<lambda>(cnt3, solved5).
         Inr (solved5(string \<mapsto> PCount cnt3), Some cnt3)))))"
| "po_loop string i cnt solved =
    (if i + 1 < length string then
       (if string ! i = CHR ''U'' \<and> string ! (i + 1) = CHR ''D'' then
          ebind (ensure_solved partialOrderings (collapse string i CHR ''U'') solved) (\<lambda>solved1.
          ebind (dict_get solved1 (collapse string i CHR ''U'')) (\<lambda>v1.
          ebind (py_add cnt v1) (\<lambda>cnt1.
          ebind (ensure_solved partialOrderings (collapse string i CHR ''D'') solved1) (\<lambda>solved2.
          ebind (dict_get solved2 (collapse string i CHR ''D'')) (\<lambda>v2.
          ebind (py_add cnt1 v2) (\<lambda>cnt2.
            po_loop string (i + 1) cnt2 solved2))))))
        else po_loop string (i + 1) cnt solved)
     else Inr (cnt, solved))"
  by pat_completeness auto
termination
  by (relation "measures
       [\<lambda>x. case x of Inl (s, m) \<Rightarrow> length s | Inr (s, i, c, m) \<Rightarrow> length s,
        \<lambda>x. case x of Inl (s, m) \<Rightarrow> Suc (length s) | Inr (s, i, c, m) \<Rightarrow> length s - i]")
     (auto simp: length_collapse)

declare partialOrderings.simps [simp del] po_loop.simps [simp del]

subsection \<open>The reference count\<close>

function po_count :: "string \<Rightarrow> nat" where
  "po_count s =
    (if length s = 1 then 1
     else if s = [] then 0
     else (if hd s = CHR ''D'' then po_count (tl s) else 0)
        + (if last s = CHR ''U'' then po_count (butlast s) else 0)
        + sum_list (map (\<lambda>i. if s ! i = CHR ''U'' \<and> s ! (i + 1) = CHR ''D''
                              then po_count (collapse s i CHR ''U'') + po_count (collapse s i CHR ''D'')
                              else 0) [0..<length s - 1]))"
  by pat_completeness auto
termination
  by (relation "measure length") (auto simp: length_collapse)

declare po_count.simps [simp del]

subsection \<open>The memo table against the reference count\<close>

text \<open>
  \<open>ud_term s i\<close> is the contribution of position \<open>i\<close> to the loop of lines 20-31;
  \<open>po_memo_ok n m\<close> says every entry of a key of length at most \<open>n\<close> is the
  reference count; \<open>po_stage\<close> holds between the statements of one call (the
  placeholder of the pattern is stored, longer keys are untouched); \<open>po_spec\<close> is what
  a call promises.
\<close>

definition ud_term :: "string \<Rightarrow> nat \<Rightarrow> nat" where
  "ud_term s i = (if s ! i = CHR ''U'' \<and> s ! (i + 1) = CHR ''D''
                  then po_count (collapse s i CHR ''U'') + po_count (collapse s i CHR ''D'') else 0)"

definition po_memo_ok :: "nat \<Rightarrow> po_memo \<Rightarrow> bool" where
  "po_memo_ok n m \<longleftrightarrow> (\<forall>k v. length k \<le> n \<longrightarrow> m k = Some v \<longrightarrow> k \<noteq> [] \<and> v = PCount (po_count k))"

definition po_stage :: "string \<Rightarrow> po_memo \<Rightarrow> po_memo \<Rightarrow> bool" where
  "po_stage s m0 m \<longleftrightarrow> po_memo_ok (length s) (m(s := None)) \<and> (\<forall>k. length s < length k \<longrightarrow> m k = m0 k)
     \<and> m s = Some PEmpty"

definition po_spec :: "string \<Rightarrow> po_memo \<Rightarrow> (po_memo \<times> nat option) res \<Rightarrow> bool" where
  "po_spec s m r \<longleftrightarrow> (\<exists>m'. r = Inr (m', if length s = 1 then None else Some (po_count s)) \<and> m' s = Some (PCount (po_count s))
     \<and> po_memo_ok (length s) m' \<and> (\<forall>k. length s < length k \<longrightarrow> m' k = m k))"

lemma po_count_step:
  "length s \<noteq> 1 \<Longrightarrow> s \<noteq> [] \<Longrightarrow> po_count s =
     (if hd s = CHR ''D'' then po_count (tl s) else 0)
     + (if last s = CHR ''U'' then po_count (butlast s) else 0)
     + sum_list (map (ud_term s) [0..<length s - 1])"
  by (simp add: po_count.simps [of s] ud_term_def [abs_def])

lemma po_memo_ok_cong:
  "\<forall>k. length k \<le> n \<longrightarrow> m k = m' k \<Longrightarrow> po_memo_ok n m = po_memo_ok n m'"
  unfolding po_memo_ok_def by metis

lemma po_memo_ok_mono: "po_memo_ok n m \<Longrightarrow> n' \<le> n \<Longrightarrow> po_memo_ok n' m"
  by (auto simp: po_memo_ok_def)

lemma po_block:
  assumes st: "po_stage s m0 m1" and lp: "length p + 1 = length s" "p \<noteq> []"
    and IH: "\<And>m. po_memo_ok (length p) (m(p := None)) \<Longrightarrow> po_spec p m (partialOrderings p m)"
  shows "\<exists>m2. ebind (ensure_solved partialOrderings p m1) (\<lambda>m. ebind (dict_get m p) (\<lambda>v.
           ebind (py_add c v) (\<lambda>c'. K c' m))) = K (c + po_count p) m2 \<and> po_stage s m0 m2"
proof -
  have "po_memo_ok (length p) (m1(s := None))"
    using st lp by (auto simp: po_stage_def intro: po_memo_ok_mono)
  moreover have "po_memo_ok (length p) (m1(s := None)) = po_memo_ok (length p) m1"
    by (rule po_memo_ok_cong) (use lp in auto)
  ultimately have mo: "po_memo_ok (length p) m1" by simp
  obtain m' where ens: "ensure_solved partialOrderings p m1 = Inr m'"
    and mp: "m' p = Some (PCount (po_count p))" and mo': "po_memo_ok (length p) m'"
    and fr: "\<forall>k. length p < length k \<longrightarrow> m' k = m1 k"
  proof (cases "p \<in> dom m1")
    case True
    with mo lp show ?thesis by (intro that [of m1]) (auto simp: ensure_solved_def po_memo_ok_def)
  next
    case False
    then have "m1(p := None) = m1" by auto
    with mo IH [of m1] obtain m' x where "partialOrderings p m1 = Inr (m', x)"
      "m' p = Some (PCount (po_count p))" "po_memo_ok (length p) m'" "\<forall>k. length p < length k \<longrightarrow> m' k = m1 k"
      by (auto simp: po_spec_def)
    with False show ?thesis by (intro that [of m']) (auto simp: ensure_solved_def)
  qed
  have st': "po_stage s m0 m'"
    unfolding po_stage_def
  proof (intro conjI allI impI)
    show "po_memo_ok (length s) (m'(s := None))"
      unfolding po_memo_ok_def
    proof (intro allI impI)
      fix k :: string and v
      assume k: "length k \<le> length s" and e: "(m'(s := None)) k = Some v"
      then have ks: "k \<noteq> s" and m'k: "m' k = Some v" by (auto split: if_splits)
      show "k \<noteq> [] \<and> v = PCount (po_count k)"
      proof (cases "length k \<le> length p")
        case True
        with mo' m'k show ?thesis by (auto simp: po_memo_ok_def)
      next
        case False
        with fr m'k ks k st lp show ?thesis by (auto simp: po_stage_def po_memo_ok_def)
      qed
    qed
  next
    fix k :: string assume "length s < length k"
    with fr st lp show "m' k = m0 k" by (auto simp: po_stage_def)
  next
    show "m' s = Some PEmpty" using fr st lp by (auto simp: po_stage_def)
  qed
  show ?thesis using ens mp st' by (intro exI [of _ m']) (simp add: dict_get_def py_add_def)
qed


lemma po_loop_ok:
  assumes "po_stage s m0 m"
    and IH: "\<And>p m'. length p + 1 = length s \<Longrightarrow> p \<noteq> [] \<Longrightarrow> po_memo_ok (length p) (m'(p := None))
               \<Longrightarrow> po_spec p m' (partialOrderings p m')"
  shows "\<exists>m'. po_loop s i c m = Inr (c + sum_list (map (ud_term s) [i..<length s - 1]), m') \<and> po_stage s m0 m'"
  using assms(1)
proof (induction "length s - i" arbitrary: i c m rule: less_induct)
  case less
  show ?case
  proof (cases "i + 1 < length s")
    case False
    then show ?thesis using less.prems by (simp add: po_loop.simps [of s i c m])
  next
    case True
    have up: "[i..<length s - Suc 0] = i # [Suc i..<length s - Suc 0]" using True by (simp add: upt_conv_Cons)
    have lc: "length (collapse s i cc) + 1 = length s" "collapse s i cc \<noteq> []" for cc
      using True by (auto simp: length_collapse collapse_def)
    have rec: "\<exists>m'. po_loop s (i + 1) c' m2 = Inr (c' + sum_list (map (ud_term s) [Suc i..<length s - 1]), m')
                 \<and> po_stage s m0 m'" if "po_stage s m0 m2" for c' m2
      using less.hyps [of "i + 1"] True that by simp
    show ?thesis
    proof (cases "s ! i = CHR ''U'' \<and> s ! (i + 1) = CHR ''D''")
      case UD: True
      obtain m1 where b1: "ebind (ensure_solved partialOrderings (collapse s i CHR ''U'') m)
          (\<lambda>solved1. ebind (dict_get solved1 (collapse s i CHR ''U'')) (\<lambda>v1. ebind (py_add c v1) (\<lambda>cnt1.
          ebind (ensure_solved partialOrderings (collapse s i CHR ''D'') solved1) (\<lambda>solved2.
          ebind (dict_get solved2 (collapse s i CHR ''D'')) (\<lambda>v2. ebind (py_add cnt1 v2) (\<lambda>cnt2.
            po_loop s (i + 1) cnt2 solved2))))))
        = ebind (ensure_solved partialOrderings (collapse s i CHR ''D'') m1) (\<lambda>solved2.
          ebind (dict_get solved2 (collapse s i CHR ''D'')) (\<lambda>v2.
          ebind (py_add (c + po_count (collapse s i CHR ''U'')) v2) (\<lambda>cnt2. po_loop s (i + 1) cnt2 solved2)))"
        and st1: "po_stage s m0 m1"
        using po_block [OF less.prems lc IH [OF lc], where c = c and K = "\<lambda>cnt1 solved1.
          ebind (ensure_solved partialOrderings (collapse s i CHR ''D'') solved1) (\<lambda>solved2.
          ebind (dict_get solved2 (collapse s i CHR ''D'')) (\<lambda>v2. ebind (py_add cnt1 v2) (\<lambda>cnt2.
            po_loop s (i + 1) cnt2 solved2)))"]
        by blast
      obtain m2 where b2: "ebind (ensure_solved partialOrderings (collapse s i CHR ''D'') m1) (\<lambda>solved2.
          ebind (dict_get solved2 (collapse s i CHR ''D'')) (\<lambda>v2.
          ebind (py_add (c + po_count (collapse s i CHR ''U'')) v2) (\<lambda>cnt2. po_loop s (i + 1) cnt2 solved2)))
        = po_loop s (i + 1) (c + po_count (collapse s i CHR ''U'') + po_count (collapse s i CHR ''D'')) m2"
        and st2: "po_stage s m0 m2"
        using po_block [OF st1 lc IH [OF lc], where c = "c + po_count (collapse s i CHR ''U'')"
          and K = "\<lambda>cnt2 solved2. po_loop s (i + 1) cnt2 solved2"]
        by blast
      obtain m3 where r3: "po_loop s (i + 1) (c + po_count (collapse s i CHR ''U'') + po_count (collapse s i CHR ''D'')) m2
          = Inr (c + po_count (collapse s i CHR ''U'') + po_count (collapse s i CHR ''D'')
                 + sum_list (map (ud_term s) [Suc i..<length s - 1]), m3)"
        and st3: "po_stage s m0 m3"
        using rec [OF st2] by blast
      have "po_loop s i c m = Inr (c + sum_list (map (ud_term s) [i..<length s - 1]), m3)"
        unfolding po_loop.simps [of s i c m] if_P [OF True] if_P [OF UD] b1 b2 r3
        using UD by (simp add: up ud_term_def add.assoc)
      with st3 show ?thesis by blast
    next
      case False
      have "po_loop s i c m = po_loop s (i + 1) c m"
        unfolding po_loop.simps [of s i c m] if_P [OF True] if_not_P [OF False] ..
      moreover have "ud_term s i = 0" unfolding ud_term_def using False by (rule if_not_P)
      ultimately show ?thesis using rec [OF less.prems, of c] by (simp add: up)
    qed
  qed
qed


lemma po_stage_step:
  assumes st: "po_stage s m0 m1"
    and lp: "length p + 1 = length s" "p \<noteq> []"
    and IH: "\<And>m. po_memo_ok (length p) (m(p := None)) \<Longrightarrow> po_spec p m (partialOrderings p m)"
  shows "\<exists>m2. (if b then ebind (ensure_solved partialOrderings p m1) (\<lambda>solved1.
             ebind (dict_get solved1 p) (\<lambda>v. ebind (py_add c v) (\<lambda>cnt. Inr (cnt, solved1))))
           else Inr (c, m1)) = Inr (c + (if b then po_count p else 0), m2) \<and> po_stage s m0 m2"
proof (cases b)
  case True
  show ?thesis
    using po_block [OF st lp IH, where c = c and K = "\<lambda>c m. Inr (c, m)"] True
    by simp
qed (use st in simp)

lemma po_memo_ok_store:
  assumes "po_stage s m0 m" "s \<noteq> []"
  shows "po_memo_ok (length s) (m(s \<mapsto> PCount (po_count s)))"
  using assms unfolding po_stage_def po_memo_ok_def
  by (metis fun_upd_apply option.inject)

lemma partialOrderings_po_spec:
  "s \<noteq> [] \<Longrightarrow> po_memo_ok (length s) (m(s := None)) \<Longrightarrow> po_spec s m (partialOrderings s m)"
proof (induction "length s" arbitrary: s m rule: less_induct)
  case less
  have IH: "\<And>p m'. length p + 1 = length s \<Longrightarrow> p \<noteq> [] \<Longrightarrow> po_memo_ok (length p) (m'(p := None))
               \<Longrightarrow> po_spec p m' (partialOrderings p m')"
    using less.hyps by simp
  show ?case
  proof (cases "length s = 1")
    case True
    have "partialOrderings s m = Inr ((m(s \<mapsto> PEmpty))(s \<mapsto> PCount 1), None)"
      unfolding partialOrderings.simps [of s m] Let_def if_P [OF True] ..
    moreover have "po_count s = 1" using True by (simp add: po_count.simps [of s])
    ultimately show ?thesis using less.prems True unfolding po_spec_def po_memo_ok_def
      by (auto split: if_splits)
  next
    case len: False
    define m1 where "m1 = m(s \<mapsto> PEmpty)"
    have st1: "po_stage s m m1" using less.prems by (simp add: po_stage_def m1_def)
    have ne: "s \<noteq> []" using less.prems by simp
    with len have two: "2 \<le> length s" by (cases s) (auto simp: Suc_le_eq)
    then have tl1: "length (tl s) + 1 = length s" and tl2: "tl s \<noteq> []"
      and bl1: "length (butlast s) + 1 = length s" and bl2: "butlast s \<noteq> []"
      by (auto simp: Suc_le_eq simp flip: length_greater_0_conv)
    obtain m2 where A: "(if hd s = CHR ''D'' then
           ebind (ensure_solved partialOrderings (tl s) m1) (\<lambda>solved1.
           ebind (dict_get solved1 (tl s)) (\<lambda>v. ebind (py_add 0 v) (\<lambda>cnt. Inr (cnt, solved1))))
         else Inr (0, m1)) = Inr (0 + (if hd s = CHR ''D'' then po_count (tl s) else 0), m2)"
      and st2: "po_stage s m m2"
      using po_stage_step [OF st1 tl1 tl2 IH [OF tl1 tl2], where b = "hd s = CHR ''D''" and c = 0]
      by blast
    define c1 where "c1 = 0 + (if hd s = CHR ''D'' then po_count (tl s) else 0)"
    obtain m3 where B: "(if last s = CHR ''U'' then
           ebind (ensure_solved partialOrderings (butlast s) m2) (\<lambda>solved3.
           ebind (dict_get solved3 (butlast s)) (\<lambda>v. ebind (py_add c1 v) (\<lambda>cnt. Inr (cnt, solved3))))
         else Inr (c1, m2)) = Inr (c1 + (if last s = CHR ''U'' then po_count (butlast s) else 0), m3)"
      and st3: "po_stage s m m3"
      using po_stage_step [OF st2 bl1 bl2 IH [OF bl1 bl2], where b = "last s = CHR ''U''" and c = c1]
      by blast
    define c2 where "c2 = c1 + (if last s = CHR ''U'' then po_count (butlast s) else 0)"
    obtain m4 where C: "po_loop s 0 c2 m3 = Inr (c2 + sum_list (map (ud_term s) [0..<length s - 1]), m4)"
      and st4: "po_stage s m m4"
      using po_loop_ok [OF st3 IH] by blast
    have cnt: "c2 + sum_list (map (ud_term s) [0..<length s - 1]) = po_count s"
      using po_count_step [OF len ne] by (simp add: c1_def c2_def)
    have "partialOrderings s m = Inr (m4(s \<mapsto> PCount (po_count s)), Some (po_count s))"
      unfolding partialOrderings.simps [of s m] Let_def if_not_P [OF len] if_not_P [OF ne]
        m1_def [symmetric] A ebind_Inr prod.case c1_def [symmetric] B c2_def [symmetric] C cnt ..
    then show ?thesis
      using po_memo_ok_store [OF st4 ne] st4 len unfolding po_spec_def po_stage_def by simp
  qed
qed


lemma length_collect: "collect f ps = Inr qs \<Longrightarrow> length qs \<le> length ps"
proof (induction ps arbitrary: qs)
  case (Cons p ps)
  then show ?case by (fastforce simp: ebind_eq_Inr split: option.splits)
qed simp

lemma ud_term_le_sum:
  "find_UD s 0 = Some i \<Longrightarrow> ud_term s i \<le> sum_list (map (ud_term s) [0..<length s - 1])"
  by (rule member_le_sum_list) (auto dest: find_UD_Some)

lemma ud_term_found:
  "find_UD s 0 = Some i \<Longrightarrow> ud_term s i = po_count (collapse s i CHR ''U'') + po_count (collapse s i CHR ''D'')"
  by (auto simp: ud_term_def dest: find_UD_Some)

lemma solutions_length_le:
  "solutions eps points s = Inr sols \<Longrightarrow> length sols \<le> po_count s"
proof (induction "length s" arbitrary: s points sols rule: less_induct)
  case less
  show ?case
  proof (cases "length s = 1")
    case True
    with less.prems show ?thesis
      by (auto simp: solutions.simps [of eps points s] po_count.simps [of s] ebind_eq_Inr)
  next
    case False
    have ne: "s \<noteq> []" using less.prems by (auto simp: solutions.simps [of eps points s])
    have rec: "length S \<le> po_count s'" if "solutions eps (butlast points) s' = Inr S" "length s' < length s"
      for s' S using less.hyps [OF that(2) that(1)] .
    obtain A B C where sols: "sols = A @ B @ C"
      and A: "if hd s = CHR ''D'' then \<exists>S. solutions eps (butlast points) (tl s) = Inr S
           \<and> collect (caseI_ext eps points) S = Inr A else A = []"
      and B: "if last s = CHR ''U'' then \<exists>S. solutions eps (butlast points) (butlast s) = Inr S
           \<and> collect (caseII_ext eps points) S = Inr B else B = []"
      and C: "case find_UD s 0 of None \<Rightarrow> C = []
         | Some i \<Rightarrow> \<exists>S1 C1 S2 C2. solutions eps (butlast points) (collapse s i CHR ''U'') = Inr S1
             \<and> collect (caseIII_ext eps points i) S1 = Inr C1
             \<and> solutions eps (butlast points) (collapse s i CHR ''D'') = Inr S2
             \<and> collect (caseIII_ext eps points i) S2 = Inr C2 \<and> C = C1 @ C2"
      using solutions_InrE [OF less.prems False ne] by blast
    have lA: "length A \<le> (if hd s = CHR ''D'' then po_count (tl s) else 0)"
      using A ne by (auto dest!: length_collect rec split: if_splits)
    have lB: "length B \<le> (if last s = CHR ''U'' then po_count (butlast s) else 0)"
      using B ne by (auto dest!: length_collect rec split: if_splits)
    have lC: "length C \<le> sum_list (map (ud_term s) [0..<length s - 1])"
    proof (cases "find_UD s 0")
      case (Some i)
      then have i: "i + 1 < length s" by (auto dest: find_UD_Some)
      with Some C obtain S1 C1 S2 C2 where
        "solutions eps (butlast points) (collapse s i CHR ''U'') = Inr S1"
        "collect (caseIII_ext eps points i) S1 = Inr C1"
        "solutions eps (butlast points) (collapse s i CHR ''D'') = Inr S2"
        "collect (caseIII_ext eps points i) S2 = Inr C2" "C = C1 @ C2"
        by auto
      with i have "length C \<le> po_count (collapse s i CHR ''U'') + po_count (collapse s i CHR ''D'')"
        by (auto dest!: length_collect rec simp: length_collapse)
      then show ?thesis using ud_term_le_sum [OF Some] ud_term_found [OF Some] by simp
    qed (use C in simp)
    show ?thesis
      using lA lB lC po_count_step [OF False ne] sols by simp
  qed
qed

subsection \<open>The oracle computes the reference count\<close>

text \<open>
  C6: on a memo dict whose entries for patterns no longer than \<open>s\<close> (other than \<open>s\<close>
  itself) hold the reference count, \<open>partialOrderings\<close> raises no exception, stores
  \<open>po_count s\<close> under \<open>s\<close>, returns it (Python's \<open>None\<close> in the base case of a single
  letter), keeps every entry up to that length correct, and leaves longer keys alone. In
  particular the placeholder \<open>[]\<close> is never added to a count.
\<close>

theorem partialOrderings_refines:
  assumes "s \<noteq> []" "po_memo_ok (length s) (m(s := None))"
  shows "\<exists>m'. partialOrderings s m = Inr (m', if length s = 1 then None else Some (po_count s))
           \<and> m' s = Some (PCount (po_count s)) \<and> po_memo_ok (length s) m'
           \<and> (\<forall>k. length s < length k \<longrightarrow> m' k = m k)"
  using partialOrderings_po_spec [OF assms] by (simp add: po_spec_def)

theorem partialOrderings_refines_witness:
  "''UDU'' \<noteq> [] \<and> po_memo_ok (length ''UDU'') (Map.empty(''UDU'' := None))
   \<and> (\<exists>m'. partialOrderings ''UDU'' Map.empty
          = Inr (m', if length ''UDU'' = 1 then None else Some (po_count ''UDU''))
        \<and> m' ''UDU'' = Some (PCount (po_count ''UDU'')) \<and> po_memo_ok (length ''UDU'') m'
        \<and> (\<forall>k. length ''UDU'' < length k \<longrightarrow> m' k = Map.empty k))"
proof -
  have h: "''UDU'' \<noteq> []" "po_memo_ok (length ''UDU'') (Map.empty(''UDU'' := None))"
    by (simp_all add: po_memo_ok_def)
  show ?thesis using h partialOrderings_refines [OF h] by blast
qed

end
