(* ===== verification/Driver.thy ===== *)
theory Driver
  imports MemoDP
begin

text \<open>
  The wrapper \<open>pathStringDPWrapper\<close> and the batch drivers \<open>generateAllPathStrings\<close> and
  \<open>nonIntersectingPaths\<close> of src/CleanSolution.py (lines 318-409; \<open>bunchOfTrials\<close>, lines 358-394, is in \<open>Trials\<close>). The wrapper sorts the
  points in place unless told they are in order and returns what \<open>pathStringDP\<close>
  returns. The drivers enumerate all \<open>2^(n-1)\<close> patterns of length \<open>n - 1\<close> in binary
  order (\<open>"{0:b}".format(i)\<close>, padded with \<open>0\<close>, then \<open>0 \<mapsto> U\<close>, \<open>1 \<mapsto> D\<close>), share one
  memo dict across all of them, and subscript the wrapper's return value with the
  pattern. The point set is a parameter (its random generation is not modelled); the
  file written by \<open>generateAllPathStrings\<close> is the list of its rows.
\<close>

text \<open>Python's \<open>ret[key]\<close> on the wrapper's return value: \<open>None[key]\<close> is a \<open>TypeError\<close>.\<close>

definition subscript_ret :: "memo option \<Rightarrow> string \<Rightarrow> path list res" where
  "subscript_ret r k = (case r of None \<Rightarrow> Inl TypeError | Some d \<Rightarrow> dict_get d k)"

text \<open>
  The result carries the (possibly sorted) point list, since \<open>points.sort\<close> mutates the
  caller's list, the memo dict, and the return value.
\<close>

definition pathStringDPWrapper ::
  "real \<Rightarrow> pt list \<Rightarrow> string \<Rightarrow> memo \<Rightarrow> bool \<Rightarrow> (pt list \<times> memo \<times> memo option) res" where
  "pathStringDPWrapper eps points string solved inOrder =
     (let points = (if inOrder then points else sort_key pt_y points)
      in ebind (pathStringDP eps points string solved) (\<lambda>(solved', sols). Inr (points, solved', sols)))"

text \<open>\<open>"{0:b}".format(i)\<close>: the binary digits of \<open>i\<close>, most significant first.\<close>

fun bin_of :: "nat \<Rightarrow> string" where
  "bin_of n = (if n < 2 then [if n = 0 then CHR ''0'' else CHR ''1'']
               else bin_of (n div 2) @ [if n mod 2 = 0 then CHR ''0'' else CHR ''1''])"

declare bin_of.simps [simp del]

text \<open>The pattern of iteration \<open>i\<close> (lines 350-353, 377-380, 404-407).\<close>

definition pattern_of :: "nat \<Rightarrow> nat \<Rightarrow> string" where
  "pattern_of n i =
     (let string = bin_of i;
          string = replicate (n - 1 - length string) CHR ''0'' @ string;
          string = map (\<lambda>c. if c = CHR ''0'' then CHR ''U'' else c) string
      in map (\<lambda>c. if c = CHR ''1'' then CHR ''D'' else c) string)"

text \<open>\<open>range(int(math.pow(2, n - 1)))\<close>: empty for \<open>n = 0\<close>, where the power is \<open>0.5\<close>.\<close>

definition pattern_range :: "nat \<Rightarrow> nat list" where
  "pattern_range n = [0..<(if n = 0 then 0 else 2 ^ (n - 1))]"

text \<open>The loop of \<open>generateAllPathStrings\<close> (lines 347-355); a row is a line of the file.\<close>

fun gen_loop :: "real \<Rightarrow> pt list \<Rightarrow> nat \<Rightarrow> nat list \<Rightarrow> memo \<Rightarrow> (string \<times> nat) list
                   \<Rightarrow> (memo \<times> (string \<times> nat) list) res" where
  "gen_loop eps points n [] solved rows = Inr (solved, rows)"
| "gen_loop eps points n (i # is) solved rows =
     (let string = pattern_of n i in
      ebind (pathStringDPWrapper eps points string solved True) (\<lambda>(points', solved', ret).
      ebind (subscript_ret ret string) (\<lambda>sols.
        gen_loop eps points' n is solved' (rows @ [(string, length sols)]))))"

definition generateAllPathStrings :: "real \<Rightarrow> nat \<Rightarrow> pt list \<Rightarrow> (string \<times> nat) list res" where
  "generateAllPathStrings eps n points =
     (let points = sort_key pt_y points
      in ebind (gen_loop eps points n (pattern_range n) Map.empty []) (\<lambda>(solved, rows). Inr rows))"

text \<open>The loop of \<open>nonIntersectingPaths\<close> (lines 403-408); its variable \<open>total\<close> is \<open>tot\<close>.\<close>

fun nip_loop :: "real \<Rightarrow> pt list \<Rightarrow> nat \<Rightarrow> nat list \<Rightarrow> memo \<Rightarrow> nat \<Rightarrow> nat res" where
  "nip_loop eps points n [] solved tot = Inr tot"
| "nip_loop eps points n (i # is) solved tot =
     (let string = pattern_of n i in
      ebind (pathStringDPWrapper eps points string solved True) (\<lambda>(points', solved', ret).
      ebind (subscript_ret ret string) (\<lambda>sols.
        nip_loop eps points' n is solved' (tot + length sols))))"

definition nonIntersectingPaths :: "real \<Rightarrow> nat \<Rightarrow> pt list \<Rightarrow> nat res" where
  "nonIntersectingPaths eps n points =
     (let points = sort_key pt_y points in nip_loop eps points n (pattern_range n) Map.empty 0)"

subsection \<open>The return value of the solver\<close>

text \<open>
  \<open>pathStringDP\<close> returns the dict only where it runs \<open>return solved\<close>: on a pattern of
  length at least 2 that contains \<open>"UD"\<close>.
\<close>

lemma pathStringDP_ret:
  "pathStringDP eps pts s m = Inr (m', x) \<Longrightarrow>
   x = (if length s \<noteq> 1 \<and> find_UD s 0 \<noteq> None then Some m' else None)"
  by (auto simp: pathStringDP.simps [of eps pts s m] ebind_eq_Inr Let_def split: if_splits option.splits)

lemma find_UD_replicate_U: "find_UD (replicate k CHR ''U'') j = None"
proof (induction "replicate k CHR ''U''" j rule: find_UD.induct)
  case (1 j)
  then show ?case by (simp add: find_UD.simps [of _ j])
qed

lemma bin_of_0: "bin_of 0 = ''0''"
  by (simp add: bin_of.simps)

lemma pattern_of_0: "2 \<le> n \<Longrightarrow> pattern_of n 0 = replicate (n - 1) CHR ''U''"
proof -
  assume "2 \<le> n"
  then obtain k where "n = Suc (Suc k)" by (metis add_2_eq_Suc le_Suc_ex)
  then show ?thesis by (simp add: pattern_of_def bin_of_0 replicate_append_same)
qed

lemma pattern_range_Cons: "1 \<le> n \<Longrightarrow> pattern_range n = 0 # [1..<2 ^ (n - 1)]"
  by (simp add: pattern_range_def upt_conv_Cons)

text \<open>On the all-\<open>U\<close> pattern, with enough points, the solver returns \<open>None\<close>.\<close>

lemma pathStringDP_all_U:
  assumes "2 \<le> length pts"
  shows "\<exists>m'. pathStringDP eps pts (replicate (length pts - 1) CHR ''U'') Map.empty = Inr (m', None)"
proof -
  define s where "s = replicate (length pts - 1) CHR ''U''"
  have s: "s \<noteq> []" "length s < length pts" "take (length s + 1) pts = pts"
    using assms by (auto simp: s_def)
  have "memo_ok solutions eps pts (length s) (Map.empty(s := None))" by (simp add: memo_ok_def)
  from pathStringDP_dp_spec [OF s(1,2) this] s(3) obtain m' x
    where r: "pathStringDP eps pts s Map.empty = Inr (m', x)" by (auto simp: dp_spec_def)
  with pathStringDP_ret [OF r] show ?thesis
    by (simp add: s_def find_UD_replicate_U)
qed

subsection \<open>The drivers fail on their first pattern\<close>

text \<open>
  C8: for every point set of \<open>n \<ge> 2\<close> points, \<open>generateAllPathStrings\<close> and
  \<open>nonIntersectingPaths\<close> raise \<open>TypeError\<close>: their first pattern is \<open>"UU...U"\<close>, on
  which \<open>pathStringDP\<close> returns \<open>None\<close> (it has no \<open>"UD"\<close>, or is the base case), and
  \<open>pathStringDPWrapper(...)[string]\<close> subscripts it.
\<close>

theorem drivers_raise_TypeError:
  assumes "2 \<le> n" "length points = n"
  shows "generateAllPathStrings eps n points = Inl TypeError \<and> nonIntersectingPaths eps n points = Inl TypeError"
proof -
  define pts where "pts = sort_key pt_y points"
  have len: "length pts = n" using assms(2) by (simp add: pts_def)
  then have pat: "pattern_of n 0 = replicate (length pts - 1) CHR ''U''"
    using pattern_of_0 [OF assms(1)] by simp
  obtain m' where "pathStringDP eps pts (replicate (length pts - 1) CHR ''U'') Map.empty = Inr (m', None)"
    using pathStringDP_all_U [of pts eps] assms len by auto
  then have w: "pathStringDPWrapper eps pts (pattern_of n 0) Map.empty True = Inr (pts, m', None)"
    by (simp add: pathStringDPWrapper_def pat)
  show ?thesis
    using w assms(1)
    by (simp add: generateAllPathStrings_def nonIntersectingPaths_def pattern_range_Cons subscript_ret_def
        Let_def flip: pts_def)
qed

theorem drivers_raise_TypeError_witness:
  "2 \<le> (2::nat) \<and> length [Pt 0 0, Pt 1 1] = 2
   \<and> generateAllPathStrings epsilon 2 [Pt 0 0, Pt 1 1] = Inl TypeError
   \<and> nonIntersectingPaths epsilon 2 [Pt 0 0, Pt 1 1] = Inl TypeError"
  using drivers_raise_TypeError [of 2 "[Pt 0 0, Pt 1 1]" epsilon] by simp

end
