(* ===== verification/Enumeration.thy ===== *)
theory Enumeration
  imports Driver
begin

text \<open>
  The pattern enumeration of the batch drivers (\<open>pattern_of\<close>, \<open>pattern_range\<close>) read
  back as numbers. \<open>bin_val\<close> is the value of a string of binary digits, \<open>pat_val\<close> that
  of a pattern read with \<open>U = 0\<close> and \<open>D = 1\<close>, most significant letter first. Both are
  specification functions: the sources only encode.
\<close>

definition bit_val :: "char \<Rightarrow> nat" where
  "bit_val c = (if c = CHR ''1'' then 1 else 0)"

primrec bin_val :: "string \<Rightarrow> nat" where
  "bin_val [] = 0"
| "bin_val (c # s) = bit_val c * 2 ^ length s + bin_val s"

primrec pat_val :: "string \<Rightarrow> nat" where
  "pat_val [] = 0"
| "pat_val (c # s) = (if c = CHR ''D'' then 2 ^ length s else 0) + pat_val s"

text \<open>The letter map of the drivers: \<open>replace("0", "U")\<close>, then \<open>replace("1", "D")\<close>.\<close>

definition ud_of :: "char \<Rightarrow> char" where
  "ud_of c = (let c = (if c = CHR ''0'' then CHR ''U'' else c) in if c = CHR ''1'' then CHR ''D'' else c)"

lemma bin_val_snoc: "bin_val (s @ [c]) = 2 * bin_val s + bit_val c"
  by (induction s) (simp_all add: algebra_simps)

lemma bin_val_zeros [simp]: "bin_val (replicate k CHR ''0'' @ s) = bin_val s"
  by (induction k) (simp_all add: bit_val_def)

lemma bin_of_digits: "set (bin_of i) \<subseteq> {CHR ''0'', CHR ''1''}"
proof (induction i rule: bin_of.induct)
  case (1 i)
  then show ?case by (subst bin_of.simps) auto
qed

lemma bin_val_bin_of: "bin_val (bin_of i) = i"
proof (induction i rule: bin_of.induct)
  case (1 i)
  show ?case
  proof (cases "i < 2")
    case True
    then have "i = 0 \<or> i = 1" by auto
    then show ?thesis by (auto simp: bin_of.simps [of 0] bin_of.simps [of "Suc 0"] bit_val_def)
  next
    case False
    have b: "bit_val (if i mod 2 = 0 then CHR ''0'' else CHR ''1'') = i mod 2"
      by (cases "even i") (auto simp: bit_val_def odd_iff_mod_2_eq_one)
    have "bin_val (bin_of i) = 2 * (i div 2) + i mod 2"
      using 1 False unfolding bin_of.simps [of i] if_not_P [OF False] bin_val_snoc b by simp
    then show ?thesis by simp
  qed
qed

lemma length_bin_of: "i < 2 ^ k \<Longrightarrow> 1 \<le> k \<Longrightarrow> length (bin_of i) \<le> k"
proof (induction i arbitrary: k rule: bin_of.induct)
  case (1 i)
  show ?case
  proof (cases "i < 2")
    case True
    with "1.prems" show ?thesis by (simp add: bin_of.simps [of i])
  next
    case False
    then obtain k' where k: "k = Suc k'" "1 \<le> k'"
      using "1.prems" by (cases k) (auto simp: not_less, cases "k - 1", auto)
    have "i div 2 < 2 ^ k'" using "1.prems"(1) k(1) by simp
    with "1.IH" False k show ?thesis by (simp add: bin_of.simps [of i])
  qed
qed

lemma pat_val_map_ud_of: "set s \<subseteq> {CHR ''0'', CHR ''1''} \<Longrightarrow> pat_val (map ud_of s) = bin_val s"
  by (induction s) (auto simp: ud_of_def bit_val_def)

lemma pattern_of_ud_of: "pattern_of n i = map ud_of (replicate (n - 1 - length (bin_of i)) CHR ''0'' @ bin_of i)"
  by (simp add: pattern_of_def ud_of_def Let_def)

lemma pat_val_less: "pat_val s < 2 ^ length s"
  by (induction s) auto

lemma pat_val_inj:
  "length s = length t \<Longrightarrow> set s \<subseteq> {CHR ''U'', CHR ''D''} \<Longrightarrow> set t \<subseteq> {CHR ''U'', CHR ''D''}
   \<Longrightarrow> pat_val s = pat_val t \<Longrightarrow> s = t"
proof (induction s arbitrary: t)
  case (Cons c s)
  then obtain d t' where t: "t = d # t'" by (cases t) auto
  have l: "length t' = length s" using Cons.prems(1) t by simp
  have "pat_val s < 2 ^ length s" "pat_val t' < 2 ^ length s" using pat_val_less l by metis+
  with Cons.prems t l have cd: "c = d" and v: "pat_val s = pat_val t'"
    by (auto split: if_splits)
  with Cons.IH [OF l [symmetric] _ _ v] Cons.prems t show ?case by auto
qed simp

lemma ud_of_digits: "set xs \<subseteq> {CHR ''0'', CHR ''1''} \<Longrightarrow> set (map ud_of xs) \<subseteq> {CHR ''U'', CHR ''D''}"
  by (induction xs) (auto simp: ud_of_def)

lemma padded_digits:
  "set (replicate k CHR ''0'' @ bin_of i) \<subseteq> {CHR ''0'', CHR ''1''}"
  using bin_of_digits [of i] by auto

text \<open>Below \<open>2 ^ (n - 1)\<close> the pattern of iteration \<open>i\<close> has \<open>n - 1\<close> letters over \<open>{U, D}\<close> and reads back as \<open>i\<close>.\<close>

lemma pattern_of_props:
  assumes "2 \<le> n" "i < 2 ^ (n - 1)"
  shows "length (pattern_of n i) = n - 1" "set (pattern_of n i) \<subseteq> {CHR ''U'', CHR ''D''}"
    "pat_val (pattern_of n i) = i"
proof -
  have "length (bin_of i) \<le> n - 1" using length_bin_of [OF assms(2)] assms(1) by simp
  then show "length (pattern_of n i) = n - 1" by (simp add: pattern_of_ud_of)
  show "set (pattern_of n i) \<subseteq> {CHR ''U'', CHR ''D''}"
    unfolding pattern_of_ud_of by (rule ud_of_digits [OF padded_digits])
  show "pat_val (pattern_of n i) = i"
    unfolding pattern_of_ud_of pat_val_map_ud_of [OF padded_digits] by (simp add: bin_val_bin_of)
qed

lemma pattern_of_pat_val:
  assumes "2 \<le> n" "length s = n - 1" "set s \<subseteq> {CHR ''U'', CHR ''D''}"
  shows "pat_val s < 2 ^ (n - 1)" "pattern_of n (pat_val s) = s"
proof -
  show lt: "pat_val s < 2 ^ (n - 1)" using pat_val_less [of s] assms(2) by simp
  show "pattern_of n (pat_val s) = s"
    using pat_val_inj [of "pattern_of n (pat_val s)" s] pattern_of_props [OF assms(1) lt] assms(2,3) by simp
qed

lemma pattern_range_upt: "1 \<le> n \<Longrightarrow> pattern_range n = [0..<2 ^ (n - 1)]"
  by (simp add: pattern_range_def)

lemma patterns_enumerated:
  assumes "2 \<le> n"
  shows "distinct (map (pattern_of n) (pattern_range n))
       \<and> set (map (pattern_of n) (pattern_range n)) = {s. length s = n - 1 \<and> set s \<subseteq> {CHR ''U'', CHR ''D''}}"
proof
  have r: "pattern_range n = [0..<2 ^ (n - 1)]" using assms by (simp add: pattern_range_upt)
  have "inj_on (pattern_of n) {0..<2 ^ (n - 1)}"
    by (rule inj_on_inverseI [where g = pat_val]) (simp add: pattern_of_props(3) [OF assms])
  then show "distinct (map (pattern_of n) (pattern_range n))" by (simp add: r distinct_map)
  show "set (map (pattern_of n) (pattern_range n)) = {s. length s = n - 1 \<and> set s \<subseteq> {CHR ''U'', CHR ''D''}}"
  proof (intro equalityI subsetI)
    fix s assume "s \<in> set (map (pattern_of n) (pattern_range n))"
    then obtain i where "i < 2 ^ (n - 1)" "s = pattern_of n i" by (auto simp: r)
    then show "s \<in> {s. length s = n - 1 \<and> set s \<subseteq> {CHR ''U'', CHR ''D''}}"
      using pattern_of_props [OF assms] by simp
  next
    fix s assume "s \<in> {s. length s = n - 1 \<and> set s \<subseteq> {CHR ''U'', CHR ''D''}}"
    then have "length s = n - 1" "set s \<subseteq> {CHR ''U'', CHR ''D''}" by auto
    from pattern_of_pat_val [OF assms this] show "s \<in> set (map (pattern_of n) (pattern_range n))"
      by (auto simp: r image_iff intro: bexI [of _ "pat_val s"])
  qed
qed

subsection \<open>The drivers try every pattern once\<close>

text \<open>
  C19: the drivers' encoding of iteration \<open>i\<close> as a pattern (\<open>"{0:b}".format(i)\<close>,
  zero-padded to \<open>n - 1\<close> digits, \<open>0 \<mapsto> U\<close>, \<open>1 \<mapsto> D\<close>) round-trips for \<open>n \<ge> 2\<close>: every
  \<open>i < 2 ^ (n - 1)\<close> reads back from its pattern, and every pattern of \<open>n - 1\<close> letters over
  \<open>{U, D}\<close> is the pattern of its own value.
\<close>

theorem pattern_of_roundtrip:
  assumes "2 \<le> n"
  shows "(\<forall>i < 2 ^ (n - 1). pat_val (pattern_of n i) = i)
       \<and> (\<forall>s. length s = n - 1 \<longrightarrow> set s \<subseteq> {CHR ''U'', CHR ''D''} \<longrightarrow> pattern_of n (pat_val s) = s)"
  using pattern_of_props(3) [OF assms] pattern_of_pat_val(2) [OF assms] by blast

theorem pattern_of_roundtrip_witness:
  "pat_val (pattern_of 3 2) = 2 \<and> pattern_of 3 (pat_val ''DU'') = ''DU''"
proof -
  have "2 \<le> (3::nat)" by simp
  note r = pattern_of_roundtrip [OF this]
  have "(2::nat) < 2 ^ (3 - 1)" "length ''DU'' = 3 - 1" "set ''DU'' \<subseteq> {CHR ''U'', CHR ''D''}" by simp_all
  with r show ?thesis by blast
qed

text \<open>
  C20: for \<open>n \<ge> 2\<close> points the loop of \<open>generateAllPathStrings\<close> and
  \<open>nonIntersectingPaths\<close> (and of \<open>bunchOfTrials\<close>, which has the same code) visits
  each of the \<open>2 ^ (n - 1)\<close> patterns of \<open>n - 1\<close> letters over \<open>{U, D}\<close> exactly once.
\<close>

theorem drivers_enumerate_patterns:
  assumes "2 \<le> n"
  shows "distinct (map (pattern_of n) (pattern_range n))
       \<and> set (map (pattern_of n) (pattern_range n)) = {s. length s = n - 1 \<and> set s \<subseteq> {CHR ''U'', CHR ''D''}}"
  using patterns_enumerated [OF assms] .

theorem drivers_enumerate_patterns_witness:
  "distinct (map (pattern_of 3) (pattern_range 3))
   \<and> set (map (pattern_of 3) (pattern_range 3)) = {s. length s = 2 \<and> set s \<subseteq> {CHR ''U'', CHR ''D''}}"
  using drivers_enumerate_patterns [of 3] by simp

end
