(* ===== verification/ConvexHull.thy ===== *)
theory ConvexHull
  imports Geometry
begin

text \<open>
  The Graham scan \<open>convexHull\<close> of src/CleanSolution.py (lines 425-453). The pivot
  \<open>bottom\<close> is the first point of least height (or \<open>points[0]\<close> when the caller says
  the list is sorted); the other points are sorted by the key
  \<open>-(p.x - bottom.x) / (p.y - bottom.y)\<close>, which raises \<open>ZeroDivisionError\<close> when a
  point has the pivot's height; the scan keeps a stack and pops while the top three points
  do not turn strictly left. The stack is a list with its top first (the Python list
  reversed), so \<open>stack.pop()\<close> is taking the head and raises \<open>IndexError\<close> on the empty
  list. The pop loop removes one element per round, so it is structural recursion on the
  stack. \<open>Pt\<close> has no \<open>__eq__\<close>, so \<open>points.remove(bottom)\<close> removes that object;
  the model removes the first point equal to it, which is the same position because no
  earlier point can have the pivot's coordinates (it would have been chosen instead).
\<close>

text \<open>The inline turn test of lines 444 and 448.\<close>

definition turn :: "pt \<Rightarrow> pt \<Rightarrow> pt \<Rightarrow> real" where
  "turn p1 p2 p3 = (pt_x p2 - pt_x p1) * (pt_y p3 - pt_y p1) - (pt_y p2 - pt_y p1) * (pt_x p3 - pt_x p1)"

text \<open>Lines 430-434: the first point of least height.\<close>

definition hull_bottom :: "pt list \<Rightarrow> bool \<Rightarrow> pt" where
  "hull_bottom points sortedByY =
     (if sortedByY then points ! 0
      else foldl (\<lambda>bottom p. if pt_y p < pt_y bottom then p else bottom) (points ! 0) (drop 1 points))"

text \<open>Line 436: the sort key, with Python's division by zero.\<close>

definition slope_key :: "pt \<Rightarrow> pt \<Rightarrow> real" where
  "slope_key bottom p = -1 * (pt_x p - pt_x bottom) / (pt_y p - pt_y bottom)"

definition sort_by_slope :: "pt \<Rightarrow> pt list \<Rightarrow> pt list res" where
  "sort_by_slope bottom points =
     (if list_ex (\<lambda>p. pt_y p = pt_y bottom) points then Inl ZeroDivisionError
      else Inr (sort_key (slope_key bottom) points))"

text \<open>
  Lines 445-448: \<open>while signedArea <= 0: p2 = p1; p1 = stack.pop()\<close>, then the three
  points are pushed back (lines 449-451). The stack argument is what lies below \<open>p1\<close>.
\<close>

fun graham_pop :: "pt \<Rightarrow> pt \<Rightarrow> pt \<Rightarrow> pt list \<Rightarrow> pt list res" where
  "graham_pop p1 p2 p3 stack =
     (if turn p1 p2 p3 \<le> 0 then
        (case stack of [] \<Rightarrow> Inl IndexError | p # stack' \<Rightarrow> graham_pop p p1 p3 stack')
      else Inr (p3 # p2 # p1 # stack))"

declare graham_pop.simps [simp del]

text \<open>Lines 439-451: push the point, pop three, scan, push back.\<close>

fun graham_scan :: "pt list \<Rightarrow> pt list \<Rightarrow> pt list res" where
  "graham_scan [] stack = Inr stack"
| "graham_scan (cur # curs) stack =
     (case cur # stack of
        p3 # p2 # p1 # stack' \<Rightarrow> ebind (graham_pop p1 p2 p3 stack') (graham_scan curs)
      | _ \<Rightarrow> Inl IndexError)"

text \<open>
  The result is the mutated point list (the caller's list is sorted in place and the
  pivot moved to its end) and the returned hull, in the source's order.
\<close>

definition convexHull :: "pt list \<Rightarrow> bool \<Rightarrow> (pt list \<times> pt list) res" where
  "convexHull points sortedByY =
     (if length points < 4 then Inr (points, points)
      else
        (let bottom = hull_bottom points sortedByY;
             rest = remove1 bottom points
         in ebind (sort_by_slope bottom rest) (\<lambda>sorted.
            (let points = sorted @ [bottom]
             in ebind (graham_scan (drop 1 points) [points ! 0, bottom]) (\<lambda>stack.
                case stack of [] \<Rightarrow> Inl IndexError | _ # stack' \<Rightarrow> Inr (points, rev stack'))))))"

text \<open>
  Three points turn strictly left, cyclically around a polygon given in the source's order
  (the hull is returned pivot first).
\<close>

fun convex_chain :: "pt list \<Rightarrow> bool" where
  "convex_chain (c # b # a # r) = (0 < turn a b c \<and> convex_chain (b # a # r))"
| "convex_chain _ = True"

definition ccw_polygon :: "pt list \<Rightarrow> bool" where
  "ccw_polygon h \<longleftrightarrow> convex_chain (rev (h @ take 2 h))"

definition general_position :: "pt list \<Rightarrow> bool" where
  "general_position points \<longleftrightarrow> distinct (map pt_y points)
     \<and> (\<forall>p\<in>set points. \<forall>q\<in>set points. \<forall>r\<in>set points. p \<noteq> q \<and> q \<noteq> r \<and> p \<noteq> r \<longrightarrow> turn p q r \<noteq> 0)"

subsection \<open>The pivot\<close>

lemma foldl_lowest:
  "foldl (\<lambda>bottom p. if pt_y p < pt_y bottom then p else bottom) b xs \<in> insert b (set xs)
   \<and> (\<forall>p\<in>insert b (set xs). pt_y (foldl (\<lambda>bottom p. if pt_y p < pt_y bottom then p else bottom) b xs) \<le> pt_y p)"
proof (induction xs arbitrary: b)
  case (Cons x xs)
  then show ?case by (cases "pt_y x < pt_y b") (fastforce, force)
qed simp

lemma hull_bottom_lowest:
  assumes "points \<noteq> []" "sortedByY \<longrightarrow> sorted (map pt_y points)"
  shows "hull_bottom points sortedByY \<in> set points \<and> (\<forall>p\<in>set points. pt_y (hull_bottom points sortedByY) \<le> pt_y p)"
proof (cases sortedByY)
  case True
  with assms show ?thesis
    by (cases points) (auto simp: hull_bottom_def)
next
  case False
  have eq: "insert (points ! 0) (set (drop 1 points)) = set points"
    using assms(1) by (cases points) auto
  from foldl_lowest [of "points ! 0" "drop 1 points"] show ?thesis
    unfolding eq hull_bottom_def if_not_P [OF False] .
qed

subsection \<open>The angular order\<close>

lemma turn_signedArea: "turn p1 p2 p3 = signedArea (LineSegment p1 p2) p3"
  by (simp add: turn_def signedArea_def)

lemma turn_same [simp]: "turn a b b = 0" "turn a a b = 0" "turn a b a = 0"
  by (simp_all add: turn_def)

text \<open>Above the pivot, a smaller key means a smaller angle: the key order is the turn order.\<close>

lemma slope_key_turn:
  assumes "pt_y b < pt_y p" "pt_y b < pt_y q" "slope_key b p \<le> slope_key b q"
  shows "0 \<le> turn b p q"
proof -
  define dxp dyp dxq dyq where "dxp = pt_x p - pt_x b" and "dyp = pt_y p - pt_y b"
    and "dxq = pt_x q - pt_x b" and "dyq = pt_y q - pt_y b"
  have dp: "0 < dyp" and dq: "0 < dyq" using assms(1,2) by (simp_all add: dyp_def dyq_def)
  then have pos: "0 < dyp * dyq" by simp
  have "slope_key b p = - (dxp / dyp)" "slope_key b q = - (dxq / dyq)"
    by (simp_all add: slope_key_def dxp_def dyp_def dxq_def dyq_def minus_divide_left)
  with assms(3) have "dxq / dyq \<le> dxp / dyp" by linarith
  then have "dxq / dyq * (dyp * dyq) \<le> dxp / dyp * (dyp * dyq)"
    using pos by (intro mult_right_mono) simp_all
  then have "dxq * dyp \<le> dxp * dyq" using dp dq by (simp add: field_simps)
  then show ?thesis by (simp add: turn_def dxp_def dyp_def dxq_def dyq_def algebra_simps)
qed

lemma slope_key_turn_iff:
  "pt_y b < pt_y p \<Longrightarrow> pt_y b < pt_y q \<Longrightarrow> 0 < turn b p q \<longleftrightarrow> slope_key b p < slope_key b q"
  by (simp add: slope_key_def turn_def field_simps)

lemma turn_swap: "turn a b c = - turn a c b"
  by (simp add: turn_def algebra_simps)

text \<open>Around a point below all others, turning left is a transitive order.\<close>

lemma turn_trans_above:
  "pt_y b < pt_y p \<Longrightarrow> pt_y b < pt_y q \<Longrightarrow> pt_y b < pt_y r \<Longrightarrow>
   0 < turn b p q \<Longrightarrow> 0 < turn b q r \<Longrightarrow> 0 < turn b p r"
  by (simp add: slope_key_turn_iff)

lemma sorted_wrt_strengthen:
  "sorted_wrt R xs \<Longrightarrow> distinct xs \<Longrightarrow> (\<forall>x\<in>set xs. \<forall>y\<in>set xs. R x y \<longrightarrow> x \<noteq> y \<longrightarrow> S x y)
   \<Longrightarrow> sorted_wrt S xs"
  by (induction xs) auto

lemma sort_by_slope_ok:
  assumes "\<forall>p\<in>set rest. pt_y b < pt_y p" "distinct rest"
    and "\<forall>p\<in>set rest. \<forall>q\<in>set rest. p \<noteq> q \<longrightarrow> turn b p q \<noteq> 0"
  shows "sort_by_slope b rest = Inr (sort_key (slope_key b) rest)
    \<and> sorted_wrt (\<lambda>p q. 0 < turn b p q) (sort_key (slope_key b) rest)"
proof
  show "sort_by_slope b rest = Inr (sort_key (slope_key b) rest)"
    using assms(1) by (auto simp: sort_by_slope_def list_ex_iff)
  have "sorted_wrt (\<lambda>p q. slope_key b p \<le> slope_key b q) (sort_key (slope_key b) rest)"
    using sorted_sort_key [of "slope_key b" rest] by (simp add: sorted_wrt_map)
  moreover have "distinct (sort_key (slope_key b) rest)" using assms(2) by simp
  ultimately show "sorted_wrt (\<lambda>p q. 0 < turn b p q) (sort_key (slope_key b) rest)"
  proof (rule sorted_wrt_strengthen, intro ballI impI)
    fix x y assume "x \<in> set (sort_key (slope_key b) rest)" "y \<in> set (sort_key (slope_key b) rest)"
      and k: "slope_key b x \<le> slope_key b y" and ne: "x \<noteq> y"
    then have xy: "x \<in> set rest" "y \<in> set rest" by simp_all
    have "0 \<le> turn b x y" using assms(1) xy k by (intro slope_key_turn) auto
    moreover have "turn b x y \<noteq> 0" using assms(3) xy ne by blast
    ultimately show "0 < turn b x y" by simp
  qed
qed

subsection \<open>The scan\<close>

lemma convex_chain_tl: "convex_chain (a # xs) \<Longrightarrow> convex_chain xs"
  by (cases xs; cases "tl xs") auto

lemma convex_chain_suffix: "convex_chain (pre @ zs) \<Longrightarrow> convex_chain zs"
  by (induction pre) (auto dest: convex_chain_tl)

lemma suffix_snoc:
  "ys @ [b] = pre @ zs \<Longrightarrow> zs \<noteq> [] \<Longrightarrow> \<exists>ws. zs = ws @ [b] \<and> ys = pre @ ws"
proof -
  assume eq: "ys @ [b] = pre @ zs" and ne: "zs \<noteq> []"
  then have "ys @ [b] = (pre @ butlast zs) @ [last zs]" by simp
  then have "ys = pre @ butlast zs" "b = last zs" by simp_all
  with ne show ?thesis by (intro exI [of _ "butlast zs"]) simp
qed

text \<open>
  The pop loop stops before it reaches the pivot \<open>b\<close> at the bottom of the stack when
  every point above the pivot, and \<open>p2\<close>, precede the new point \<open>p3\<close> in the angular
  order; what is left is a suffix of the stack on which the new point turns left.
\<close>

lemma graham_pop_ok:
  assumes "p1 # stack = xs @ [b]" "\<forall>x\<in>set (p2 # xs). 0 < turn b x p3"
  shows "\<exists>pre p2' p1' st'. graham_pop p1 p2 p3 stack = Inr (p3 # p2' # p1' # st')
           \<and> p2 # p1 # stack = pre @ p2' # p1' # st' \<and> 0 < turn p1' p2' p3"
  using assms
proof (induction p1 p2 p3 stack arbitrary: xs rule: graham_pop.induct)
  case (1 p1 p2 p3 stack)
  show ?case
  proof (cases "turn p1 p2 p3 \<le> 0")
    case False
    then show ?thesis
      by (intro exI [of _ "[]"]) (simp add: graham_pop.simps [of p1 p2 p3 stack])
  next
    case True
    show ?thesis
    proof (cases xs)
      case Nil
      with "1.prems" True show ?thesis by simp
    next
      case (Cons x xs')
      with "1.prems"(1) have x: "x = p1" and st: "stack = xs' @ [b]" by simp_all
      then obtain q st'' where q: "stack = q # st''" by (cases xs') auto
      have "q # st'' = xs' @ [b]" using st q by simp
      moreover have "\<forall>x\<in>set (p1 # xs'). 0 < turn b x p3" using "1.prems"(2) Cons x by simp
      ultimately obtain pre p2' p1' st' where r: "graham_pop q p1 p3 st'' = Inr (p3 # p2' # p1' # st')"
          and e: "p1 # q # st'' = pre @ p2' # p1' # st'" and t: "0 < turn p1' p2' p3"
        using "1.IH" [OF True q] by blast
      have "graham_pop p1 p2 p3 stack
          = (case stack of [] \<Rightarrow> Inl IndexError | p # stack' \<Rightarrow> graham_pop p p1 p3 stack')"
        unfolding graham_pop.simps [of p1 p2 p3 stack] if_P [OF True] ..
      then have "graham_pop p1 p2 p3 stack = graham_pop q p1 p3 st''" using q by simp
      with r e t q show ?thesis by (intro exI [of _ "p2 # pre"]) simp
    qed
  qed
qed

lemma turn_rotate: "turn a b c = turn b c a" "turn a b c = turn c a b"
  by (simp_all add: turn_def algebra_simps)

text \<open>
  The scan invariant: the stack is the pivot with points above it that precede the
  remaining points in the angular order, deeper points first, and every three consecutive
  stack points turn left. Processing the remaining points and finally the pivot keeps it,
  and the last round pops nothing.
\<close>

lemma graham_scan_ok:
  assumes "sorted_wrt (\<lambda>p q. 0 < turn b p q) (dn @ cs)"
    and "stack = ys @ [b]" "ys \<noteq> []" "set ys \<subseteq> set dn"
    and "sorted_wrt (\<lambda>u v. 0 < turn b v u) ys" "convex_chain stack"
    and "cs \<noteq> [] \<or> 2 \<le> length ys"
  shows "\<exists>zs. graham_scan (cs @ [b]) stack = Inr (b # zs @ [b]) \<and> 2 \<le> length zs
           \<and> set zs \<subseteq> set (dn @ cs) \<and> sorted_wrt (\<lambda>u v. 0 < turn b v u) zs
           \<and> convex_chain (b # zs @ [b])"
  using assms
proof (induction cs arbitrary: dn ys stack)
  case Nil
  from Nil.prems obtain y1 y2 ys' where ys: "ys = y1 # y2 # ys'"
    by (cases ys; cases "tl ys") auto
  have "0 < turn b y2 y1" using Nil.prems(5) ys by simp
  then have t: "0 < turn y2 y1 b" using turn_rotate(2) [of y2 y1 b] by simp
  then have "graham_pop y2 y1 b (ys' @ [b]) = Inr (b # y1 # y2 # ys' @ [b])"
    by (simp add: graham_pop.simps [of y2 y1 b "ys' @ [b]"])
  then show ?case using Nil.prems t ys by (intro exI [of _ ys]) auto
next
  case (Cons c cs)
  obtain y1 ys' where ys: "ys = y1 # ys'" using Cons.prems(3) by (cases ys) auto
  obtain p1 st where p1: "ys' @ [b] = p1 # st" by (cases "ys' @ [b]") auto
  have before: "\<forall>x\<in>set dn. 0 < turn b x c"
    using Cons.prems(1) by (simp add: sorted_wrt_append)
  then have all: "\<forall>x\<in>set (y1 # ys'). 0 < turn b x c" using Cons.prems(4) ys by auto
  have "p1 # st = ys' @ [b]" using p1 by (rule sym)
  from graham_pop_ok [OF this all] obtain pre p2' p1' st'
    where r: "graham_pop p1 y1 c st = Inr (c # p2' # p1' # st')"
      and e: "y1 # p1 # st = pre @ p2' # p1' # st'" and t: "0 < turn p1' p2' c"
    by blast
  have ysp: "ys @ [b] = y1 # p1 # st" unfolding ys by (simp only: append_Cons p1)
  then have ysb: "ys @ [b] = pre @ (p2' # p1' # st')" using e by (rule trans)
  have "p2' # p1' # st' \<noteq> []" by simp
  from suffix_snoc [OF ysb this] obtain ws where ws: "p2' # p1' # st' = ws @ [b]" "ys = pre @ ws"
    by blast
  then have wsne: "ws \<noteq> []" by (cases ws) auto
  have "graham_scan ((c # cs) @ [b]) stack = ebind (graham_pop p1 y1 c st) (graham_scan (cs @ [b]))"
    unfolding Cons.prems(2) ysp by simp
  then have scan: "graham_scan ((c # cs) @ [b]) stack = graham_scan (cs @ [b]) (c # ws @ [b])"
    unfolding r ws(1) by simp
  have "\<exists>zs. graham_scan (cs @ [b]) (c # ws @ [b]) = Inr (b # zs @ [b]) \<and> 2 \<le> length zs
           \<and> set zs \<subseteq> set ((dn @ [c]) @ cs) \<and> sorted_wrt (\<lambda>u v. 0 < turn b v u) zs
           \<and> convex_chain (b # zs @ [b])"
  proof (rule Cons.IH)
    show "sorted_wrt (\<lambda>p q. 0 < turn b p q) ((dn @ [c]) @ cs)" using Cons.prems(1) by simp
    show "set (c # ws) \<subseteq> set (dn @ [c])" using Cons.prems(4) ws by auto
    show "sorted_wrt (\<lambda>u v. 0 < turn b v u) (c # ws)"
      using Cons.prems(4,5) ws before by (auto simp: sorted_wrt_append)
    have "convex_chain (p2' # p1' # st')"
      using Cons.prems(2,6) ysb convex_chain_suffix [of pre "p2' # p1' # st'"] by simp
    then have "convex_chain (c # p2' # p1' # st')" using t by simp
    then show "convex_chain (c # ws @ [b])" unfolding ws(1) [symmetric] .
    show "cs \<noteq> [] \<or> 2 \<le> length (c # ws)" using wsne by (cases ws) auto
  qed simp_all
  then show ?case using scan by simp
qed

lemma sorted_wrt_irrefl_distinct: "sorted_wrt R xs \<Longrightarrow> (\<And>x. \<not> R x x) \<Longrightarrow> distinct xs"
  by (induction xs) auto

subsection \<open>The hull\<close>

text \<open>In general position the pivot is strictly below every other point.\<close>

lemma general_position_rest:
  assumes gp: "general_position points" and b: "b \<in> set points"
    and low: "\<forall>p\<in>set points. pt_y b \<le> pt_y p"
  shows "distinct (remove1 b points) \<and> b \<notin> set (remove1 b points)
    \<and> set (remove1 b points) \<subseteq> set points
    \<and> (\<forall>p\<in>set (remove1 b points). pt_y b < pt_y p)
    \<and> (\<forall>p\<in>set (remove1 b points). \<forall>q\<in>set (remove1 b points). p \<noteq> q \<longrightarrow> turn b p q \<noteq> 0)"
proof -
  have dy: "distinct (map pt_y points)" using gp by (simp add: general_position_def)
  then have d: "distinct points" by (simp add: distinct_map)
  then have set_r: "set (remove1 b points) = set points - {b}" by (simp add: set_remove1_eq)
  have "pt_y p \<noteq> pt_y b" if "p \<in> set points" "p \<noteq> b" for p
    using dy that b by (auto simp: distinct_map inj_on_def)
  with low set_r have "\<forall>p\<in>set (remove1 b points). pt_y b < pt_y p" by force
  moreover have "\<forall>p\<in>set (remove1 b points). \<forall>q\<in>set (remove1 b points). p \<noteq> q \<longrightarrow> turn b p q \<noteq> 0"
    using gp b set_r by (auto simp: general_position_def)
  ultimately show ?thesis using d set_r by auto
qed

text \<open>What the scan returns on points in general position.\<close>

lemma convexHull_scan:
  assumes "4 \<le> length points" "general_position points" "sortedByY \<longrightarrow> sorted (map pt_y points)"
  defines "b \<equiv> hull_bottom points sortedByY"
  shows "\<exists>zs. convexHull points sortedByY
             = Inr (sort_key (slope_key b) (remove1 b points) @ [b], rev (zs @ [b]))
      \<and> 2 \<le> length zs \<and> set zs \<subseteq> set (remove1 b points) \<and> b \<in> set points
      \<and> (\<forall>p\<in>set points. pt_y b \<le> pt_y p)
      \<and> sorted_wrt (\<lambda>u v. 0 < turn b v u) zs \<and> convex_chain (b # zs @ [b])"
proof -
  have ne: "points \<noteq> []" using assms(1) by auto
  from hull_bottom_lowest [OF ne] assms(3) have b: "b \<in> set points" and low: "\<forall>p\<in>set points. pt_y b \<le> pt_y p"
    by (simp_all add: b_def)
  define rest where "rest = remove1 b points"
  note r = general_position_rest [OF assms(2) b low, folded rest_def]
  define sorted where "sorted = sort_key (slope_key b) rest"
  from sort_by_slope_ok [of rest b] r have sbs: "sort_by_slope b rest = Inr sorted"
    and ang: "sorted_wrt (\<lambda>p q. 0 < turn b p q) sorted"
    by (simp_all add: sorted_def)
  have "length rest = length points - 1" using b by (simp add: rest_def length_remove1)
  then have "3 \<le> length sorted" using assms(1) by (simp add: sorted_def)
  then obtain s0 s1 ss where s: "sorted = s0 # s1 # ss"
    by (cases sorted; cases "tl sorted") auto
  from graham_scan_ok [of b "[s0]" "s1 # ss" "[s0, b]" "[s0]"] ang s
  obtain zs where scan: "graham_scan ((s1 # ss) @ [b]) [s0, b] = Inr (b # zs @ [b])"
      and zs: "2 \<le> length zs" "set zs \<subseteq> set ([s0] @ s1 # ss)" "sorted_wrt (\<lambda>u v. 0 < turn b v u) zs"
        "convex_chain (b # zs @ [b])"
    by auto
  have "convexHull points sortedByY = Inr (sorted @ [b], rev (zs @ [b]))"
    using assms(1) scan s sbs
    by (simp add: convexHull_def Let_def flip: b_def rest_def)
  moreover have "set sorted = set rest" by (simp add: sorted_def)
  then have "set zs \<subseteq> set rest" using zs(2) s by auto
  ultimately show ?thesis using zs b low by (simp add: sorted_def rest_def)
qed

lemma ccw_polygon_close:
  assumes "convex_chain (b # zs @ [b])" "sorted_wrt (\<lambda>u v. 0 < turn b v u) zs" "2 \<le> length zs"
  shows "ccw_polygon (rev (zs @ [b]))"
proof -
  obtain zt zr where zs: "zs = zt # zr" and zr: "zr \<noteq> []" using assms(3)
    by (cases zs; cases "tl zs") auto
  then obtain zm l where zr': "zr = zm @ [l]" by (cases zr rule: rev_cases) auto
  then have "0 < turn b l zt" using assms(2) zs by simp
  then have "0 < turn zt b l" using turn_rotate(1) [of zt b l] by simp
  then show ?thesis using assms(1)
    by (simp add: ccw_polygon_def zs zr' rev_append)
qed

text \<open>
  C10: on at least four points in general position (distinct heights, no three
  collinear), the Graham scan raises no exception and returns a convex polygon: its first
  vertex is the lowest point, its vertices are distinct input points, there are at least
  three, and every three cyclically consecutive vertices turn strictly left
  (counter-clockwise). The caller's list is left a permutation of itself.
\<close>

theorem convexHull_ccw:
  assumes "4 \<le> length points" "general_position points" "sortedByY \<longrightarrow> sorted (map pt_y points)"
  shows "\<exists>pts' h. convexHull points sortedByY = Inr (pts', h)
     \<and> mset pts' = mset points \<and> set h \<subseteq> set points \<and> distinct h \<and> 3 \<le> length h
     \<and> (\<forall>p\<in>set points. pt_y (hd h) \<le> pt_y p) \<and> ccw_polygon h"
proof -
  define b where "b = hull_bottom points sortedByY"
  from convexHull_scan [OF assms, folded b_def] obtain zs where
    r: "convexHull points sortedByY = Inr (sort_key (slope_key b) (remove1 b points) @ [b], rev (zs @ [b]))"
    and zs: "2 \<le> length zs" "set zs \<subseteq> set (remove1 b points)" "sorted_wrt (\<lambda>u v. 0 < turn b v u) zs"
      "convex_chain (b # zs @ [b])"
    and b: "b \<in> set points" and low: "\<forall>p\<in>set points. pt_y b \<le> pt_y p"
    by blast
  note rest = general_position_rest [OF assms(2) b low]
  have "distinct zs" using zs(3) by (rule sorted_wrt_irrefl_distinct) simp
  moreover have "b \<notin> set zs" using zs(2) rest by blast
  moreover have "mset (sort_key (slope_key b) (remove1 b points) @ [b]) = mset points"
    using b by simp
  moreover have "set zs \<subseteq> set points" using zs(2) rest by blast
  ultimately show ?thesis
    using r zs b low ccw_polygon_close [OF zs(4) zs(3) zs(1)] by auto
qed

theorem convexHull_ccw_witness:
  "4 \<le> length [Pt 0 0, Pt 3 1, Pt 2 4, Pt (-1) 3, Pt 1 (3/2)]
   \<and> general_position [Pt 0 0, Pt 3 1, Pt 2 4, Pt (-1) 3, Pt 1 (3/2)]
   \<and> (\<exists>pts' h. convexHull [Pt 0 0, Pt 3 1, Pt 2 4, Pt (-1) 3, Pt 1 (3/2)] False = Inr (pts', h)
       \<and> mset pts' = mset [Pt 0 0, Pt 3 1, Pt 2 4, Pt (-1) 3, Pt 1 (3/2)]
       \<and> set h \<subseteq> set [Pt 0 0, Pt 3 1, Pt 2 4, Pt (-1) 3, Pt 1 (3/2)] \<and> distinct h \<and> 3 \<le> length h
       \<and> (\<forall>p\<in>set [Pt 0 0, Pt 3 1, Pt 2 4, Pt (-1) 3, Pt 1 (3/2)]. pt_y (hd h) \<le> pt_y p)
       \<and> ccw_polygon h)"
proof -
  have gp: "general_position [Pt 0 0, Pt 3 1, Pt 2 4, Pt (-1) 3, Pt 1 (3/2)]"
    by (simp add: general_position_def turn_def)
  show ?thesis using convexHull_ccw [OF _ gp, of False] gp by simp
qed

subsection \<open>Exceptions of the scan\<close>

lemma graham_pop_Inl: "graham_pop p1 p2 p3 stack = Inl e \<Longrightarrow> e = IndexError"
proof (induction p1 p2 p3 stack rule: graham_pop.induct)
  case (1 p1 p2 p3 stack)
  then show ?case
    by (cases stack) (auto simp: graham_pop.simps [of p1 p2 p3] split: if_splits)
qed

lemma graham_scan_Inl: "graham_scan curs stack = Inl e \<Longrightarrow> e = IndexError"
proof (induction curs arbitrary: stack)
  case (Cons cur curs)
  then show ?case
    by (auto simp: ebind_eq_Inl dest: graham_pop_Inl split: list.splits)
qed simp

text \<open>
  C11: on four or more points the Graham scan raises \<open>ZeroDivisionError\<close> exactly when
  a point other than the pivot has the pivot's height: the sort key divides by the height
  difference, and the scan itself can only raise \<open>IndexError\<close>. The spec's example
  (section 8, the square with its centre) has two points at height 0, so the source
  raises there instead of returning the four corners.
\<close>

theorem convexHull_ZeroDivisionError_iff:
  assumes "4 \<le> length points"
  shows "convexHull points sortedByY = Inl ZeroDivisionError \<longleftrightarrow>
    (\<exists>p\<in>set (remove1 (hull_bottom points sortedByY) points). pt_y p = pt_y (hull_bottom points sortedByY))"
proof -
  define b where "b = hull_bottom points sortedByY"
  show ?thesis
  proof (cases "list_ex (\<lambda>p. pt_y p = pt_y b) (remove1 b points)")
    case True
    with assms show ?thesis
      by (simp add: convexHull_def sort_by_slope_def Let_def list_ex_iff flip: b_def)
  next
    case False
    have "convexHull points sortedByY \<noteq> Inl ZeroDivisionError"
      using assms False
      by (auto simp: convexHull_def sort_by_slope_def Let_def ebind_eq_Inl
          dest: graham_scan_Inl split: list.splits simp flip: b_def)
    with False show ?thesis by (simp add: list_ex_iff b_def)
  qed
qed

theorem convexHull_ZeroDivisionError_witness:
  "convexHull [Pt 0 0, Pt 2 0, Pt 2 2, Pt 0 2, Pt 1 1] False = Inl ZeroDivisionError"
  using convexHull_ZeroDivisionError_iff [of "[Pt 0 0, Pt 2 0, Pt 2 2, Pt 0 2, Pt 1 1]" False]
  by (simp add: hull_bottom_def)

end
