(* ===== verification/HullJumping.thy ===== *)
theory HullJumping
  imports ConvexHull Path
begin

text \<open>
  The hull-jumping enumerator of src/CleanSolution.py: the Jarvis-march step
  \<open>jarvisMarchSinglePass\<close> (lines 455-469), the recursive search
  \<open>hullJumpingRecursive\<close> (490-545) and its wrapper \<open>hullJumping\<close> (471-488). From the
  current point the search finds its two neighbours \<open>p1\<close>, \<open>p2\<close> on the hull, removes
  the point, walks the new hull from \<open>p1\<close> towards \<open>p2\<close> with repeated Jarvis steps
  (the \<open>while\<close> loop of lines 511-517, \<open>hull_walk\<close>), and jumps to every point of
  that walk that lies above (for \<open>U\<close>) or below (for \<open>D\<close>) the current point. Nothing
  bounds the walk, so \<open>hull_walk\<close> is a \<open>partial_function (option)\<close>: \<open>None\<close> is a
  walk that never stops, and the search returns \<open>None\<close> when one of its walks does not.
  Python exceptions are \<open>Inl\<close> values inside \<open>Some\<close>.

  \<open>Pt\<close> has no \<open>__eq__\<close>: \<open>nextPoint == point\<close> and \<open>points.remove(point)\<close> compare
  objects by identity, which the model reads as equality of coordinates. The two agree
  on point lists without two objects at the same coordinates, which the point
  generators guarantee.
\<close>

subsection \<open>The Jarvis step\<close>

text \<open>
  One iteration of the loop of lines 462-468. \<open>nextSegment\<close> is always
  \<open>LineSegment(point, nextPoint)\<close> and \<open>prevSegment\<close> is \<open>LineSegment(point, prevPoint)\<close>.
\<close>

definition jarvis_step :: "pt \<Rightarrow> pt \<times> pt \<Rightarrow> pt \<Rightarrow> pt \<times> pt" where
  "jarvis_step point np p =
     (let (nextPoint, prevPoint) = np;
          nextPoint' = (if nextPoint = point \<or> signedArea (LineSegment point nextPoint) p > 0
                        then p else nextPoint);
          prevPoint' = (if prevPoint = point \<or> signedArea (LineSegment point prevPoint) p < 0
                        then p else prevPoint)
      in (nextPoint', prevPoint'))"

text \<open>The result \<open>[nextPoint, prevPoint]\<close>, which every caller unpacks into two names.\<close>

definition jarvisMarchSinglePass :: "pt list \<Rightarrow> pt \<Rightarrow> pt \<times> pt" where
  "jarvisMarchSinglePass points point = foldl (jarvis_step point) (point, point) points"

subsection \<open>The walk along the new hull\<close>

text \<open>
  Lines 511-517: \<open>while p4.x != p2.x and p4.y != p2.y\<close>, one Jarvis step from \<open>p4\<close>,
  skipping the point the walk came from.
\<close>

partial_function (option) hull_walk :: "pt list \<Rightarrow> pt \<Rightarrow> pt \<Rightarrow> pt \<Rightarrow> pt list \<Rightarrow> pt list option" where
  "hull_walk points p2 p3 p4 nextPoints =
     (if pt_x p4 \<noteq> pt_x p2 \<and> pt_y p4 \<noteq> pt_y p2 then
        (let (p5, p6) = jarvisMarchSinglePass points p4;
             p5 = (if pt_x p5 = pt_x p3 \<and> pt_y p5 = pt_y p3 then p6 else p5)
         in hull_walk points p2 p4 p5 (nextPoints @ [p5]))
      else Some nextPoints)"

subsection \<open>The search\<close>

text \<open>
  \<open>hj_base\<close> is the base case of lines 493-499, after \<open>points.remove(point)\<close>; the
  \<open>and\<close> of Python evaluates \<open>points[0]\<close> only when the letter matches.
\<close>

definition hj_base :: "pt list \<Rightarrow> pt \<Rightarrow> char \<Rightarrow> (pt list list \<times> bool) res" where
  "hj_base points point c =
     (if c = CHR ''U'' then
        ebind (py_nth points 0) (\<lambda>p0. if pt_y p0 < pt_y point then Inr ([[p0]], True) else Inr ([[]], False))
      else if c = CHR ''D'' then
        ebind (py_nth points 0) (\<lambda>p0. if pt_y p0 > pt_y point then Inr ([[p0]], True) else Inr ([[]], False))
      else Inr ([[]], False))"

text \<open>
  The recursion and the loop over \<open>nextPoints\<close> (lines 519-545, the two branches on the
  letter \<open>c = string[0]\<close> with the rest of the pattern \<open>rest = string[1:]\<close>); every
  successful recursive result gets \<open>p\<close> appended to each of its paths.
\<close>

function hullJumpingRecursive :: "pt list \<Rightarrow> pt \<Rightarrow> string \<Rightarrow> (pt list list \<times> bool) res option"
  and hj_loop :: "pt list \<Rightarrow> pt \<Rightarrow> char \<Rightarrow> string \<Rightarrow> pt list \<Rightarrow> pt list list \<Rightarrow> bool
                    \<Rightarrow> (pt list list \<times> bool) res option" where
  "hullJumpingRecursive points point string =
     (if length string = 1 then
        Some (ebind (py_remove points point) (\<lambda>points. hj_base points point (string ! 0)))
      else
        (let (p1, p2) = jarvisMarchSinglePass points point;
             (p3, p4) = jarvisMarchSinglePass points p1;
             p3 = (if pt_x p3 = pt_x point \<and> pt_y p3 = pt_y point then p4 else p3);
             p4 = p1
         in case py_remove points point of
              Inl e \<Rightarrow> Some (Inl e)
            | Inr points \<Rightarrow>
                (case hull_walk points p2 p3 p4 [p1] of
                   None \<Rightarrow> None
                 | Some nextPoints \<Rightarrow>
                     (case string of
                        [] \<Rightarrow> Some (Inl IndexError)
                      | c # rest \<Rightarrow> hj_loop points point c rest nextPoints [] False))))"
| "hj_loop points point c rest [] out success = Some (Inr (out, success))"
| "hj_loop points point c rest (p # ps) out success =
     (if (if c = CHR ''U'' then pt_y p > pt_y point else pt_y p < pt_y point) then
        (case hullJumpingRecursive points p rest of
           None \<Rightarrow> None
         | Some (Inl e) \<Rightarrow> Some (Inl e)
         | Some (Inr (output, successful)) \<Rightarrow>
             (if successful then hj_loop points point c rest ps (out @ map (\<lambda>arr. arr @ [p]) output) True
              else hj_loop points point c rest ps out success))
      else hj_loop points point c rest ps out success)"
  by pat_completeness auto
termination
  by (relation "measures
       [\<lambda>x. case x of Inl (pts, pt, s) \<Rightarrow> 2 * length s | Inr (pts, pt, c, rest, ps, out, b) \<Rightarrow> 2 * length rest + 1,
        \<lambda>x. case x of Inl _ \<Rightarrow> 0 | Inr (pts, pt, c, rest, ps, out, b) \<Rightarrow> length ps]") auto

declare hullJumpingRecursive.simps [simp del]

text \<open>
  The wrapper: the hull is computed (sorting the caller's list in place) unless given,
  and the search is started from every hull vertex, appending the start to each path. The
  optional argument \<open>hull\<close> is \<open>hull0\<close> here (\<open>hull\<close> names a HOL constant).
\<close>

fun hj_outer :: "pt list \<Rightarrow> string \<Rightarrow> pt list \<Rightarrow> pt list list \<Rightarrow> pt list list res option" where
  "hj_outer points string [] output = Some (Inr output)"
| "hj_outer points string (point # hs) output =
     (case hullJumpingRecursive points point string of
        None \<Rightarrow> None
      | Some (Inl e) \<Rightarrow> Some (Inl e)
      | Some (Inr (out, success)) \<Rightarrow>
          hj_outer points string hs (if success then output @ map (\<lambda>arr. arr @ [point]) out else output))"

definition hullJumping :: "pt list \<Rightarrow> string \<Rightarrow> pt list option \<Rightarrow> pt list list res option" where
  "hullJumping points string hull0 =
     (case hull0 of
        None \<Rightarrow> (case convexHull points False of
                   Inl e \<Rightarrow> Some (Inl e)
                 | Inr (points', h) \<Rightarrow> hj_outer points' string h [])
      | Some h \<Rightarrow> hj_outer points string h [])"

subsection \<open>The Jarvis step finds the extreme neighbours\<close>

text \<open>
  Each component of the step keeps the last point seen that is "more extreme" than its
  current choice, taking the first point other than the start unconditionally.
\<close>

definition select_step :: "pt \<Rightarrow> (pt \<Rightarrow> pt \<Rightarrow> bool) \<Rightarrow> pt \<Rightarrow> pt \<Rightarrow> pt" where
  "select_step point R n p = (if n = point \<or> R n p then p else n)"

lemma jarvisMarchSinglePass_split:
  "jarvisMarchSinglePass points point =
     (foldl (select_step point (\<lambda>a b. 0 < turn point a b)) point points,
      foldl (select_step point (\<lambda>a b. turn point a b < 0)) point points)"
proof -
  have "foldl (jarvis_step point) (n, pv) xs =
          (foldl (select_step point (\<lambda>a b. 0 < turn point a b)) n xs,
           foldl (select_step point (\<lambda>a b. turn point a b < 0)) pv xs)" for n pv xs
    by (induction xs arbitrary: n pv) (simp_all add: jarvis_step_def select_step_def turn_signedArea)
  then show ?thesis by (simp add: jarvisMarchSinglePass_def)
qed

text \<open>
  When the order \<open>R\<close> is transitive on the other points and any two distinct ones are
  comparable, the selection returns the greatest of them.
\<close>

lemma foldl_select:
  assumes trans: "\<forall>a\<in>S. \<forall>b\<in>S. \<forall>c\<in>S. R a b \<longrightarrow> R b c \<longrightarrow> R a c"
    and total: "\<forall>a\<in>S. \<forall>b\<in>S. a \<noteq> b \<longrightarrow> R a b \<or> R b a"
    and xs: "set xs \<subseteq> insert point S" "point \<notin> S" and nopt: "\<forall>a. \<not> R a point"
    and n: "(n = point \<and> set ys \<subseteq> {point}) \<or> (n \<in> set ys \<and> n \<noteq> point \<and> (\<forall>q\<in>set ys. q \<noteq> point \<longrightarrow> q \<noteq> n \<longrightarrow> R q n))"
    and ys: "set ys \<subseteq> insert point S"
  shows "let r = foldl (select_step point R) n xs in
     (r = point \<and> set (ys @ xs) \<subseteq> {point})
     \<or> (r \<in> set (ys @ xs) \<and> r \<noteq> point \<and> (\<forall>q\<in>set (ys @ xs). q \<noteq> point \<longrightarrow> q \<noteq> r \<longrightarrow> R q r))"
  using xs(1) n ys
proof (induction xs arbitrary: n ys)
  case Nil
  then show ?case by simp
next
  case (Cons x xs)
  let ?n = "select_step point R n x"
  have inv: "(?n = point \<and> set (ys @ [x]) \<subseteq> {point})
     \<or> (?n \<in> set (ys @ [x]) \<and> ?n \<noteq> point \<and> (\<forall>q\<in>set (ys @ [x]). q \<noteq> point \<longrightarrow> q \<noteq> ?n \<longrightarrow> R q ?n))"
  proof (cases "n = point")
    case True
    with Cons.prems(2,3) xs(2) show ?thesis by (auto simp: select_step_def)
  next
    case False
    with Cons.prems(2) have n: "n \<in> set ys" "\<forall>q\<in>set ys. q \<noteq> point \<longrightarrow> q \<noteq> n \<longrightarrow> R q n" by auto
    have nS: "n \<in> S" using n(1) Cons.prems(3) False by auto
    show ?thesis
    proof (cases "R n x")
      case True
      have xp: "x \<noteq> point" using True nopt by auto
      then have xS: "x \<in> S" using Cons.prems(1) by simp
      have "R q x" if "q \<in> set ys" "q \<noteq> point" "q \<noteq> x" for q
      proof (cases "q = n")
        case True
        with \<open>R n x\<close> show ?thesis by simp
      next
        case False
        with that n have "R q n" by simp
        moreover have "q \<in> S" using that Cons.prems(3) by auto
        ultimately show ?thesis using trans nS xS \<open>R n x\<close> by blast
      qed
      with False True n xp show ?thesis by (auto simp: select_step_def)
    next
      case nx: False
      have "R x n" if "x \<noteq> point" "x \<noteq> n"
      proof -
        have "x \<in> S" using that Cons.prems(1) by simp
        then show ?thesis using nx total nS that by blast
      qed
      with False nx n show ?thesis by (auto simp: select_step_def)
    qed
  qed
  have "set (ys @ [x]) \<subseteq> insert point S" using Cons.prems(1,3) by auto
  from Cons.IH [OF _ inv this] Cons.prems(1) show ?case by simp
qed


text \<open>The selection fold from the start point returns the extreme other point.\<close>

lemma select_extreme:
  assumes "\<forall>a\<in>S. \<forall>b\<in>S. \<forall>c\<in>S. R a b \<longrightarrow> R b c \<longrightarrow> R a c"
    and "\<forall>a\<in>S. \<forall>b\<in>S. a \<noteq> b \<longrightarrow> R a b \<or> R b a"
    and "set points \<subseteq> insert point S" "point \<notin> S" "\<forall>a. \<not> R a point"
    and "\<not> set points \<subseteq> {point}"
  shows "foldl (select_step point R) point points \<in> set points \<and> foldl (select_step point R) point points \<noteq> point
    \<and> (\<forall>q\<in>set points. q \<noteq> point \<longrightarrow> q \<noteq> foldl (select_step point R) point points
         \<longrightarrow> R q (foldl (select_step point R) point points))"
proof -
  have "let r = foldl (select_step point R) point points in
      (r = point \<and> set ([] @ points) \<subseteq> {point})
      \<or> (r \<in> set ([] @ points) \<and> r \<noteq> point \<and> (\<forall>q\<in>set ([] @ points). q \<noteq> point \<longrightarrow> q \<noteq> r \<longrightarrow> R q r))"
    by (rule foldl_select [OF assms(1-5)]) simp_all
  with assms(6) show ?thesis by (simp add: Let_def)
qed

lemma turn_total: "turn b p q \<noteq> 0 \<Longrightarrow> 0 < turn b p q \<or> 0 < turn b q p"
  using turn_swap [of b q p] by linarith

lemma turn_trans_above_neg:
  assumes "pt_y b < pt_y p" "pt_y b < pt_y q" "pt_y b < pt_y r" "turn b p q < 0" "turn b q r < 0"
  shows "turn b p r < 0"
proof -
  have "0 < turn b r q" "0 < turn b q p" using assms(4,5) turn_swap [of b p q] turn_swap [of b q r] by simp_all
  with assms(1-3) have "0 < turn b r p" by (blast intro: turn_trans_above)
  then show ?thesis using turn_swap [of b r p] by simp
qed

text \<open>
  C12: from a point strictly below all the others, with no two other points collinear
  with it, the Jarvis step returns two points of the list other than the start: every
  other point lies strictly to the right of the segment to \<open>nextPoint\<close> and strictly to
  the left of the segment to \<open>prevPoint\<close>. These are the start's two neighbours on the
  convex hull.
\<close>

theorem jarvis_extreme:
  assumes above: "\<forall>q\<in>set points. q \<noteq> point \<longrightarrow> pt_y point < pt_y q"
    and gp: "\<forall>p\<in>set points. \<forall>q\<in>set points. p \<noteq> q \<longrightarrow> p \<noteq> point \<longrightarrow> q \<noteq> point \<longrightarrow> turn point p q \<noteq> 0"
    and other: "\<exists>q\<in>set points. q \<noteq> point"
  shows "\<exists>n pv. jarvisMarchSinglePass points point = (n, pv)
     \<and> n \<in> set points \<and> n \<noteq> point \<and> pv \<in> set points \<and> pv \<noteq> point
     \<and> (\<forall>q\<in>set points. q \<noteq> point \<longrightarrow> q \<noteq> n \<longrightarrow> signedArea (LineSegment point n) q < 0)
     \<and> (\<forall>q\<in>set points. q \<noteq> point \<longrightarrow> q \<noteq> pv \<longrightarrow> 0 < signedArea (LineSegment point pv) q)"
proof -
  define S where "S = set points - {point}"
  have sub: "set points \<subseteq> insert point S" "point \<notin> S" by (auto simp: S_def)
  have yS: "\<forall>a\<in>S. pt_y point < pt_y a" using above by (simp add: S_def)
  have tot: "\<forall>a\<in>S. \<forall>b\<in>S. a \<noteq> b \<longrightarrow> turn point a b \<noteq> 0" using gp by (simp add: S_def)
  have none: "\<not> set points \<subseteq> {point}" using other by auto
  define n where "n = foldl (select_step point (\<lambda>a b. 0 < turn point a b)) point points"
  have "\<forall>a\<in>S. \<forall>b\<in>S. \<forall>c\<in>S. 0 < turn point a b \<longrightarrow> 0 < turn point b c \<longrightarrow> 0 < turn point a c"
    using yS turn_trans_above [of point] by blast
  moreover have "\<forall>a\<in>S. \<forall>b\<in>S. a \<noteq> b \<longrightarrow> 0 < turn point a b \<or> 0 < turn point b a"
    using tot turn_total by blast
  ultimately have "n \<in> set points \<and> n \<noteq> point \<and> (\<forall>q\<in>set points. q \<noteq> point \<longrightarrow> q \<noteq> n \<longrightarrow> 0 < turn point q n)"
    unfolding n_def by (rule select_extreme [OF _ _ sub(1,2) _ none]) simp
  then have n: "n \<in> set points" "n \<noteq> point"
    "\<forall>q\<in>set points. q \<noteq> point \<longrightarrow> q \<noteq> n \<longrightarrow> signedArea (LineSegment point n) q < 0"
    by (auto simp: turn_signedArea [symmetric] turn_swap [of point n])
  define pv where "pv = foldl (select_step point (\<lambda>a b. turn point a b < 0)) point points"
  have "\<forall>a\<in>S. \<forall>b\<in>S. \<forall>c\<in>S. turn point a b < 0 \<longrightarrow> turn point b c < 0 \<longrightarrow> turn point a c < 0"
    using yS turn_trans_above_neg [of point] by blast
  moreover have "\<forall>a\<in>S. \<forall>b\<in>S. a \<noteq> b \<longrightarrow> turn point a b < 0 \<or> turn point b a < 0"
    using tot turn_total turn_swap [of point] by (metis neg_0_less_iff_less)
  ultimately have "pv \<in> set points \<and> pv \<noteq> point \<and> (\<forall>q\<in>set points. q \<noteq> point \<longrightarrow> q \<noteq> pv \<longrightarrow> turn point q pv < 0)"
    unfolding pv_def by (rule select_extreme [OF _ _ sub(1,2) _ none]) simp
  then have pv: "pv \<in> set points" "pv \<noteq> point"
    "\<forall>q\<in>set points. q \<noteq> point \<longrightarrow> q \<noteq> pv \<longrightarrow> 0 < signedArea (LineSegment point pv) q"
    by (auto simp: turn_signedArea [symmetric] turn_swap [of point pv])
  show ?thesis
    using n pv by (simp add: jarvisMarchSinglePass_split n_def pv_def)
qed

theorem jarvis_extreme_witness:
  "jarvisMarchSinglePass [Pt 0 0, Pt 3 1, Pt 2 4, Pt (-1) 3] (Pt 0 0) = (Pt (-1) 3, Pt 3 1)
   \<and> signedArea (LineSegment (Pt 0 0) (Pt (-1) 3)) (Pt 2 4) < 0
   \<and> 0 < signedArea (LineSegment (Pt 0 0) (Pt 3 1)) (Pt 2 4)"
proof -
  have h: "\<forall>q\<in>set [Pt 0 0, Pt 3 1, Pt 2 4, Pt (-1) 3]. q \<noteq> Pt 0 0 \<longrightarrow> pt_y (Pt 0 0) < pt_y q"
    "\<forall>p\<in>set [Pt 0 0, Pt 3 1, Pt 2 4, Pt (-1) 3]. \<forall>q\<in>set [Pt 0 0, Pt 3 1, Pt 2 4, Pt (-1) 3].
        p \<noteq> q \<longrightarrow> p \<noteq> Pt 0 0 \<longrightarrow> q \<noteq> Pt 0 0 \<longrightarrow> turn (Pt 0 0) p q \<noteq> 0"
    "\<exists>q\<in>set [Pt 0 0, Pt 3 1, Pt 2 4, Pt (-1) 3]. q \<noteq> Pt 0 0"
    by (simp_all add: turn_def)
  have "jarvisMarchSinglePass [Pt 0 0, Pt 3 1, Pt 2 4, Pt (-1) 3] (Pt 0 0) = (Pt (-1) 3, Pt 3 1)"
    using jarvis_extreme [OF h] by (simp add: jarvisMarchSinglePass_def jarvis_step_def signedArea_def)
  with jarvis_extreme [OF h] show ?thesis by auto
qed

subsection \<open>Two defects of the search\<close>

text \<open>
  C13: in the base case the comparison is inverted. From a point \<open>a\<close> below the last
  remaining point \<open>b\<close>, the last edge \<open>a \<rightarrow> b\<close> goes up, but the pattern \<open>"U"\<close> is
  rejected and \<open>"D"\<close> is accepted; the recursive case (lines 523-544) reads \<open>U\<close> as
  "jump to a higher point".
\<close>

theorem hj_base_inverted:
  assumes "pt_y a < pt_y b"
  shows "hullJumpingRecursive [a, b] a ''U'' = Some (Inr ([[]], False))
       \<and> hullJumpingRecursive [a, b] a ''D'' = Some (Inr ([[b]], True))"
  using assms
  by (simp add: hullJumpingRecursive.simps hj_base_def py_remove_def py_nth_def)

theorem hj_base_inverted_witness:
  "pt_y (Pt 0 0) < pt_y (Pt 1 1)
   \<and> hullJumpingRecursive [Pt 0 0, Pt 1 1] (Pt 0 0) ''U'' = Some (Inr ([[]], False))
   \<and> hullJumpingRecursive [Pt 0 0, Pt 1 1] (Pt 0 0) ''D'' = Some (Inr ([[Pt 1 1]], True))"
  using hj_base_inverted [of "Pt 0 0" "Pt 1 1"] by simp

text \<open>
  A run showing the early stop of the hull walk: it stops as soon as it reaches a point
  sharing one coordinate with the target \<open>p2\<close> (line 511 joins the two tests with
  \<open>and\<close>; it means "until \<open>p4\<close> is \<open>p2\<close>"). On the points \<open>(4,2), (0,5), (3,9),
  (5,8), (3,0)\<close>, in general position, from \<open>(0,5)\<close> the neighbours are \<open>p1 = (3,9)\<close>
  and \<open>p2 = (3,0)\<close>; the walk stops at once at \<open>(3,9)\<close>, so \<open>(3,0)\<close> is never a
  candidate and the search reports no path for \<open>"DUUU"\<close>, although
  \<open>(4,2) \<rightarrow> (3,0) \<rightarrow> (0,5) \<rightarrow> (5,8) \<rightarrow> (3,9)\<close> is a solution.
\<close>

lemma hull_walk_stops_early:
  "jarvisMarchSinglePass [Pt 4 2, Pt 0 5, Pt 3 9, Pt 5 8, Pt 3 0] (Pt 0 5) = (Pt 3 9, Pt 3 0)
   \<and> hull_walk [Pt 4 2, Pt 3 9, Pt 5 8, Pt 3 0] (Pt 3 0) p3 (Pt 3 9) [Pt 3 9] = Some [Pt 3 9]
   \<and> hullJumpingRecursive [Pt 4 2, Pt 0 5, Pt 3 9, Pt 5 8, Pt 3 0] (Pt 0 5) ''DUUU'' = Some (Inr ([], False))
   \<and> path_ok epsilon [Pt 3 0, Pt 4 2, Pt 0 5, Pt 5 8, Pt 3 9] ''DUUU''
       [LineSegment (Pt 4 2) (Pt 3 0), LineSegment (Pt 3 0) (Pt 0 5), LineSegment (Pt 0 5) (Pt 5 8),
        LineSegment (Pt 5 8) (Pt 3 9)]"
  by (simp add: hullJumpingRecursive.simps jarvisMarchSinglePass_def jarvis_step_def signedArea_def
      py_remove_def hull_walk.simps path_ok_def vertices_def dir_def profile_def intersect_def
      orientation_def epsilon_def Let_def add_mset_commute)

end
