(* ===== verification/HullTermination.thy ===== *)
theory HullTermination
  imports HullJumping
begin

text \<open>
  Termination of the hull-jumping search. The hull-repair walk \<open>hull_walk\<close> (lines
  510-517) is a \<open>partial_function (option)\<close>: \<open>None\<close> is a walk that never stops. On
  points with three of them on a line the walk can bounce between two points forever:
  \<open>col5\<close> is such a set, found by running the source with a step bound on the loop.
\<close>

definition col5 :: "pt list" where
  "col5 = [Pt 6 6, Pt 3 4, Pt 2 5, Pt 4 3, Pt 5 1]"

lemmas walk_eval_simps = jarvisMarchSinglePass_def jarvis_step_def signedArea_def

lemma jarvis_col3:
  "jarvisMarchSinglePass [Pt 4 3, Pt 3 4, Pt 2 5] (Pt 4 3) = (Pt 3 4, Pt 3 4)"
  "jarvisMarchSinglePass [Pt 4 3, Pt 3 4, Pt 2 5] (Pt 3 4) = (Pt 4 3, Pt 4 3)"
  by (simp_all add: walk_eval_simps)

text \<open>
  On the collinear points \<open>(4,3), (3,4), (2,5)\<close>, heading for \<open>(2,5)\<close>, the walk
  goes from \<open>(4,3)\<close> to \<open>(3,4)\<close> and back: neither shares a coordinate with the
  target, so the loop condition stays true. By the induction rule of the
  \<open>partial_function\<close>: no returned value is ever reached from a state of the cycle.
\<close>

lemma hull_walk_col3_diverges:
  assumes "(p3, p4) \<in> {(Pt 3 4, Pt 4 3), (Pt 4 3, Pt 3 4)}"
  shows "hull_walk [Pt 4 3, Pt 3 4, Pt 2 5] (Pt 2 5) p3 p4 ns = None"
proof (rule ccontr)
  assume "hull_walk [Pt 4 3, Pt 3 4, Pt 2 5] (Pt 2 5) p3 p4 ns \<noteq> None"
  then obtain r where ret: "hull_walk [Pt 4 3, Pt 3 4, Pt 2 5] (Pt 2 5) p3 p4 ns = Some r" by auto
  have "[Pt 4 3, Pt 3 4, Pt 2 5] = [Pt 4 3, Pt 3 4, Pt 2 5] \<longrightarrow> Pt 2 5 = Pt 2 5
      \<longrightarrow> (p3, p4) \<notin> {(Pt 3 4, Pt 4 3), (Pt 4 3, Pt 3 4)}"
  proof (rule hull_walk.raw_induct [where P = "\<lambda>(pts :: pt list) (q2 :: pt) (q3 :: pt) (q4 :: pt) ns r. pts = [Pt 4 3, Pt 3 4, Pt 2 5]
        \<longrightarrow> q2 = Pt 2 5 \<longrightarrow> (q3, q4) \<notin> {(Pt 3 4, Pt 4 3), (Pt 4 3, Pt 3 4)}", OF _ ret])
    fix f :: "pt list \<Rightarrow> pt \<Rightarrow> pt \<Rightarrow> pt \<Rightarrow> pt list \<Rightarrow> pt list option"
      and pts :: "pt list" and q2 q3 q4 :: pt and ns r
    assume IH: "\<And>q2 q3 q4 ns b r. f q2 q3 q4 ns b = Some r \<Longrightarrow> q2 = [Pt 4 3, Pt 3 4, Pt 2 5]
        \<longrightarrow> q3 = Pt 2 5 \<longrightarrow> (q4, ns) \<notin> {(Pt 3 4, Pt 4 3), (Pt 4 3, Pt 3 4)}"
      and eq: "(if pt_x q4 \<noteq> pt_x q2 \<and> pt_y q4 \<noteq> pt_y q2
        then let (p5, p6) = jarvisMarchSinglePass pts q4;
                 p5 = if pt_x p5 = pt_x q3 \<and> pt_y p5 = pt_y q3 then p6 else p5
             in f pts q2 q4 p5 (ns @ [p5])
        else Some ns) = Some r"
    show "pts = [Pt 4 3, Pt 3 4, Pt 2 5] \<longrightarrow> q2 = Pt 2 5
        \<longrightarrow> (q3, q4) \<notin> {(Pt 3 4, Pt 4 3), (Pt 4 3, Pt 3 4)}"
    proof (intro impI notI)
      assume pts: "pts = [Pt 4 3, Pt 3 4, Pt 2 5]" and q2: "q2 = Pt 2 5"
        and cyc: "(q3, q4) \<in> {(Pt 3 4, Pt 4 3), (Pt 4 3, Pt 3 4)}"
      from cyc show False
      proof
        assume "(q3, q4) = (Pt 3 4, Pt 4 3)"
        with eq pts q2 have "f pts q2 (Pt 4 3) (Pt 3 4) (ns @ [Pt 3 4]) = Some r"
          by (simp add: jarvis_col3)
        from IH [OF this] pts q2 show False by simp
      next
        assume "(q3, q4) \<in> {(Pt 4 3, Pt 3 4)}"
        with eq pts q2 have "f pts q2 (Pt 3 4) (Pt 4 3) (ns @ [Pt 4 3]) = Some r"
          by (simp add: jarvis_col3)
        from IH [OF this] pts q2 show False by simp
      qed
    qed
  qed
  with assms show False by simp
qed

lemma convexHull_col5:
  "convexHull col5 False = Inr ([Pt 6 6, Pt 4 3, Pt 3 4, Pt 2 5, Pt 5 1], [Pt 5 1, Pt 6 6, Pt 2 5])"
  by (simp add: col5_def convexHull_def hull_bottom_def sort_by_slope_def slope_key_def
      graham_pop.simps turn_def Let_def)

text \<open>The walks the search runs on \<open>col5\<close> before it reaches the cycle; each stops.\<close>

lemma col5_walks:
  "hull_walk [Pt 6 6, Pt 4 3, Pt 3 4, Pt 2 5] (Pt 6 6) (Pt 6 6) (Pt 2 5) ns
     = Some (ns @ [Pt 4 3, Pt 3 4, Pt 2 5, Pt 6 6])"
  "hull_walk [Pt 6 6, Pt 4 3, Pt 3 4] (Pt 4 3) (Pt 4 3) (Pt 6 6) ns = Some (ns @ [Pt 3 4, Pt 4 3])"
  "hull_walk [Pt 4 3, Pt 3 4] (Pt 3 4) (Pt 3 4) (Pt 4 3) ns = Some (ns @ [Pt 3 4])"
  "hull_walk [Pt 6 6, Pt 3 4, Pt 2 5] (Pt 6 6) (Pt 2 5) (Pt 3 4) ns = Some (ns @ [Pt 6 6])"
  "hull_walk [Pt 6 6, Pt 2 5] (Pt 6 6) (Pt 6 6) (Pt 2 5) ns = Some (ns @ [Pt 6 6])"
  "hull_walk [Pt 3 4, Pt 2 5] (Pt 2 5) (Pt 2 5) (Pt 3 4) ns = Some (ns @ [Pt 2 5])"
  "hull_walk [Pt 6 6, Pt 4 3, Pt 2 5] (Pt 4 3) (Pt 6 6) (Pt 2 5) ns = Some (ns @ [Pt 4 3])"
  "hull_walk [Pt 6 6, Pt 4 3] (Pt 4 3) (Pt 4 3) (Pt 6 6) ns = Some (ns @ [Pt 4 3])"
  by (simp_all add: hull_walk.simps walk_eval_simps)

lemma hullJumping_col5_None: "hullJumping col5 ''UUUU'' None = None"
  by (simp add: hullJumping_def convexHull_col5 hullJumpingRecursive.simps walk_eval_simps
      col5_walks hull_walk_col3_diverges py_remove_def hj_base_def py_nth_def)


text \<open>
  C23: \<open>hullJumping\<close> does not terminate on \<open>col5\<close> with the pattern \<open>"UUUU"\<close>.
  The search from the hull vertex \<open>(5,1)\<close> reaches the call from \<open>(6,6)\<close> with
  \<open>"UUU"\<close>, whose repair walk runs over the three collinear points \<open>(4,3), (3,4),
  (2,5)\<close> (their signed area is 0) and never stops: the Python call hangs. The spec
  assumes general position and does not say what happens on such input.
\<close>

theorem hullJumping_diverges_collinear:
  "hullJumping col5 ''UUUU'' None = None \<and> signedArea (LineSegment (Pt 4 3) (Pt 3 4)) (Pt 2 5) = 0"
  using hullJumping_col5_None by (simp add: signedArea_def)

end
