(* ===== verification/Legacy.thy ===== *)
theory Legacy
  imports Enumeration PartialOrderings
begin

text \<open>
  The older solver of src/Solver.py. \<open>pathString\<close> (lines 111-214) is the code of
  \<open>pathStringDP\<close> with two differences: its Case III loop has no \<open>return\<close>, so it splits
  every \<open>"UD"\<close> of the pattern (the loop is \<open>ps_loop\<close>, mutually recursive with the
  solver), and it returns nothing (its result is the memo dict and Python's \<open>None\<close>,
  the unit value). Its candidate loops are textually those of src/CleanSolution.py
  (lines 124-135, 141-152, 161-213), so they are the definitions \<open>caseI_ext\<close>,
  \<open>caseII_ext\<close>, \<open>caseIII_ext\<close> and \<open>extend_into\<close>; the classes \<open>Pt\<close> and
  \<open>LineSegment\<close> of Solver.py (lines 10-85) are those of the \<open>Geometry\<close> theory.
  \<open>solutions_all\<close> is the memo-free reference. The wrapper sorts the points by
  \<open>-y\<close>, highest first (line 216), and upper-cases the pattern. The batch driver
  \<open>bunchOfTrials\<close> (lines 266-290) is \<open>trials_loop\<close> and \<open>trial_sets\<close>.
  The lemmas: the reference is total and sound, the solver refines it (through the block
  lemma of \<open>MemoTable\<close>), the oracle bounds it, it contains the clean reference and
  equals it on patterns with at most one \<open>"UD"\<close> (\<open>ud_count\<close>), and the batch
  driver keeps every dict correct (\<open>trial_inv\<close>).
\<close>

function pathString :: "real \<Rightarrow> pt list \<Rightarrow> string \<Rightarrow> memo \<Rightarrow> (memo \<times> unit) res"
  and ps_loop :: "real \<Rightarrow> pt list \<Rightarrow> string \<Rightarrow> nat \<Rightarrow> memo \<Rightarrow> (memo \<times> unit) res" where
  "pathString eps points string solved0 =
    (let solved = solved0(string \<mapsto> []) in
     if length string = 1 then
       ebind (base_edge points string) (\<lambda>e. Inr (solved(string \<mapsto> [[e]]), ()))
     else if string = [] then Inl IndexError
     else
       ebind (if hd string = CHR ''D'' then
           ebind (ensure_solved (pathString eps (butlast points)) (tl string) solved) (\<lambda>solved1.
           ebind (dict_get solved1 (tl string)) (\<lambda>partialsolutions.
             extend_into (caseI_ext eps points) string partialsolutions solved1))
         else Inr solved) (\<lambda>solved2.
       ebind (if last string = CHR ''U'' then
           ebind (ensure_solved (pathString eps (butlast points)) (butlast string) solved2) (\<lambda>solved3.
           ebind (dict_get solved3 (butlast string)) (\<lambda>partialsolutions.
             extend_into (caseII_ext eps points) string partialsolutions solved3))
         else Inr solved2) (\<lambda>solved4.
       ps_loop eps points string 0 solved4)))"
| "ps_loop eps points string i solved =
    (if i + 1 < length string then
       (if string ! i = CHR ''U'' \<and> string ! (i + 1) = CHR ''D'' then
          ebind (ensure_solved (pathString eps (butlast points)) (collapse string i CHR ''U'') solved) (\<lambda>solved5.
          ebind (dict_get solved5 (collapse string i CHR ''U'')) (\<lambda>partialSolutions1.
          ebind (extend_into (caseIII_ext eps points i) string partialSolutions1 solved5) (\<lambda>solved6.
          ebind (ensure_solved (pathString eps (butlast points)) (collapse string i CHR ''D'') solved6) (\<lambda>solved7.
          ebind (dict_get solved7 (collapse string i CHR ''D'')) (\<lambda>partialSolutions2.
          ebind (extend_into (caseIII_ext eps points i) string partialSolutions2 solved7) (\<lambda>solved8.
            ps_loop eps points string (i + 1) solved8))))))
        else ps_loop eps points string (i + 1) solved)
     else Inr (solved, ()))"
  by pat_completeness auto
termination
  by (relation "measures
       [\<lambda>x. case x of Inl (e, p, s, m) \<Rightarrow> length s | Inr (e, p, s, i, m) \<Rightarrow> length s,
        \<lambda>x. case x of Inl (e, p, s, m) \<Rightarrow> Suc (length s) | Inr (e, p, s, i, m) \<Rightarrow> length s - i]")
     (auto simp: length_collapse)

declare pathString.simps [simp del] ps_loop.simps [simp del]

subsection \<open>The reference without memo table\<close>

function solutions_all :: "real \<Rightarrow> pt list \<Rightarrow> string \<Rightarrow> path list res"
  and sa_loop :: "real \<Rightarrow> pt list \<Rightarrow> string \<Rightarrow> nat \<Rightarrow> path list res" where
  "solutions_all eps points string =
    (if length string = 1 then ebind (base_edge points string) (\<lambda>e. Inr [[e]])
     else if string = [] then Inl IndexError
     else
       ebind (if hd string = CHR ''D'' then
           ebind (solutions_all eps (butlast points) (tl string)) (collect (caseI_ext eps points))
         else Inr []) (\<lambda>A.
       ebind (if last string = CHR ''U'' then
           ebind (solutions_all eps (butlast points) (butlast string)) (collect (caseII_ext eps points))
         else Inr []) (\<lambda>B.
       ebind (sa_loop eps points string 0) (\<lambda>C. Inr (A @ B @ C)))))"
| "sa_loop eps points string i =
    (if i + 1 < length string then
       (if string ! i = CHR ''U'' \<and> string ! (i + 1) = CHR ''D'' then
          ebind (solutions_all eps (butlast points) (collapse string i CHR ''U'')) (\<lambda>S1.
          ebind (collect (caseIII_ext eps points i) S1) (\<lambda>C1.
          ebind (solutions_all eps (butlast points) (collapse string i CHR ''D'')) (\<lambda>S2.
          ebind (collect (caseIII_ext eps points i) S2) (\<lambda>C2.
          ebind (sa_loop eps points string (i + 1)) (\<lambda>C. Inr (C1 @ C2 @ C))))))
        else sa_loop eps points string (i + 1))
     else Inr [])"
  by pat_completeness auto
termination
  by (relation "measures
       [\<lambda>x. case x of Inl (e, p, s) \<Rightarrow> length s | Inr (e, p, s, i) \<Rightarrow> length s,
        \<lambda>x. case x of Inl (e, p, s) \<Rightarrow> Suc (length s) | Inr (e, p, s, i) \<Rightarrow> length s - i]")
     (auto simp: length_collapse)

declare solutions_all.simps [simp del] sa_loop.simps [simp del]

subsection \<open>The wrappers\<close>

text \<open>\<open>str.upper\<close> on the ASCII letters (other characters are kept).\<close>

definition py_upper :: "char \<Rightarrow> char" where
  "py_upper c = (let n = (of_char c :: nat) in if 97 \<le> n \<and> n \<le> 122 then char_of (n - 32) else c)"

text \<open>
  Lines 215-221: sort by \<open>-y\<close> in place, solve on a fresh dict, return the first path
  (\<open>solved[string][0]\<close>); the file write is not modelled. The result carries the sorted
  point list.
\<close>

definition pathStringWrapper :: "real \<Rightarrow> pt list \<Rightarrow> string \<Rightarrow> (pt list \<times> path) res" where
  "pathStringWrapper eps points string =
     (let points = sort_key (\<lambda>p. -1 * pt_y p) points;
          string = map py_upper string
      in ebind (pathString eps points string Map.empty) (\<lambda>(solved, _).
         ebind (dict_get solved string) (\<lambda>sols.
         ebind (py_nth sols 0) (\<lambda>p. Inr (points, p)))))"

text \<open>Lines 223-229: solve into a caller's dict; the first reads \<open>solved[string]\<close> for its file line.\<close>

definition pathStringBulk :: "real \<Rightarrow> pt list \<Rightarrow> string \<Rightarrow> memo \<Rightarrow> memo res" where
  "pathStringBulk eps points string solved =
     ebind (pathString eps points string solved) (\<lambda>(solved', _).
     ebind (dict_get solved' string) (\<lambda>sols. Inr solved'))"

definition pathStringBulkNoWrite :: "real \<Rightarrow> pt list \<Rightarrow> string \<Rightarrow> memo \<Rightarrow> memo res" where
  "pathStringBulkNoWrite eps points string solved =
     ebind (pathString eps points string solved) (\<lambda>(solved', _). Inr solved')"

subsection \<open>The batch driver \<open>bunchOfTrials\<close>\<close>

text \<open>Python's \<open>min\<close> on a list: \<open>ValueError\<close> on the empty list.\<close>

definition py_min :: "nat list \<Rightarrow> nat res" where
  "py_min xs = (if xs = [] then Inl ValueError else Inr (Min (set xs)))"

text \<open>
  The inner loop of lines 281-288 over the point sets and their dicts (built of equal
  length, so \<open>solvedSets[i]\<close> is in range): solve into the set's own dict, record the
  number of paths; a set with none opens a window and displays \<open>pointSet[i]\<close>, a name
  that is not bound (\<open>NameError\<close>). The result is the updated dicts and \<open>arr\<close>.
\<close>

fun trial_sets :: "real \<Rightarrow> pt list list \<Rightarrow> memo list \<Rightarrow> string \<Rightarrow> (memo list \<times> nat list) res" where
  "trial_sets eps [] ms string = Inr ([], [])"
| "trial_sets eps (P # Ps) [] string = Inl IndexError"
| "trial_sets eps (P # Ps) (m # ms) string =
     ebind (pathStringBulkNoWrite eps P string m) (\<lambda>solved.
     ebind (dict_get solved string) (\<lambda>sols.
       if length sols = 0 then Inl NameError
       else ebind (trial_sets eps Ps ms string) (\<lambda>(ms', arr). Inr (solved # ms', length sols # arr))))"

text \<open>The loop over the patterns (lines 274-289, the pattern built as in \<open>pattern_of\<close>); a row is a line of the file.\<close>

fun trials_loop :: "real \<Rightarrow> nat \<Rightarrow> pt list list \<Rightarrow> nat list \<Rightarrow> memo list \<Rightarrow> (string \<times> nat) list
                      \<Rightarrow> (string \<times> nat) list res" where
  "trials_loop eps numPoints Ps [] ms rows = Inr rows"
| "trials_loop eps numPoints Ps (i # is) ms rows =
     (let string = pattern_of numPoints i in
      ebind (trial_sets eps Ps ms string) (\<lambda>(ms', arr).
      ebind (py_min arr) (\<lambda>mn. trials_loop eps numPoints Ps is ms' (rows @ [(string, mn)]))))"

text \<open>
  Lines 266-290. The point sets are a parameter (their random generation, lines 269-270,
  is not modelled; there are \<open>n = length pointSets\<close> of them); each is sorted highest
  first and gets a fresh dict.
\<close>

definition bunchOfTrials :: "real \<Rightarrow> nat \<Rightarrow> pt list list \<Rightarrow> (string \<times> nat) list res" where
  "bunchOfTrials eps numPoints pointSets =
     (let pointSets = map (sort_key (\<lambda>p. -1 * pt_y p)) pointSets;
          solvedSets = replicate (length pointSets) Map.empty
      in trials_loop eps numPoints pointSets (pattern_range numPoints) solvedSets [])"

text \<open>The number of paths the reference builds (0 where it raises).\<close>

definition sa_count :: "real \<Rightarrow> pt list \<Rightarrow> string \<Rightarrow> nat" where
  "sa_count eps points s = (case solutions_all eps points s of Inr sols \<Rightarrow> length sols | Inl e \<Rightarrow> 0)"

text \<open>The number of \<open>"UD"\<close>s of a pattern (a specification function).\<close>

fun ud_count :: "string \<Rightarrow> nat" where
  "ud_count (a # b # s) = (if a = CHR ''U'' \<and> b = CHR ''D'' then 1 else 0) + ud_count (b # s)"
| "ud_count _ = 0"

text \<open>
  A five-point set in general position (distinct heights, distinct abscissae, no three
  points collinear), sorted by height, on which the two solvers differ for \<open>"UDUD"\<close>
  (found by running both sources on random point sets).
\<close>

definition ex5 :: "pt list" where
  "ex5 = [Pt 5 0, Pt 1 1, Pt 0 2, Pt 2 3, Pt 3 4]"

lemmas legacy_eval_simps = pathString.simps ps_loop.simps dp_eval_simps

subsection \<open>The reference never raises on well-sized input\<close>

text \<open>The blocks of Cases I and II of both references, given the recursive results.\<close>

lemma block_total:
  assumes rec: "\<exists>S. r = Inr S \<and> (\<forall>p\<in>set S. length p = n)" and tot: "ext_total f n"
  shows "\<exists>A. ebind r (collect f) = Inr A \<and> (\<forall>p\<in>set A. length p = Suc n)"
  using rec collect_total [OF tot] by auto

lemma sa_loop_total:
  assumes rec: "\<And>s'. length s' + 1 = length s \<Longrightarrow> s' \<noteq> []
      \<Longrightarrow> \<exists>S. solutions_all eps (butlast points) s' = Inr S \<and> (\<forall>p\<in>set S. length p = length s - 1)"
    and pts: "points \<noteq> []"
  shows "\<exists>C. sa_loop eps points s i = Inr C \<and> (\<forall>p\<in>set C. length p = length s)"
proof (induction "length s - i" arbitrary: i rule: less_induct)
  case less
  show ?case
  proof (cases "i + 1 < length s")
    case False
    then show ?thesis by (simp add: sa_loop.simps [of eps points s i])
  next
    case True
    have "length s - (i + 1) < length s - i" using True by simp
    from less.hyps [OF this] obtain C' where C': "sa_loop eps points s (i + 1) = Inr C'"
      "\<forall>p\<in>set C'. length p = length s"
      by blast
    show ?thesis
    proof (cases "s ! i = CHR ''U'' \<and> s ! (i + 1) = CHR ''D''")
      case False
      have "sa_loop eps points s i = sa_loop eps points s (i + 1)"
        unfolding sa_loop.simps [of eps points s i] if_P [OF True] if_not_P [OF False] ..
      with C' show ?thesis by simp
    next
      case UD: True
      have lc: "length (collapse s i c) + 1 = length s" "collapse s i c \<noteq> []" for c
        using True by (auto simp: length_collapse collapse_def)
      have tot: "ext_total (caseIII_ext eps points i) (length s - 1)"
        using True pts by (intro caseIII_ext_total) auto
      have sl: "Suc (length s - 1) = length s" using True by simp
      obtain S1 S2 where S1: "solutions_all eps (butlast points) (collapse s i CHR ''U'') = Inr S1"
          "\<forall>p\<in>set S1. length p = length s - 1"
        and S2: "solutions_all eps (butlast points) (collapse s i CHR ''D'') = Inr S2"
          "\<forall>p\<in>set S2. length p = length s - 1"
        using rec [OF lc] by blast
      obtain C1 C2 where C1: "collect (caseIII_ext eps points i) S1 = Inr C1" "\<forall>q\<in>set C1. length q = length s"
        and C2: "collect (caseIII_ext eps points i) S2 = Inr C2" "\<forall>q\<in>set C2. length q = length s"
        using collect_total [OF tot S1(2)] collect_total [OF tot S2(2)] sl by auto
      have "sa_loop eps points s i = Inr (C1 @ C2 @ C')"
        unfolding sa_loop.simps [of eps points s i] if_P [OF True] if_P [OF UD] S1(1) S2(1) C1(1) C2(1)
          ebind_Inr C'(1) ..
      with C1 C2 C' show ?thesis by auto
    qed
  qed
qed

lemma solutions_all_total:
  "s \<noteq> [] \<Longrightarrow> length points = length s + 1 \<Longrightarrow>
   \<exists>sols. solutions_all eps points s = Inr sols \<and> (\<forall>p\<in>set sols. length p = length s)"
proof (induction "length s" arbitrary: s points rule: less_induct)
  case less
  show ?case
  proof (cases "length s = 1")
    case True
    with less.prems base_edge_total [of points s] show ?thesis
      by (auto simp: solutions_all.simps [of eps points s])
  next
    case False
    have "length s \<noteq> 0" using less.prems(1) by simp
    with False have two: "2 \<le> length s" by linarith
    have pts: "points \<noteq> []" using less.prems(2) by auto
    have rec: "\<exists>S. solutions_all eps (butlast points) s' = Inr S \<and> (\<forall>p\<in>set S. length p = length s - 1)"
      if "length s' + 1 = length s" "s' \<noteq> []" for s'
      using less.hyps [of s' "butlast points"] that less.prems(2) by auto
    have sl: "Suc (length s - 1) = length s" using two by simp
    have n0: "0 < length s - 1" using two by simp
    have lt: "length (tl s) + 1 = length s" "tl s \<noteq> []" "length (butlast s) + 1 = length s" "butlast s \<noteq> []"
      using two by (auto simp flip: length_0_conv)
    obtain A where A: "(if hd s = CHR ''D'' then ebind (solutions_all eps (butlast points) (tl s))
        (collect (caseI_ext eps points)) else Inr []) = Inr A" "\<forall>p\<in>set A. length p = length s"
      using block_total [OF rec [OF lt(1,2)] caseI_ext_total [OF n0 pts]] sl by (cases "hd s = CHR ''D''") auto
    obtain B where B: "(if last s = CHR ''U'' then ebind (solutions_all eps (butlast points) (butlast s))
        (collect (caseII_ext eps points)) else Inr []) = Inr B" "\<forall>p\<in>set B. length p = length s"
      using block_total [OF rec [OF lt(3,4)] caseII_ext_total [OF n0 pts]] sl by (cases "last s = CHR ''U''") auto
    obtain C where C: "sa_loop eps points s 0 = Inr C" "\<forall>p\<in>set C. length p = length s"
      using sa_loop_total [OF rec pts] by blast
    have "solutions_all eps points s = Inr (A @ B @ C)"
      unfolding solutions_all.simps [of eps points s] if_not_P [OF False] if_not_P [OF less.prems(1)]
        A(1) B(1) C(1) ebind_Inr ..
    with A(2) B(2) C(2) show ?thesis by auto
  qed
qed

subsection \<open>Every path the reference builds is a solution\<close>

lemma solutions_all_InrE:
  assumes "solutions_all eps points s = Inr sols" "length s \<noteq> 1" "s \<noteq> []"
  obtains A B C where "sols = A @ B @ C"
    and "(if hd s = CHR ''D'' then ebind (solutions_all eps (butlast points) (tl s))
           (collect (caseI_ext eps points)) else Inr []) = Inr A"
    and "(if last s = CHR ''U'' then ebind (solutions_all eps (butlast points) (butlast s))
           (collect (caseII_ext eps points)) else Inr []) = Inr B"
    and "sa_loop eps points s 0 = Inr C"
  using assms unfolding solutions_all.simps [of eps points s] if_not_P [OF assms(2)] if_not_P [OF assms(3)]
  by (auto simp: ebind_eq_Inr)

text \<open>The Case I and Case II blocks keep soundness, whatever computed the sub-solutions.\<close>

lemma blockI_sound:
  assumes A: "ebind r (collect (caseI_ext eps points)) = Inr A"
    and rec: "\<And>S. r = Inr S \<Longrightarrow> \<forall>p\<in>set S. path_ok eps (butlast points) (tl s) p"
    and hs: "heights_sorted points" and D: "hd s = CHR ''D''" and ne: "s \<noteq> []"
  shows "\<forall>q\<in>set A. path_ok eps points s q"
proof -
  from A obtain S where S: "r = Inr S" and col: "collect (caseI_ext eps points) S = Inr A"
    by (auto simp: ebind_eq_Inr)
  have "\<forall>p\<in>set S. \<forall>q. caseI_ext eps points p = Inr (Some q) \<longrightarrow> path_ok eps points s q"
    using rec [OF S] hs D ne by (blast intro: caseI_ext_sound)
  with col show ?thesis by (rule collect_sound)
qed

lemma blockII_sound:
  assumes B: "ebind r (collect (caseII_ext eps points)) = Inr B"
    and rec: "\<And>S. r = Inr S \<Longrightarrow> \<forall>p\<in>set S. path_ok eps (butlast points) (butlast s) p"
    and hs: "heights_sorted points" and U: "last s = CHR ''U''" and ne: "s \<noteq> []"
  shows "\<forall>q\<in>set B. path_ok eps points s q"
proof -
  from B obtain S where S: "r = Inr S" and col: "collect (caseII_ext eps points) S = Inr B"
    by (auto simp: ebind_eq_Inr)
  have "\<forall>p\<in>set S. \<forall>q. caseII_ext eps points p = Inr (Some q) \<longrightarrow> path_ok eps points s q"
    using rec [OF S] hs U ne by (blast intro: caseII_ext_sound)
  with col show ?thesis by (rule collect_sound)
qed

lemma sa_loop_sound:
  assumes rec: "\<And>s' S. solutions_all eps (butlast points) s' = Inr S \<Longrightarrow> length s' + 1 = length s
      \<Longrightarrow> set s' \<subseteq> {CHR ''U'', CHR ''D''} \<Longrightarrow> \<forall>p\<in>set S. path_ok eps (butlast points) s' p"
    and hs: "heights_sorted points" and ud: "set s \<subseteq> {CHR ''U'', CHR ''D''}"
  shows "sa_loop eps points s i = Inr C \<Longrightarrow> \<forall>q\<in>set C. path_ok eps points s q"
proof (induction "length s - i" arbitrary: i C rule: less_induct)
  case less
  show ?case
  proof (cases "i + 1 < length s")
    case False
    with less.prems show ?thesis by (simp add: sa_loop.simps [of eps points s i])
  next
    case True
    have dec: "length s - (i + 1) < length s - i" using True by simp
    show ?thesis
    proof (cases "s ! i = CHR ''U'' \<and> s ! (i + 1) = CHR ''D''")
      case False
      have "sa_loop eps points s i = sa_loop eps points s (i + 1)"
        unfolding sa_loop.simps [of eps points s i] if_P [OF True] if_not_P [OF False] ..
      with less.prems show ?thesis using less.hyps [OF dec] by simp
    next
      case UD: True
      from less.prems obtain S1 C1 S2 C2 C' where
        S1: "solutions_all eps (butlast points) (collapse s i CHR ''U'') = Inr S1"
        and C1: "collect (caseIII_ext eps points i) S1 = Inr C1"
        and S2: "solutions_all eps (butlast points) (collapse s i CHR ''D'') = Inr S2"
        and C2: "collect (caseIII_ext eps points i) S2 = Inr C2"
        and C': "sa_loop eps points s (i + 1) = Inr C'" and CC: "C = C1 @ C2 @ C'"
        unfolding sa_loop.simps [of eps points s i] if_P [OF True] if_P [OF UD]
        by (auto simp: ebind_eq_Inr)
      have part: "\<forall>q\<in>set Cs. path_ok eps points s q"
        if Sc: "solutions_all eps (butlast points) (collapse s i c) = Inr Sc"
          and Cc: "collect (caseIII_ext eps points i) Sc = Inr Cs" and c: "c \<in> {CHR ''U'', CHR ''D''}" for c Sc Cs
      proof -
        have "set (collapse s i c) \<subseteq> {CHR ''U'', CHR ''D''}" using set_collapse [of s i c] ud c by auto
        with Sc True have "\<forall>p\<in>set Sc. path_ok eps (butlast points) (collapse s i c) p"
          by (intro rec) (auto simp: length_collapse)
        with True UD hs have "\<forall>p\<in>set Sc. \<forall>q. caseIII_ext eps points i p = Inr (Some q) \<longrightarrow> path_ok eps points s q"
          by (blast intro: caseIII_ext_sound)
        with Cc show ?thesis by (rule collect_sound)
      qed
      show ?thesis using part [OF S1 C1] part [OF S2 C2] less.hyps [OF dec C'] CC by auto
    qed
  qed
qed

lemma solutions_all_paths_ok:
  "solutions_all eps points s = Inr sols \<Longrightarrow> length points = length s + 1 \<Longrightarrow> heights_sorted points
   \<Longrightarrow> set s \<subseteq> {CHR ''U'', CHR ''D''} \<Longrightarrow> \<forall>p\<in>set sols. path_ok eps points s p"
proof (induction "length s" arbitrary: s points sols rule: less_induct)
  case less
  show ?case
  proof (cases "length s = 1")
    case True
    have "solutions_all eps points s = solutions eps points s"
      unfolding solutions_all.simps [of eps points s] solutions.simps [of eps points s] if_P [OF True] ..
    with less.prems(1) have "solutions eps points s = Inr sols" by simp
    with less.prems True show ?thesis by (intro solutions_base_sound) auto
  next
    case False
    have ne: "s \<noteq> []" using less.prems(1) by (auto simp: solutions_all.simps [of eps points s])
    have hs': "heights_sorted (butlast points)" using less.prems(3) by (rule heights_sorted_butlast)
    have rec: "\<forall>p\<in>set S. path_ok eps (butlast points) s' p"
      if "solutions_all eps (butlast points) s' = Inr S" "length s' + 1 = length s"
        "set s' \<subseteq> {CHR ''U'', CHR ''D''}" for s' S
      using less.hyps [of s' "butlast points" S] that hs' less.prems(2) by simp
    obtain A B C where sols: "sols = A @ B @ C"
      and A: "(if hd s = CHR ''D'' then ebind (solutions_all eps (butlast points) (tl s))
           (collect (caseI_ext eps points)) else Inr []) = Inr A"
      and B: "(if last s = CHR ''U'' then ebind (solutions_all eps (butlast points) (butlast s))
           (collect (caseII_ext eps points)) else Inr []) = Inr B"
      and C: "sa_loop eps points s 0 = Inr C"
      using solutions_all_InrE [OF less.prems(1) False ne] by blast
    have "\<forall>q\<in>set A. path_ok eps points s q"
    proof (cases "hd s = CHR ''D''")
      case True
      have "set (tl s) \<subseteq> {CHR ''U'', CHR ''D''}" using less.prems(4) ne by (cases s) auto
      moreover have "length (tl s) + 1 = length s" using ne by simp
      ultimately have "\<And>S. solutions_all eps (butlast points) (tl s) = Inr S \<Longrightarrow> \<forall>p\<in>set S. path_ok eps (butlast points) (tl s) p"
        using rec by blast
      with A True show ?thesis by (intro blockI_sound [OF _ _ less.prems(3) _ ne]) simp_all
    qed (use A in simp)
    moreover have "\<forall>q\<in>set B. path_ok eps points s q"
    proof (cases "last s = CHR ''U''")
      case True
      have "set (butlast s) \<subseteq> {CHR ''U'', CHR ''D''}" using less.prems(4) by (auto dest: in_set_butlastD)
      moreover have "length (butlast s) + 1 = length s" using ne by simp
      ultimately have "\<And>S. solutions_all eps (butlast points) (butlast s) = Inr S \<Longrightarrow> \<forall>p\<in>set S. path_ok eps (butlast points) (butlast s) p"
        using rec by blast
      with B True show ?thesis by (intro blockII_sound [OF _ _ less.prems(3) _ ne]) simp_all
    qed (use B in simp)
    moreover have "\<forall>q\<in>set C. path_ok eps points s q"
      using sa_loop_sound [OF rec less.prems(3,4) C] .
    ultimately show ?thesis by (auto simp: sols)
  qed
qed

subsection \<open>The solver computes the reference\<close>

text \<open>The loop over the \<open>"UD"\<close>s appends, position after position, what the reference's loop collects.\<close>

lemma ps_loop_ok:
  assumes IH: "\<And>p m'. length p + 1 = length s \<Longrightarrow> p \<noteq> [] \<Longrightarrow> memo_ok solutions_all eps P (length p) (m'(p := None))
      \<Longrightarrow> dp_spec solutions_all eps P p m' (pathString eps (take (length p + 1) P) p m')"
    and lenP: "length s < length P" and pts: "points = take (length s + 1) P"
  shows "stage_ok solutions_all eps P s m0 m \<Longrightarrow> m s = Some cur \<Longrightarrow> sa_loop eps points s i = Inr C
    \<Longrightarrow> \<exists>m'. ps_loop eps points s i m = Inr (m', ()) \<and> m' s = Some (cur @ C)
        \<and> stage_ok solutions_all eps P s m0 m'"
proof (induction "length s - i" arbitrary: i m cur C rule: less_induct)
  case less
  show ?case
  proof (cases "i + 1 < length s")
    case False
    with less.prems show ?thesis
      by (simp add: ps_loop.simps [of eps points s i m] sa_loop.simps [of eps points s i])
  next
    case True
    have dec: "length s - (i + 1) < length s - i" using True by simp
    show ?thesis
    proof (cases "s ! i = CHR ''U'' \<and> s ! (i + 1) = CHR ''D''")
      case False
      have "ps_loop eps points s i m = ps_loop eps points s (i + 1) m"
        unfolding ps_loop.simps [of eps points s i m] if_P [OF True] if_not_P [OF False] ..
      moreover have "sa_loop eps points s i = sa_loop eps points s (i + 1)"
        unfolding sa_loop.simps [of eps points s i] if_P [OF True] if_not_P [OF False] ..
      ultimately show ?thesis using less.hyps [OF dec less.prems(1,2)] less.prems(3) by simp
    next
      case UD: True
      have lc: "length (collapse s i c) + 1 = length s" "collapse s i c \<noteq> []" for c
        using True by (auto simp: length_collapse collapse_def)
      have bp: "butlast points = take (length (collapse s i c) + 1) P" for c
        using lc(1) [of c] lenP by (simp add: pts butlast_take)
      from less.prems(3) obtain S1 C1 S2 C2 C' where
        S1: "solutions_all eps (butlast points) (collapse s i CHR ''U'') = Inr S1"
        and C1: "collect (caseIII_ext eps points i) S1 = Inr C1"
        and S2: "solutions_all eps (butlast points) (collapse s i CHR ''D'') = Inr S2"
        and C2: "collect (caseIII_ext eps points i) S2 = Inr C2"
        and C': "sa_loop eps points s (i + 1) = Inr C'" and CC: "C = C1 @ C2 @ C'"
        unfolding sa_loop.simps [of eps points s i] if_P [OF True] if_P [OF UD]
        by (auto simp: ebind_eq_Inr)
      obtain m6 where b1: "ebind (ensure_solved (pathString eps (butlast points)) (collapse s i CHR ''U'') m)
          (\<lambda>solved5. ebind (dict_get solved5 (collapse s i CHR ''U'')) (\<lambda>partialSolutions1.
          ebind (extend_into (caseIII_ext eps points i) s partialSolutions1 solved5) (\<lambda>solved6.
          ebind (ensure_solved (pathString eps (butlast points)) (collapse s i CHR ''D'') solved6) (\<lambda>solved7.
          ebind (dict_get solved7 (collapse s i CHR ''D'')) (\<lambda>partialSolutions2.
          ebind (extend_into (caseIII_ext eps points i) s partialSolutions2 solved7) (\<lambda>solved8.
            ps_loop eps points s (i + 1) solved8))))))
        = ebind (ensure_solved (pathString eps (butlast points)) (collapse s i CHR ''D'') m6) (\<lambda>solved7.
          ebind (dict_get solved7 (collapse s i CHR ''D'')) (\<lambda>partialSolutions2.
          ebind (extend_into (caseIII_ext eps points i) s partialSolutions2 solved7) (\<lambda>solved8.
            ps_loop eps points s (i + 1) solved8)))"
        and m6s: "m6 s = Some (cur @ C1)" and st6: "stage_ok solutions_all eps P s m0 m6"
        using dp_block [where rec = "pathString eps", OF less.prems(1,2) lc lenP IH [OF lc] bp S1 C1] by auto
      obtain m8 where b2: "ebind (ensure_solved (pathString eps (butlast points)) (collapse s i CHR ''D'') m6) (\<lambda>solved7.
          ebind (dict_get solved7 (collapse s i CHR ''D'')) (\<lambda>partialSolutions2.
          ebind (extend_into (caseIII_ext eps points i) s partialSolutions2 solved7) (\<lambda>solved8.
            ps_loop eps points s (i + 1) solved8))) = ps_loop eps points s (i + 1) m8"
        and m8s: "m8 s = Some ((cur @ C1) @ C2)" and st8: "stage_ok solutions_all eps P s m0 m8"
        using dp_block [where rec = "pathString eps", OF st6 m6s lc lenP IH [OF lc] bp S2 C2] by auto
      obtain m' where r: "ps_loop eps points s (i + 1) m8 = Inr (m', ())"
        and m's: "m' s = Some (((cur @ C1) @ C2) @ C')" and st': "stage_ok solutions_all eps P s m0 m'"
        using less.hyps [OF dec st8 m8s C'] by blast
      have "ps_loop eps points s i m = Inr (m', ())"
        unfolding ps_loop.simps [of eps points s i m] if_P [OF True] if_P [OF UD] b1 b2 r ..
      with m's st' CC show ?thesis by auto
    qed
  qed
qed

lemma pathString_dp_spec:
  "s \<noteq> [] \<Longrightarrow> length s < length P \<Longrightarrow> memo_ok solutions_all eps P (length s) (m(s := None))
   \<Longrightarrow> dp_spec solutions_all eps P s m (pathString eps (take (length s + 1) P) s m)"
proof (induction "length s" arbitrary: s m rule: less_induct)
  case less
  define points where "points = take (length s + 1) P"
  have lp: "length points = length s + 1" using less.prems(2) by (simp add: points_def)
  have IH: "\<And>m'. memo_ok solutions_all eps P (length p) (m'(p := None))
      \<Longrightarrow> dp_spec solutions_all eps P p m' (pathString eps (take (length p + 1) P) p m')"
    if "length p + 1 = length s" "p \<noteq> []" for p
    using less.hyps [of p] that less.prems(2) by auto
  have bp: "butlast points = take (length p + 1) P" if "length p + 1 = length s" for p :: string
    using that less.prems(2) by (simp add: points_def butlast_take)
  obtain sols where sols: "solutions_all eps points s = Inr sols"
    using solutions_all_total [OF less.prems(1) lp] by blast
  have st0: "stage_ok solutions_all eps P s m (m(s \<mapsto> []))"
    using less.prems(3) by (rule stage_ok_init)
  show ?case
  proof (cases "length s = 1")
    case True
    from sols obtain e where e: "base_edge points s = Inr e" and se: "sols = [[e]]"
      by (auto simp: solutions_all.simps [of eps points s] True ebind_eq_Inr)
    have run: "pathString eps points s m = Inr ((m(s \<mapsto> []))(s \<mapsto> [[e]]), ())"
      by (simp add: pathString.simps [of eps points s m] True e)
    have "stage_ok solutions_all eps P s m ((m(s \<mapsto> []))(s \<mapsto> [[e]]))"
      using st0 by (simp add: stage_ok_def)
    with run sols se less.prems(1,2) show ?thesis
      unfolding points_def by (auto intro: stage_ok_dp_spec)
  next
    case False
    have "length s \<noteq> 0" using less.prems(1) by simp
    with False have two: "2 \<le> length s" by linarith
    obtain A B C where sABC: "sols = A @ B @ C"
      and A: "(if hd s = CHR ''D'' then ebind (solutions_all eps (butlast points) (tl s))
           (collect (caseI_ext eps points)) else Inr []) = Inr A"
      and B: "(if last s = CHR ''U'' then ebind (solutions_all eps (butlast points) (butlast s))
           (collect (caseII_ext eps points)) else Inr []) = Inr B"
      and C: "sa_loop eps points s 0 = Inr C"
      using solutions_all_InrE [OF sols False less.prems(1)] by blast
    have lt: "length (tl s) + 1 = length s" "tl s \<noteq> []" "length (butlast s) + 1 = length s" "butlast s \<noteq> []"
      using two by (auto simp flip: length_0_conv)
    obtain m2 where m2: "(if hd s = CHR ''D'' then
           ebind (ensure_solved (pathString eps (butlast points)) (tl s) (m(s \<mapsto> []))) (\<lambda>solved1.
           ebind (dict_get solved1 (tl s)) (\<lambda>partialsolutions.
             extend_into (caseI_ext eps points) s partialsolutions solved1))
         else Inr (m(s \<mapsto> []))) = Inr m2" and m2s: "m2 s = Some A" and st2: "stage_ok solutions_all eps P s m m2"
    proof (cases "hd s = CHR ''D''")
      case True
      with A obtain S where "solutions_all eps (butlast points) (tl s) = Inr S"
          "collect (caseI_ext eps points) S = Inr A" by (auto simp: ebind_eq_Inr)
      from dp_block_last [where rec = "pathString eps", OF st0 _ lt(1,2) less.prems(2) IH [OF lt(1,2)] bp [OF lt(1)] this]
      show ?thesis using True that by auto
    qed (use A st0 that in auto)
    obtain m3 where m3: "(if last s = CHR ''U'' then
           ebind (ensure_solved (pathString eps (butlast points)) (butlast s) m2) (\<lambda>solved3.
           ebind (dict_get solved3 (butlast s)) (\<lambda>partialsolutions.
             extend_into (caseII_ext eps points) s partialsolutions solved3))
         else Inr m2) = Inr m3" and m3s: "m3 s = Some (A @ B)" and st3: "stage_ok solutions_all eps P s m m3"
    proof (cases "last s = CHR ''U''")
      case True
      with B obtain S where "solutions_all eps (butlast points) (butlast s) = Inr S"
          "collect (caseII_ext eps points) S = Inr B" by (auto simp: ebind_eq_Inr)
      from dp_block_last [where rec = "pathString eps", OF st2 m2s lt(3,4) less.prems(2) IH [OF lt(3,4)] bp [OF lt(3)] this]
      show ?thesis using True that by auto
    qed (use B m2s st2 that in auto)
    obtain m4 where m4: "ps_loop eps points s 0 m3 = Inr (m4, ())" and m4s: "m4 s = Some (A @ B @ C)"
      and st4: "stage_ok solutions_all eps P s m m4"
      using ps_loop_ok [OF IH less.prems(2) points_def st3 m3s C] by auto
    have "pathString eps points s m = Inr (m4, ())"
      unfolding pathString.simps [of eps points s m] Let_def if_not_P [OF False]
        if_not_P [OF less.prems(1)] m2 ebind_Inr m3 m4 ..
    with m4s st4 sols sABC less.prems(1,2) show ?thesis
      unfolding points_def by (auto intro: stage_ok_dp_spec)
  qed
qed

subsection \<open>One point too many: the third point is skipped\<close>

text \<open>
  The candidate loops read the point list only through \<open>points[-1]\<close>, and the base case
  only through \<open>points[0]\<close> and \<open>points[1]\<close>. Called with two points more than letters,
  the solver recurses on \<open>points[:-1]\<close> down to the base case, whose third point is never
  read: it computes what it computes on the list without its third point.
\<close>

lemma ext_py_last_cong:
  assumes "py_last P = py_last P'"
  shows "caseI_ext eps P = caseI_ext eps P'" "caseII_ext eps P = caseII_ext eps P'"
    "caseIII_ext eps P i = caseIII_ext eps P' i"
  unfolding caseI_ext_def [abs_def] caseII_ext_def [abs_def] caseIII_ext_def [abs_def] assms by (rule refl)+

lemma skip3_facts:
  assumes "4 \<le> length P"
  shows "py_last (take 2 P @ drop 3 P) = py_last P"
    "butlast (take 2 P @ drop 3 P) = take 2 (butlast P) @ drop 3 (butlast P)"
proof -
  have "P \<noteq> []" "drop 3 P \<noteq> []" "take 2 (butlast P) = take 2 P" using assms by (auto simp: take_butlast)
  then show "py_last (take 2 P @ drop 3 P) = py_last P"
    "butlast (take 2 P @ drop 3 P) = take 2 (butlast P) @ drop 3 (butlast P)"
    using assms by (simp_all add: py_last_def last_drop butlast_append butlast_drop)
qed

lemma pathString_skip3:
  "length P = length s + 2 \<Longrightarrow> pathString eps P s m = pathString eps (take 2 P @ drop 3 P) s m
     \<and> (\<forall>i m'. ps_loop eps P s i m' = ps_loop eps (take 2 P @ drop 3 P) s i m')"
proof (induction "length s" arbitrary: s P m rule: less_induct)
  case less
  define Q where "Q = take 2 P @ drop 3 P"
  show ?case
  proof (cases "2 \<le> length s")
    case False
    have loop: "ps_loop eps P s i m' = ps_loop eps Q s i m'" for i m'
      using False by (simp add: ps_loop.simps [of eps P s i m'] ps_loop.simps [of eps Q s i m'])
    have "pathString eps P s m = pathString eps Q s m"
    proof (cases "s = []")
      case True
      then show ?thesis by (simp add: pathString.simps [of eps P "[]"] pathString.simps [of eps Q "[]"] Let_def)
    next
      case ne: False
      then have "length s \<noteq> 0" by simp
      with False have "length s = 1" by linarith
      moreover have "length P = 3" using less.prems \<open>length s = 1\<close> by simp
      ultimately show ?thesis unfolding pathString.simps [of eps P s] pathString.simps [of eps Q s]
        by (simp add: Q_def base_edge_def py_nth_def nth_append)
    qed
    with loop show ?thesis by (simp add: Q_def)
  next
    case True
    then have l4: "4 \<le> length P" using less.prems by simp
    note f = skip3_facts [OF l4, folded Q_def]
    have ens: "ensure_solved (pathString eps (butlast P)) p m' = ensure_solved (pathString eps (butlast Q)) p m'"
      if "length p + 1 = length s" for p m'
    proof -
      have "length (butlast P) = length p + 2" using less.prems that by simp
      from less.hyps [of p "butlast P" m', OF _ this] that
      have "pathString eps (butlast P) p m' = pathString eps (butlast Q) p m'" by (simp add: f(2))
      then show ?thesis by (simp add: ensure_solved_def)
    qed
    have ext: "caseI_ext eps P = caseI_ext eps Q" "caseII_ext eps P = caseII_ext eps Q"
      "\<And>i. caseIII_ext eps P i = caseIII_ext eps Q i"
      using ext_py_last_cong [OF f(1) [symmetric]] by simp_all
    have loop: "ps_loop eps P s i m' = ps_loop eps Q s i m'" for i m'
    proof (induction "length s - i" arbitrary: i m' rule: less_induct)
      case less
      show ?case
      proof (cases "i + 1 < length s")
        case False
        then show ?thesis by (simp add: ps_loop.simps [of eps P s i m'] ps_loop.simps [of eps Q s i m'])
      next
        case i: True
        have "ps_loop eps P s (i + 1) m2 = ps_loop eps Q s (i + 1) m2" for m2
          using less.hyps [of "i + 1"] i by simp
        then have IH: "ps_loop eps P s (Suc i) = ps_loop eps Q s (Suc i)" by (simp add: fun_eq_iff)
        have lc: "length (collapse s i c) + 1 = length s" for c using i True by (simp add: length_collapse)
        show ?thesis
          by (simp add: ps_loop.simps [of eps P s i m'] ps_loop.simps [of eps Q s i m'] ens [OF lc] ext IH
              del: ebind_Inr)
      qed
    qed
    have loop0: "ps_loop eps P s 0 = ps_loop eps Q s 0" by (simp add: fun_eq_iff loop)
    have ltb: "length (tl s) + 1 = length s" "length (butlast s) + 1 = length s" using True by auto
    have "pathString eps P s m = pathString eps Q s m"
      using True by (simp add: pathString.simps [of eps P s] pathString.simps [of eps Q s] Let_def
          ens [OF ltb(1)] ens [OF ltb(2)] ext loop0)
    with loop show ?thesis by (simp add: Q_def)
  qed
qed

subsection \<open>The oracle bounds the reference\<close>

text \<open>
  \<open>partialOrderings\<close> has the recursion of this solver, every \<open>"UD"\<close> included, and counts
  each candidate as kept: position by position the loop keeps at most \<open>ud_term\<close> paths.
\<close>

lemma sa_loop_length_le:
  assumes rec: "\<And>s' S. solutions_all eps (butlast points) s' = Inr S \<Longrightarrow> length s' < length s \<Longrightarrow> length S \<le> po_count s'"
  shows "sa_loop eps points s i = Inr C \<Longrightarrow> length C \<le> sum_list (map (ud_term s) [i..<length s - 1])"
proof (induction "length s - i" arbitrary: i C rule: less_induct)
  case less
  show ?case
  proof (cases "i + 1 < length s")
    case False
    with less.prems show ?thesis by (simp add: sa_loop.simps [of eps points s i])
  next
    case True
    have dec: "length s - (i + 1) < length s - i" using True by simp
    have up: "sum_list (map (ud_term s) [i..<length s - 1])
        = ud_term s i + sum_list (map (ud_term s) [i + 1..<length s - 1])"
      using True by (simp add: upt_conv_Cons)
    show ?thesis
    proof (cases "s ! i = CHR ''U'' \<and> s ! (i + 1) = CHR ''D''")
      case False
      have "sa_loop eps points s i = sa_loop eps points s (i + 1)"
        unfolding sa_loop.simps [of eps points s i] if_P [OF True] if_not_P [OF False] ..
      moreover have "ud_term s i = 0" unfolding ud_term_def using False by (rule if_not_P)
      ultimately show ?thesis using less.hyps [OF dec] less.prems unfolding up by simp
    next
      case UD: True
      from less.prems obtain S1 C1 S2 C2 C' where
        S1: "solutions_all eps (butlast points) (collapse s i CHR ''U'') = Inr S1"
        and C1: "collect (caseIII_ext eps points i) S1 = Inr C1"
        and S2: "solutions_all eps (butlast points) (collapse s i CHR ''D'') = Inr S2"
        and C2: "collect (caseIII_ext eps points i) S2 = Inr C2"
        and C': "sa_loop eps points s (i + 1) = Inr C'" and CC: "C = C1 @ C2 @ C'"
        unfolding sa_loop.simps [of eps points s i] if_P [OF True] if_P [OF UD]
        by (auto simp: ebind_eq_Inr)
      have lc: "length (collapse s i c) < length s" for c using True by (simp add: length_collapse)
      have "length C1 \<le> po_count (collapse s i CHR ''U'')"
        using length_collect [OF C1] rec [OF S1 lc] by simp
      moreover have "length C2 \<le> po_count (collapse s i CHR ''D'')"
        using length_collect [OF C2] rec [OF S2 lc] by simp
      moreover have "ud_term s i = po_count (collapse s i CHR ''U'') + po_count (collapse s i CHR ''D'')"
        using UD by (simp add: ud_term_def)
      ultimately show ?thesis using less.hyps [OF dec C'] CC unfolding up by simp
    qed
  qed
qed

lemma solutions_all_length_le:
  "solutions_all eps points s = Inr sols \<Longrightarrow> length sols \<le> po_count s"
proof (induction "length s" arbitrary: s points sols rule: less_induct)
  case less
  show ?case
  proof (cases "length s = 1")
    case True
    with less.prems show ?thesis
      by (auto simp: solutions_all.simps [of eps points s] po_count.simps [of s] ebind_eq_Inr)
  next
    case False
    have ne: "s \<noteq> []" using less.prems by (auto simp: solutions_all.simps [of eps points s])
    have rec: "length S \<le> po_count s'" if "solutions_all eps (butlast points) s' = Inr S" "length s' < length s"
      for s' S using less.hyps [OF that(2) that(1)] .
    obtain A B C where sols: "sols = A @ B @ C"
      and A: "(if hd s = CHR ''D'' then ebind (solutions_all eps (butlast points) (tl s))
           (collect (caseI_ext eps points)) else Inr []) = Inr A"
      and B: "(if last s = CHR ''U'' then ebind (solutions_all eps (butlast points) (butlast s))
           (collect (caseII_ext eps points)) else Inr []) = Inr B"
      and C: "sa_loop eps points s 0 = Inr C"
      using solutions_all_InrE [OF less.prems False ne] by blast
    have lA: "length A \<le> (if hd s = CHR ''D'' then po_count (tl s) else 0)"
      using A ne by (auto simp: ebind_eq_Inr dest!: length_collect rec split: if_splits)
    have lB: "length B \<le> (if last s = CHR ''U'' then po_count (butlast s) else 0)"
      using B ne by (auto simp: ebind_eq_Inr dest!: length_collect rec split: if_splits)
    show ?thesis
      using lA lB sa_loop_length_le [OF rec C] po_count_step [OF False ne] sols by simp
  qed
qed

subsection \<open>The reference keeps every path of the clean solver\<close>

lemma set_collect: "collect f ps = Inr qs \<Longrightarrow> set qs = {q. \<exists>p\<in>set ps. f p = Inr (Some q)}"
proof (induction ps arbitrary: qs)
  case (Cons p ps)
  then show ?case by (auto simp: ebind_eq_Inr split: option.splits)
qed simp

lemma collect_mono:
  "collect f S = Inr A \<Longrightarrow> collect f S' = Inr A' \<Longrightarrow> set S \<subseteq> set S' \<Longrightarrow> set A \<subseteq> set A'"
  using set_collect [of f S A] set_collect [of f S' A'] by blast

text \<open>The loop reaches every \<open>"UD"\<close> from its start on and keeps what that position builds.\<close>

lemma sa_loop_covers:
  assumes "j + 1 < length s" "s ! j = CHR ''U''" "s ! (j + 1) = CHR ''D''"
  shows "sa_loop eps points s i = Inr C \<Longrightarrow> i \<le> j \<Longrightarrow>
    \<exists>S1 C1 S2 C2. solutions_all eps (butlast points) (collapse s j CHR ''U'') = Inr S1
      \<and> collect (caseIII_ext eps points j) S1 = Inr C1
      \<and> solutions_all eps (butlast points) (collapse s j CHR ''D'') = Inr S2
      \<and> collect (caseIII_ext eps points j) S2 = Inr C2 \<and> set C1 \<union> set C2 \<subseteq> set C"
proof (induction "length s - i" arbitrary: i C rule: less_induct)
  case less
  have i: "i + 1 < length s" using less.prems(2) assms(1) by simp
  have dec: "length s - (i + 1) < length s - i" using i by simp
  show ?case
  proof (cases "s ! i = CHR ''U'' \<and> s ! (i + 1) = CHR ''D''")
    case False
    then have ij: "i + 1 \<le> j" using less.prems(2) assms(2,3) by (cases "i = j") auto
    have "sa_loop eps points s i = sa_loop eps points s (i + 1)"
      unfolding sa_loop.simps [of eps points s i] if_P [OF i] if_not_P [OF False] ..
    then show ?thesis using less.hyps [OF dec _ ij] less.prems(1) by simp
  next
    case UD: True
    from less.prems(1) obtain S1 C1 S2 C2 C' where
      S1: "solutions_all eps (butlast points) (collapse s i CHR ''U'') = Inr S1"
      and C1: "collect (caseIII_ext eps points i) S1 = Inr C1"
      and S2: "solutions_all eps (butlast points) (collapse s i CHR ''D'') = Inr S2"
      and C2: "collect (caseIII_ext eps points i) S2 = Inr C2"
      and C': "sa_loop eps points s (i + 1) = Inr C'" and CC: "C = C1 @ C2 @ C'"
      unfolding sa_loop.simps [of eps points s i] if_P [OF i] if_P [OF UD]
      by (auto simp: ebind_eq_Inr)
    show ?thesis
    proof (cases "i = j")
      case True
      with S1 C1 S2 C2 CC show ?thesis by auto
    next
      case False
      then have ij: "i + 1 \<le> j" using less.prems(2) by simp
      from less.hyps [OF dec C' ij] CC show ?thesis by auto
    qed
  qed
qed

lemma solutions_subset_all:
  "solutions eps points s = Inr sols \<Longrightarrow> solutions_all eps points s = Inr sols'
   \<Longrightarrow> set sols \<subseteq> set sols'"
proof (induction "length s" arbitrary: s points sols sols' rule: less_induct)
  case less
  show ?case
  proof (cases "length s = 1")
    case True
    with less.prems show ?thesis
      by (auto simp: solutions.simps [of eps points s] solutions_all.simps [of eps points s] ebind_eq_Inr)
  next
    case False
    have ne: "s \<noteq> []" using less.prems(1) by (auto simp: solutions.simps [of eps points s])
    have rec: "set S \<subseteq> set S'" if "solutions eps (butlast points) s' = Inr S"
        "solutions_all eps (butlast points) s' = Inr S'" "length s' < length s" for s' S S'
      using less.hyps [OF that(3) that(1,2)] .
    obtain A B C where sols: "sols = A @ B @ C"
      and A: "if hd s = CHR ''D'' then \<exists>S. solutions eps (butlast points) (tl s) = Inr S
           \<and> collect (caseI_ext eps points) S = Inr A else A = []"
      and B: "if last s = CHR ''U'' then \<exists>S. solutions eps (butlast points) (butlast s) = Inr S
           \<and> collect (caseII_ext eps points) S = Inr B else B = []"
      and C: "case find_UD s 0 of None \<Rightarrow> C = []
         | Some i \<Rightarrow> \<exists>S1 C1 S2 C2. solutions eps (butlast points) (collapse s i CHR ''U'') = Inr S1
             \<and> collect (caseIII_ext eps points i) S1 = Inr C1
             \<and> solutions eps (butlast points) (collapse s i CHR ''D'') = Inr S2
             \<and> collect (caseIII_ext eps points i) S2 = Inr C2 \<and> C = C1 @ C2"
      using solutions_InrE [OF less.prems(1) False ne] by blast
    obtain A' B' C' where sols': "sols' = A' @ B' @ C'"
      and A': "(if hd s = CHR ''D'' then ebind (solutions_all eps (butlast points) (tl s))
           (collect (caseI_ext eps points)) else Inr []) = Inr A'"
      and B': "(if last s = CHR ''U'' then ebind (solutions_all eps (butlast points) (butlast s))
           (collect (caseII_ext eps points)) else Inr []) = Inr B'"
      and C': "sa_loop eps points s 0 = Inr C'"
      using solutions_all_InrE [OF less.prems(2) False ne] by blast
    have lt: "length (tl s) < length s" "length (butlast s) < length s" using ne by auto
    have "set A \<subseteq> set A'"
    proof (cases "hd s = CHR ''D''")
      case True
      with A obtain S where S: "solutions eps (butlast points) (tl s) = Inr S"
        "collect (caseI_ext eps points) S = Inr A" by auto
      from True A' obtain S' where S': "solutions_all eps (butlast points) (tl s) = Inr S'"
        "collect (caseI_ext eps points) S' = Inr A'" by (auto simp: ebind_eq_Inr)
      show ?thesis using collect_mono [OF S(2) S'(2) rec [OF S(1) S'(1) lt(1)]] .
    qed (use A in simp)
    moreover have "set B \<subseteq> set B'"
    proof (cases "last s = CHR ''U''")
      case True
      with B obtain S where S: "solutions eps (butlast points) (butlast s) = Inr S"
        "collect (caseII_ext eps points) S = Inr B" by auto
      from True B' obtain S' where S': "solutions_all eps (butlast points) (butlast s) = Inr S'"
        "collect (caseII_ext eps points) S' = Inr B'" by (auto simp: ebind_eq_Inr)
      show ?thesis using collect_mono [OF S(2) S'(2) rec [OF S(1) S'(1) lt(2)]] .
    qed (use B in simp)
    moreover have "set C \<subseteq> set C'"
    proof (cases "find_UD s 0")
      case (Some i)
      then have i: "i + 1 < length s" "s ! i = CHR ''U''" "s ! (i + 1) = CHR ''D''"
        by (auto dest: find_UD_Some)
      have lc: "length (collapse s i c) < length s" for c using i(1) by (simp add: length_collapse)
      from C Some obtain S1 C1 S2 C2 where
          S1: "solutions eps (butlast points) (collapse s i CHR ''U'') = Inr S1"
          and C1: "collect (caseIII_ext eps points i) S1 = Inr C1"
          and S2: "solutions eps (butlast points) (collapse s i CHR ''D'') = Inr S2"
          and C2: "collect (caseIII_ext eps points i) S2 = Inr C2" and CC: "C = C1 @ C2"
        by auto
      obtain S1' C1' S2' C2' where
          S1': "solutions_all eps (butlast points) (collapse s i CHR ''U'') = Inr S1'"
          and C1': "collect (caseIII_ext eps points i) S1' = Inr C1'"
          and S2': "solutions_all eps (butlast points) (collapse s i CHR ''D'') = Inr S2'"
          and C2': "collect (caseIII_ext eps points i) S2' = Inr C2'" and sub: "set C1' \<union> set C2' \<subseteq> set C'"
        using sa_loop_covers [OF i C'] by blast
      have "set C1 \<subseteq> set C1'" using collect_mono [OF C1 C1' rec [OF S1 S1' lc]] .
      moreover have "set C2 \<subseteq> set C2'" using collect_mono [OF C2 C2' rec [OF S2 S2' lc]] .
      ultimately show ?thesis using sub CC by auto
    qed (use C in simp)
    ultimately show ?thesis using sols sols' by auto
  qed
qed

subsection \<open>Properties of the legacy solver\<close>

text \<open>
  C14: on any memo dict whose entries for patterns no longer than \<open>s\<close> (other than
  \<open>s\<close>) are correct, \<open>pathString\<close> of src/Solver.py raises nothing, stores under \<open>s\<close>
  exactly what the memo-free recursion \<open>solutions_all\<close> (every \<open>"UD"\<close> split) computes on
  the \<open>length s + 1\<close> lowest points, keeps every entry up to that length correct and
  leaves longer keys untouched.
\<close>

theorem pathString_refines:
  assumes "s \<noteq> []" "length s < length P" "memo_ok solutions_all eps P (length s) (m(s := None))"
  shows "\<exists>m' sols. pathString eps (take (length s + 1) P) s m = Inr (m', ())
           \<and> solutions_all eps (take (length s + 1) P) s = Inr sols \<and> m' s = Some sols
           \<and> memo_ok solutions_all eps P (length s) m' \<and> (\<forall>k. length s < length k \<longrightarrow> m' k = m k)"
  using pathString_dp_spec [OF assms] by (auto simp: dp_spec_def)

theorem pathString_refines_witness:
  "''UD'' \<noteq> [] \<and> length ''UD'' < length ex3 \<and> memo_ok solutions_all epsilon ex3 (length ''UD'') (Map.empty(''UD'' := None))
   \<and> (\<exists>m' sols. pathString epsilon (take (length ''UD'' + 1) ex3) ''UD'' Map.empty = Inr (m', ())
       \<and> solutions_all epsilon (take (length ''UD'' + 1) ex3) ''UD'' = Inr sols \<and> m' ''UD'' = Some sols
       \<and> memo_ok solutions_all epsilon ex3 (length ''UD'') m')"
proof -
  have h: "''UD'' \<noteq> []" "length ''UD'' < length ex3"
    "memo_ok solutions_all epsilon ex3 (length ''UD'') (Map.empty(''UD'' := None))"
    by (simp_all add: ex3_def memo_ok_def)
  show ?thesis using h pathString_refines [OF h] by blast
qed

text \<open>
  C15: every path \<open>pathString\<close> stores for a pattern over \<open>{U, D}\<close>, on points sorted
  strictly ascending by height, is a solution (chained, each of the \<open>length s + 1\<close>
  lowest points visited once, the pattern as profile, no two non-neighbouring edges
  intersecting). The legacy wrapper sorts the other way (C18).
\<close>

theorem pathString_sound:
  assumes "heights_sorted P" "set s \<subseteq> {CHR ''U'', CHR ''D''}" "s \<noteq> []" "length s < length P"
    and "memo_ok solutions_all eps P (length s) (m(s := None))"
    and "pathString eps (take (length s + 1) P) s m = Inr (m', u)" "m' s = Some sols" "p \<in> set sols"
  shows "path_ok eps (take (length s + 1) P) s p"
proof -
  from pathString_dp_spec [OF assms(3,4,5)] assms(6,7)
  have "solutions_all eps (take (length s + 1) P) s = Inr sols" by (auto simp: dp_spec_def)
  moreover have "length (take (length s + 1) P) = length s + 1" using assms(4) by simp
  ultimately show ?thesis
    using solutions_all_paths_ok heights_sorted_take [OF assms(1)] assms(2,8) by blast
qed

lemma legacy_ex3_run: "pathString epsilon ex3 ''UD'' Map.empty = Inr (ex3_memo, ())"
  by (simp add: ex3_def ex3_memo_def legacy_eval_simps)

theorem pathString_sound_witness:
  "heights_sorted ex3 \<and> set ''UD'' \<subseteq> {CHR ''U'', CHR ''D''} \<and> ''UD'' \<noteq> [] \<and> length ''UD'' < length ex3
   \<and> memo_ok solutions_all epsilon ex3 (length ''UD'') (Map.empty(''UD'' := None))
   \<and> pathString epsilon (take (length ''UD'' + 1) ex3) ''UD'' Map.empty = Inr (ex3_memo, ())
   \<and> ex3_memo ''UD'' = Some [[LineSegment (Pt 0 0) (Pt 1 2), LineSegment (Pt 1 2) (Pt 2 1)],
                [LineSegment (Pt 2 1) (Pt 1 2), LineSegment (Pt 1 2) (Pt 0 0)]]
   \<and> path_ok epsilon (take (length ''UD'' + 1) ex3) ''UD'' [LineSegment (Pt 2 1) (Pt 1 2), LineSegment (Pt 1 2) (Pt 0 0)]"
proof -
  have h: "heights_sorted ex3" "set ''UD'' \<subseteq> {CHR ''U'', CHR ''D''}" "''UD'' \<noteq> []" "length ''UD'' < length ex3"
    "memo_ok solutions_all epsilon ex3 (length ''UD'') (Map.empty(''UD'' := None))"
    "pathString epsilon (take (length ''UD'' + 1) ex3) ''UD'' Map.empty = Inr (ex3_memo, ())"
    "ex3_memo ''UD'' = Some [[LineSegment (Pt 0 0) (Pt 1 2), LineSegment (Pt 1 2) (Pt 2 1)],
                [LineSegment (Pt 2 1) (Pt 1 2), LineSegment (Pt 1 2) (Pt 0 0)]]"
    using legacy_ex3_run by (simp_all add: ex3_def heights_sorted_def memo_ok_def ex3_memo_def)
  show ?thesis using h pathString_sound [OF h] by simp
qed

text \<open>
  C18: the legacy wrapper sorts the points by \<open>-y\<close>, highest first (line 216), while the
  solver builds its paths from the lowest point up. On two points the wrapper answers the
  pattern \<open>"u"\<close> (upper-cased to \<open>"U"\<close>) with the single edge from the higher point down to
  the lower one, whose profile is \<open>"D"\<close>, and \<open>"d"\<close> with an upward edge.
\<close>

theorem pathStringWrapper_inverted:
  assumes "pt_y a < pt_y b"
  shows "pathStringWrapper eps [a, b] ''u'' = Inr ([b, a], [LineSegment b a]) \<and> profile [LineSegment b a] = ''D''
       \<and> pathStringWrapper eps [a, b] ''d'' = Inr ([b, a], [LineSegment a b]) \<and> profile [LineSegment a b] = ''U''"
  using assms
  by (simp add: pathStringWrapper_def py_upper_def char_of_def bit_0 pathString.simps base_edge_def
      py_nth_def dict_get_def profile_def dir_def)

theorem pathStringWrapper_inverted_witness:
  "pathStringWrapper epsilon [Pt 0 0, Pt 1 1] ''u'' = Inr ([Pt 1 1, Pt 0 0], [LineSegment (Pt 1 1) (Pt 0 0)])
   \<and> profile [LineSegment (Pt 1 1) (Pt 0 0)] = ''D''"
  using pathStringWrapper_inverted [of "Pt 0 0" "Pt 1 1" epsilon] by simp

subsection \<open>The batch driver\<close>

lemma memo_ok_del: "memo_ok ref eps P n m \<Longrightarrow> memo_ok ref eps P n (m(k := None))"
  by (auto simp: memo_ok_def)

text \<open>Each set's dict stays correct for patterns of the batch length.\<close>

definition trial_inv :: "real \<Rightarrow> nat \<Rightarrow> pt list \<Rightarrow> memo \<Rightarrow> bool" where
  "trial_inv eps n P m \<longleftrightarrow> length P = n + 1 \<and> memo_ok solutions_all eps P n m"

lemma bulk_step:
  assumes "trial_inv eps (length s) P m" "s \<noteq> []"
  shows "\<exists>m' sols. pathStringBulkNoWrite eps P s m = Inr m' \<and> m' s = Some sols
     \<and> length sols = sa_count eps P s \<and> trial_inv eps (length s) P m'"
proof -
  have l: "length s < length P" "take (length s + 1) P = P" using assms(1) by (auto simp: trial_inv_def)
  have "memo_ok solutions_all eps P (length s) (m(s := None))"
    using assms(1) by (auto simp: trial_inv_def intro: memo_ok_del)
  from pathString_dp_spec [OF assms(2) l(1) this] l(2) obtain m' sols where
    r: "pathString eps P s m = Inr (m', ())" and sa: "solutions_all eps P s = Inr sols"
    and ms: "m' s = Some sols" and mo: "memo_ok solutions_all eps P (length s) m'"
    by (auto simp: dp_spec_def)
  show ?thesis using r sa ms mo assms(1)
    by (simp add: pathStringBulkNoWrite_def sa_count_def trial_inv_def)
qed

lemma trial_sets_Inr:
  "list_all2 (trial_inv eps (length s)) Ps ms \<Longrightarrow> s \<noteq> [] \<Longrightarrow> \<forall>P\<in>set Ps. sa_count eps P s \<noteq> 0 \<Longrightarrow>
   \<exists>ms'. trial_sets eps Ps ms s = Inr (ms', map (\<lambda>P. sa_count eps P s) Ps)
     \<and> list_all2 (trial_inv eps (length s)) Ps ms'"
proof (induction Ps arbitrary: ms)
  case (Cons P Ps)
  then obtain m ms0 where ms: "ms = m # ms0" and inv: "trial_inv eps (length s) P m"
    and rest: "list_all2 (trial_inv eps (length s)) Ps ms0" by (cases ms) auto
  obtain m' sols where b: "pathStringBulkNoWrite eps P s m = Inr m'" "m' s = Some sols"
    "length sols = sa_count eps P s" "trial_inv eps (length s) P m'"
    using bulk_step [OF inv Cons.prems(2)] by blast
  obtain ms' where r: "trial_sets eps Ps ms0 s = Inr (ms', map (\<lambda>P. sa_count eps P s) Ps)"
    "list_all2 (trial_inv eps (length s)) Ps ms'"
    using Cons.IH [OF rest Cons.prems(2)] Cons.prems(3) by auto
  have "sols \<noteq> []" using Cons.prems(3) b(3) by auto
  then show ?case using b r by (simp add: ms dict_get_def)
qed simp

lemma trial_sets_NameError:
  "list_all2 (trial_inv eps (length s)) Ps ms \<Longrightarrow> s \<noteq> [] \<Longrightarrow> \<exists>P\<in>set Ps. sa_count eps P s = 0 \<Longrightarrow>
   trial_sets eps Ps ms s = Inl NameError"
proof (induction Ps arbitrary: ms)
  case (Cons P Ps)
  then obtain m ms0 where ms: "ms = m # ms0" and inv: "trial_inv eps (length s) P m"
    and rest: "list_all2 (trial_inv eps (length s)) Ps ms0" by (cases ms) auto
  obtain m' sols where b: "pathStringBulkNoWrite eps P s m = Inr m'" "m' s = Some sols"
    "length sols = sa_count eps P s" "trial_inv eps (length s) P m'"
    using bulk_step [OF inv Cons.prems(2)] by blast
  show ?case
  proof (cases "sa_count eps P s = 0")
    case True
    then show ?thesis using b by (simp add: ms dict_get_def)
  next
    case False
    then have "trial_sets eps Ps ms0 s = Inl NameError" using Cons.IH [OF rest Cons.prems(2)] Cons.prems(3) by auto
    then show ?thesis using b False by (simp add: ms dict_get_def)
  qed
qed simp

lemma trials_loop_ok:
  assumes "2 \<le> n" "Ps \<noteq> []"
  shows "list_all2 (trial_inv eps (n - 1)) Ps ms \<Longrightarrow> set is \<subseteq> {..<2 ^ (n - 1)} \<Longrightarrow>
   trials_loop eps n Ps is ms rows =
     (if \<exists>i\<in>set is. \<exists>P\<in>set Ps. sa_count eps P (pattern_of n i) = 0 then Inl NameError
      else Inr (rows @ map (\<lambda>i. (pattern_of n i, Min ((\<lambda>P. sa_count eps P (pattern_of n i)) ` set Ps))) is))"
proof (induction "is" arbitrary: ms rows)
  case (Cons i "is")
  define s where "s = pattern_of n i"
  have i: "i < 2 ^ (n - 1)" using Cons.prems(2) by simp
  have ls: "length s = n - 1" "s \<noteq> []"
    using pattern_of_props(1) [OF assms(1) i] assms(1) by (auto simp: s_def)
  have inv: "list_all2 (trial_inv eps (length s)) Ps ms" using Cons.prems(1) ls(1) by simp
  show ?case
  proof (cases "\<exists>P\<in>set Ps. sa_count eps P s = 0")
    case True
    then show ?thesis using trial_sets_NameError [OF inv ls(2) True] by (auto simp: s_def)
  next
    case False
    then obtain ms' where r: "trial_sets eps Ps ms s = Inr (ms', map (\<lambda>P. sa_count eps P s) Ps)"
      "list_all2 (trial_inv eps (n - 1)) Ps ms'"
      using trial_sets_Inr [OF inv ls(2)] ls(1) by auto
    have mn: "py_min (map (\<lambda>P. sa_count eps P s) Ps) = Inr (Min ((\<lambda>P. sa_count eps P s) ` set Ps))"
      using assms(2) by (simp add: py_min_def)
    have "trials_loop eps n Ps (i # is) ms rows = trials_loop eps n Ps is ms' (rows @ [(s, Min ((\<lambda>P. sa_count eps P s) ` set Ps))])"
      by (simp add: s_def [symmetric] r(1) mn)
    then show ?thesis using Cons.IH [OF r(2)] Cons.prems(2) False by (simp add: s_def)
  qed
qed simp

text \<open>
  C21: with \<open>numPoints \<ge> 2\<close> and point sets of \<open>numPoints\<close> points each,
  \<open>bunchOfTrials\<close> of src/Solver.py writes, for every pattern in binary order, the least
  number of paths any set has for it (each set sorted highest first, solved in its own
  dict, counted by the memo-free reference); if some set has no path for some pattern it
  raises \<open>NameError\<close> instead, at the display of the misspelt \<open>pointSet\<close> (line 287).
\<close>

theorem bunchOfTrials_result:
  assumes "2 \<le> n" "Ps \<noteq> []" "\<forall>P\<in>set Ps. length P = n"
  shows "bunchOfTrials eps n Ps =
     (let Qs = map (sort_key (\<lambda>p. -1 * pt_y p)) Ps in
      if \<exists>i\<in>set (pattern_range n). \<exists>Q\<in>set Qs. sa_count eps Q (pattern_of n i) = 0 then Inl NameError
      else Inr (map (\<lambda>i. (pattern_of n i, Min ((\<lambda>Q. sa_count eps Q (pattern_of n i)) ` set Qs))) (pattern_range n)))"
proof -
  define Qs where "Qs = map (sort_key (\<lambda>p. -1 * pt_y p)) Ps"
  have inv: "list_all2 (trial_inv eps (n - 1)) Qs (replicate (length Qs) Map.empty)"
    using assms(1,3) by (auto simp: list_all2_conv_all_nth trial_inv_def memo_ok_def Qs_def)
  have r: "set (pattern_range n) \<subseteq> {..<2 ^ (n - 1)}" using assms(1) by (auto simp: pattern_range_upt)
  have "Qs \<noteq> []" using assms(2) by (simp add: Qs_def)
  note t = trials_loop_ok [OF assms(1) this inv r, of "[]"]
  have "bunchOfTrials eps n Ps = trials_loop eps n Qs (pattern_range n) (replicate (length Qs) Map.empty) []"
    unfolding bunchOfTrials_def Let_def Qs_def ..
  then show ?thesis unfolding Let_def Qs_def [symmetric] using t by simp
qed

theorem bunchOfTrials_result_witness:
  "bunchOfTrials epsilon 2 [[Pt 0 0, Pt 1 1]] = Inr [(''U'', 1), (''D'', 1)]"
proof -
  have p: "pattern_range 2 = [0, 1]" "pattern_of 2 0 = ''U''" "pattern_of 2 1 = ''D''" "pattern_of 2 (Suc 0) = ''D''"
    by (simp_all add: pattern_range_def upt_rec pattern_of_def bin_of.simps)
  have q: "sort_key (\<lambda>p. -1 * pt_y p) [Pt 0 0, Pt 1 1] = [Pt 1 1, Pt 0 0]" by simp
  have c: "sa_count epsilon [Pt 1 1, Pt 0 0] ''U'' = 1" "sa_count epsilon [Pt 1 1, Pt 0 0] ''D'' = 1"
    by (simp_all add: sa_count_def solutions_all.simps [of _ _ "[_]"] base_edge_def py_nth_def)
  show ?thesis using bunchOfTrials_result [of 2 "[[Pt 0 0, Pt 1 1]]" epsilon]
    by (simp only: Let_def p q list.map list.set) (simp add: p c)
qed

subsection \<open>With at most one \<open>"UD"\<close> the two references agree\<close>

lemma ud_count_append:
  "ud_count (xs @ ys) = ud_count xs + ud_count ys
     + (if xs \<noteq> [] \<and> ys \<noteq> [] \<and> last xs = CHR ''U'' \<and> hd ys = CHR ''D'' then 1 else 0)"
  by (induction xs rule: ud_count.induct; cases ys) auto

lemma ud_count_D_Cons [simp]: "ud_count (CHR ''D'' # s) = ud_count s"
  by (cases s) auto

lemma ud_count_drop: "ud_count (drop n s) \<le> ud_count s"
  using ud_count_append [of "take n s" "drop n s"] by simp

lemma ud_count_tl: "ud_count (tl s) \<le> ud_count s"
  using ud_count_drop [of 1 s] by (simp add: drop_Suc)

lemma ud_count_butlast: "ud_count (butlast s) \<le> ud_count s"
  using ud_count_append [of "butlast s" "[last s]"] by (cases "s = []") auto

lemma UD_drop:
  "i + 1 < length s \<Longrightarrow> s ! i = CHR ''U'' \<Longrightarrow> s ! (i + 1) = CHR ''D''
   \<Longrightarrow> drop i s = CHR ''U'' # CHR ''D'' # drop (i + 2) s"
  using Cons_nth_drop_Suc [of i s] Cons_nth_drop_Suc [of "Suc i" s] by simp

lemma ud_count_collapse:
  assumes "i + 1 < length s" "s ! i = CHR ''U''" "s ! (i + 1) = CHR ''D''"
  shows "ud_count (collapse s i c) \<le> ud_count s"
proof -
  have s: "s = take i s @ [CHR ''U'', CHR ''D''] @ drop (i + 2) s"
    using UD_drop [OF assms] by (metis append_Cons append_Nil append_take_drop_id)
  have "ud_count s = ud_count (take i s) + 1 + ud_count (drop (i + 2) s)"
    by (subst s) (simp add: ud_count_append)
  moreover have "ud_count (collapse s i c) \<le> ud_count (take i s) + 1 + ud_count (drop (i + 2) s)"
  proof (cases "c = CHR ''D''")
    case True
    then show ?thesis unfolding collapse_def by (simp add: ud_count_append)
  next
    case False
    have "ud_count (c # drop (i + 2) s) \<le> Suc (ud_count (drop (i + 2) s))"
      by (cases "drop (i + 2) s") auto
    with False show ?thesis unfolding collapse_def by (simp add: ud_count_append)
  qed
  ultimately show ?thesis by simp
qed

lemma find_UD_count: "find_UD s j = Some k \<Longrightarrow> 1 \<le> ud_count (drop j s)"
proof -
  assume f: "find_UD s j = Some k"
  from find_UD_Some [OF f] have k: "j \<le> k" "k + 1 < length s" "s ! k = CHR ''U''" "s ! (k + 1) = CHR ''D''"
    by auto
  have "1 \<le> ud_count (drop k s)" using UD_drop [OF k(2-4)] by simp
  moreover have "drop k s = drop (k - j) (drop j s)" using k(1) by simp
  ultimately show ?thesis using ud_count_drop [of "k - j" "drop j s"] by simp
qed

lemma sa_loop_none: "find_UD s j = None \<Longrightarrow> sa_loop eps points s j = Inr []"
proof (induction s j rule: find_UD.induct)
  case (1 s j)
  show ?case
  proof (cases "j + 1 < length s")
    case True
    with "1.prems" have n: "\<not> (s ! j = CHR ''U'' \<and> s ! (j + 1) = CHR ''D'')" "find_UD s (j + 1) = None"
      by (auto simp: find_UD.simps [of s j] split: if_splits)
    have "sa_loop eps points s j = sa_loop eps points s (j + 1)"
      unfolding sa_loop.simps [of eps points s j] if_P [OF True] if_not_P [OF n(1)] ..
    with "1.IH" [OF True n(1) n(2)] show ?thesis by simp
  qed (simp add: sa_loop.simps [of eps points s j])
qed

lemma sa_loop_skip: "find_UD s j = Some i \<Longrightarrow> sa_loop eps points s j = sa_loop eps points s i"
proof (induction s j rule: find_UD.induct)
  case (1 s j)
  show ?case
  proof (cases "j + 1 < length s \<and> \<not> (s ! j = CHR ''U'' \<and> s ! (j + 1) = CHR ''D'')")
    case True
    with "1.prems" have f: "find_UD s (j + 1) = Some i" by (auto simp: find_UD.simps [of s j])
    have "sa_loop eps points s j = sa_loop eps points s (j + 1)"
      unfolding sa_loop.simps [of eps points s j] if_P [OF conjunct1 [OF True]] if_not_P [OF conjunct2 [OF True]] ..
    with "1.IH" [OF conjunct1 [OF True] conjunct2 [OF True] f] show ?thesis by simp
  next
    case False
    with "1.prems" show ?thesis by (auto simp: find_UD.simps [of s j] split: if_splits)
  qed
qed

lemma sa_loop_single_UD:
  assumes "ud_count s \<le> 1"
    and rec: "\<And>s'. length s' < length s \<Longrightarrow> ud_count s' \<le> 1
      \<Longrightarrow> solutions_all eps (butlast points) s' = solutions eps (butlast points) s'"
  shows "sa_loop eps points s 0 = (case find_UD s 0 of
          None \<Rightarrow> Inr []
        | Some i \<Rightarrow>
           ebind (solutions eps (butlast points) (collapse s i CHR ''U'')) (\<lambda>S1.
           ebind (collect (caseIII_ext eps points i) S1) (\<lambda>C1.
           ebind (solutions eps (butlast points) (collapse s i CHR ''D'')) (\<lambda>S2.
           ebind (collect (caseIII_ext eps points i) S2) (\<lambda>C2. Inr (C1 @ C2))))))"
proof (cases "find_UD s 0")
  case None
  then show ?thesis by (simp add: sa_loop_none)
next
  case (Some i)
  from find_UD_Some [OF Some] have i: "i + 1 < length s" "s ! i = CHR ''U''" "s ! (i + 1) = CHR ''D''"
    by auto
  have "find_UD s (i + 1) = None"
  proof (rule ccontr)
    assume "find_UD s (i + 1) \<noteq> None"
    then obtain k where "find_UD s (i + 1) = Some k" by auto
    then have "1 \<le> ud_count (drop (i + 1) s)" by (rule find_UD_count)
    moreover have "drop (i + 1) s = CHR ''D'' # drop (i + 2) s"
      using Cons_nth_drop_Suc [of "Suc i" s] i by simp
    ultimately have "2 \<le> ud_count (drop i s)" using UD_drop [OF i] by simp
    with ud_count_drop [of i s] assms(1) show False by simp
  qed
  then have last: "sa_loop eps points s (i + 1) = Inr []" by (rule sa_loop_none)
  have lc: "length (collapse s i c) < length s" "ud_count (collapse s i c) \<le> 1" for c
    using i ud_count_collapse [OF i, of c] assms(1) by (auto simp: length_collapse)
  show ?thesis
    unfolding sa_loop_skip [OF Some] sa_loop.simps [of eps points s i] if_P [OF i(1)]
      if_P [OF conjI [OF i(2,3)]] last rec [OF lc] Some option.case
    by (simp add: ebind_def split: sum.split)
qed

lemma solutions_all_eq:
  "ud_count s \<le> 1 \<Longrightarrow> solutions_all eps points s = solutions eps points s"
proof (induction "length s" arbitrary: s points rule: less_induct)
  case less
  have rec: "solutions_all eps (butlast points) s' = solutions eps (butlast points) s'"
    if "length s' < length s" "ud_count s' \<le> 1" for s'
    using less.hyps [OF that(1) that(2)] .
  show ?case
  proof (cases "length s = 1 \<or> s = []")
    case True
    then show ?thesis
      by (auto simp: solutions_all.simps [of eps points s] solutions.simps [of eps points s])
  next
    case False
    then have lt: "length (tl s) < length s" "length (butlast s) < length s" by auto
    have A: "solutions_all eps (butlast points) (tl s) = solutions eps (butlast points) (tl s)"
      using rec [OF lt(1)] ud_count_tl [of s] less.prems by simp
    have B: "solutions_all eps (butlast points) (butlast s) = solutions eps (butlast points) (butlast s)"
      using rec [OF lt(2)] ud_count_butlast [of s] less.prems by simp
    note C = sa_loop_single_UD [OF less.prems rec]
    show ?thesis
      unfolding solutions_all.simps [of eps points s] solutions.simps [of eps points s] A B
      by (simp only: C)
  qed
qed

end
