(* ===== verification/PointGen.thy ===== *)
theory PointGen
  imports Geometry
begin

text \<open>
  Random point generation: \<open>generatePoints\<close> of src/CleanSolution.py (lines 114-136) and of
  src/Solver.py (lines 88-102). The random source is a parameter \<open>u\<close>: \<open>u i\<close> is the
  value the \<open>i\<close>-th call of \<open>random.uniform\<close> returns (the \<open>x\<close> coordinate of a
  candidate, then its \<open>y\<close>). Each candidate is kept only if it is valid; the loop runs
  until \<open>n\<close> points are kept, which no bound on the draws guarantees, so it is a
  \<open>partial_function (option)\<close>. The clean version rejects a candidate whose height is
  taken or that some segment between two kept points \<open>contains\<close>; the legacy one only
  makes the second test.
\<close>

partial_function (option) gp_loop ::
  "real \<Rightarrow> nat \<Rightarrow> (nat \<Rightarrow> real) \<Rightarrow> nat \<Rightarrow> pt list \<Rightarrow> lineSegment list \<Rightarrow> pt list option" where
  "gp_loop eps n u i points lines =
     (if length points < n then
        (let point = Pt (u i) (u (i + 1));
             valid = (if pt_y point \<in> set (map pt_y points) then False
                      else \<not> list_ex (\<lambda>line. contains eps line point) lines)
         in if valid then gp_loop eps n u (i + 2) (points @ [point]) (lines @ map (\<lambda>pt. LineSegment pt point) points)
            else gp_loop eps n u (i + 2) points lines)
      else Some points)"

definition generatePoints :: "real \<Rightarrow> nat \<Rightarrow> (nat \<Rightarrow> real) \<Rightarrow> pt list option" where
  "generatePoints eps n u = gp_loop eps n u 0 [] []"

partial_function (option) gp_loop_legacy ::
  "real \<Rightarrow> nat \<Rightarrow> (nat \<Rightarrow> real) \<Rightarrow> nat \<Rightarrow> pt list \<Rightarrow> lineSegment list \<Rightarrow> pt list option" where
  "gp_loop_legacy eps n u i points lines =
     (if length points < n then
        (let point = Pt (u i) (u (i + 1));
             valid = \<not> list_ex (\<lambda>line. contains eps line point) lines
         in if valid then gp_loop_legacy eps n u (i + 2) (points @ [point]) (lines @ map (\<lambda>pt. LineSegment pt point) points)
            else gp_loop_legacy eps n u (i + 2) points lines)
      else Some points)"

definition generatePoints_legacy :: "real \<Rightarrow> nat \<Rightarrow> (nat \<Rightarrow> real) \<Rightarrow> pt list option" where
  "generatePoints_legacy eps n u = gp_loop_legacy eps n u 0 [] []"

text \<open>
  \<open>generateConvexPoints\<close> (CleanSolution.py, lines 411-423): angles drawn uniformly
  (\<open>u i\<close>), a point \<open>r (cos theta, sin theta)\<close> on the circle kept unless the angle or
  its negation was drawn before.
\<close>

partial_function (option) gcp_loop ::
  "nat \<Rightarrow> real \<Rightarrow> (nat \<Rightarrow> real) \<Rightarrow> nat \<Rightarrow> real list \<Rightarrow> pt list \<Rightarrow> pt list option" where
  "gcp_loop n r u i thetas points =
     (if length points < n then
        (let theta = u i
         in if theta \<notin> set thetas \<and> - theta \<notin> set thetas
            then gcp_loop n r u (i + 1) (thetas @ [theta]) (points @ [Pt (r * cos theta) (r * sin theta)])
            else gcp_loop n r u (i + 1) thetas points)
      else Some points)"

definition generateConvexPoints :: "nat \<Rightarrow> real \<Rightarrow> (nat \<Rightarrow> real) \<Rightarrow> pt list option" where
  "generateConvexPoints n r u = gcp_loop n r u 0 [] []"

text \<open>Draws that make the generator return the points \<open>col5\<close> of the hull-jumping theories.\<close>

definition col5_draws :: "nat \<Rightarrow> real" where
  "col5_draws i = [6, 6, 3, 4, 2, 5, 4, 3, 5, 1] ! i"

text \<open>
  What a returned list satisfies: no point is contained in a segment between two points
  kept before it (\<open>seg_ok\<close>), and, for the clean generator, the heights are pairwise
  distinct (\<open>gen_ok\<close>). \<open>seg_set\<close> is the set of segments the loop's \<open>lines\<close> holds
  for a list of kept points.
\<close>

definition seg_set :: "pt list \<Rightarrow> lineSegment set" where
  "seg_set pts = {LineSegment (pts ! i) (pts ! j) | i j. i < j \<and> j < length pts}"

definition seg_ok :: "real \<Rightarrow> pt list \<Rightarrow> bool" where
  "seg_ok eps pts \<longleftrightarrow>
     (\<forall>k < length pts. \<forall>j < k. \<forall>i < j. \<not> contains eps (LineSegment (pts ! i) (pts ! j)) (pts ! k))"

definition gen_ok :: "real \<Rightarrow> pt list \<Rightarrow> bool" where
  "gen_ok eps pts \<longleftrightarrow> distinct (map pt_y pts) \<and> seg_ok eps pts"

lemma seg_set_snoc: "seg_set (pts @ [p]) = seg_set pts \<union> set (map (\<lambda>q. LineSegment q p) pts)"
proof (intro equalityI subsetI)
  fix s assume "s \<in> seg_set (pts @ [p])"
  then obtain i j where s: "s = LineSegment ((pts @ [p]) ! i) ((pts @ [p]) ! j)" "i < j" "j < Suc (length pts)"
    by (auto simp: seg_set_def)
  show "s \<in> seg_set pts \<union> set (map (\<lambda>q. LineSegment q p) pts)"
  proof (cases "j = length pts")
    case True
    with s have "s = LineSegment (pts ! i) p" "i < length pts" by (auto simp: nth_append)
    then show ?thesis using nth_mem [of i pts] by auto
  next
    case False
    with s have "s = LineSegment (pts ! i) (pts ! j)" "i < j" "j < length pts" by (auto simp: nth_append)
    then have "s \<in> seg_set pts" unfolding seg_set_def by blast
    then show ?thesis by simp
  qed
next
  fix s assume "s \<in> seg_set pts \<union> set (map (\<lambda>q. LineSegment q p) pts)"
  then show "s \<in> seg_set (pts @ [p])"
  proof
    assume "s \<in> seg_set pts"
    then obtain i j where "s = LineSegment (pts ! i) (pts ! j)" "i < j" "j < length pts"
      by (auto simp: seg_set_def)
    then show ?thesis unfolding seg_set_def
      by (intro CollectI exI [of _ i] exI [of _ j]) (simp add: nth_append)
  next
    assume "s \<in> set (map (\<lambda>q. LineSegment q p) pts)"
    then obtain i where "i < length pts" "s = LineSegment (pts ! i) p" by (auto simp: in_set_conv_nth)
    then show ?thesis unfolding seg_set_def
      by (intro CollectI exI [of _ i] exI [of _ "length pts"]) (simp add: nth_append)
  qed
qed

lemma seg_ok_snoc:
  assumes ok: "seg_ok eps pts" and c: "\<forall>s\<in>seg_set pts. \<not> contains eps s p"
  shows "seg_ok eps (pts @ [p])"
  unfolding seg_ok_def
proof (intro allI impI)
  fix k j i assume k: "k < length (pts @ [p])" and j: "j < k" and i: "i < j"
  show "\<not> contains eps (LineSegment ((pts @ [p]) ! i) ((pts @ [p]) ! j)) ((pts @ [p]) ! k)"
  proof (cases "k = length pts")
    case True
    have "LineSegment (pts ! i) (pts ! j) \<in> seg_set pts" using i j True unfolding seg_set_def by auto
    with c True i j show ?thesis by (simp add: nth_append)
  next
    case False
    with k have "k < length pts" by simp
    with ok i j show ?thesis by (simp add: seg_ok_def nth_append)
  qed
qed

lemma gen_ok_snoc:
  "gen_ok eps pts \<Longrightarrow> pt_y p \<notin> set (map pt_y pts) \<Longrightarrow> \<forall>s\<in>seg_set pts. \<not> contains eps s p
   \<Longrightarrow> gen_ok eps (pts @ [p])"
  using seg_ok_snoc [of eps pts p] by (simp add: gen_ok_def)

lemma gp_loop_ok:
  assumes ret: "gp_loop eps n u i pts lines = Some r"
  shows "gen_ok eps pts \<longrightarrow> set lines = seg_set pts \<longrightarrow> length pts \<le> n \<longrightarrow> gen_ok eps r \<and> length r = n"
proof (rule gp_loop.raw_induct [where P = "\<lambda>(eps :: real) (n :: nat) (u :: nat \<Rightarrow> real) (i :: nat) (pts :: pt list)
      (lines :: lineSegment list) (r :: pt list). gen_ok eps pts \<longrightarrow> set lines = seg_set pts \<longrightarrow> length pts \<le> n
      \<longrightarrow> gen_ok eps r \<and> length r = n", OF _ ret])
  fix f :: "real \<Rightarrow> nat \<Rightarrow> (nat \<Rightarrow> real) \<Rightarrow> nat \<Rightarrow> pt list \<Rightarrow> lineSegment list \<Rightarrow> pt list option"
    and eps :: real and n :: nat and u :: "nat \<Rightarrow> real" and i :: nat and pts :: "pt list"
    and lines :: "lineSegment list" and r :: "pt list"
  assume IH: "\<And>eps n u i pts lines r. f eps n u i pts lines = Some r \<Longrightarrow> gen_ok eps pts \<longrightarrow>
      set lines = seg_set pts \<longrightarrow> length pts \<le> n \<longrightarrow> gen_ok eps r \<and> length r = n"
    and eq: "(if length pts < n then
        (let point = Pt (u i) (u (i + 1));
             valid = (if pt_y point \<in> set (map pt_y pts) then False
                      else \<not> list_ex (\<lambda>line. contains eps line point) lines)
         in if valid then f eps n u (i + 2) (pts @ [point]) (lines @ map (\<lambda>pt. LineSegment pt point) pts)
            else f eps n u (i + 2) pts lines)
      else Some pts) = Some r"
  show "gen_ok eps pts \<longrightarrow> set lines = seg_set pts \<longrightarrow> length pts \<le> n \<longrightarrow> gen_ok eps r \<and> length r = n"
  proof (intro impI)
    assume ok: "gen_ok eps pts" and ls: "set lines = seg_set pts" and le: "length pts \<le> n"
    show "gen_ok eps r \<and> length r = n"
    proof (cases "length pts < n")
      case False
      with eq le ok show ?thesis by simp
    next
      case True
      define point where "point = Pt (u i) (u (i + 1))"
      show ?thesis
      proof (cases "pt_y point \<notin> set (map pt_y pts) \<and> \<not> list_ex (\<lambda>line. contains eps line point) lines")
        case valid: True
        with eq True have "f eps n u (i + 2) (pts @ [point]) (lines @ map (\<lambda>pt. LineSegment pt point) pts) = Some r"
          by (simp add: point_def Let_def)
        moreover have "gen_ok eps (pts @ [point])"
          using gen_ok_snoc [OF ok] valid ls by (auto simp: list_ex_iff)
        moreover have "set (lines @ map (\<lambda>pt. LineSegment pt point) pts) = seg_set (pts @ [point])"
          using ls by (simp add: seg_set_snoc)
        ultimately show ?thesis using IH True by fastforce
      next
        case False
        with eq True have "f eps n u (i + 2) pts lines = Some r"
          by (auto simp: point_def Let_def split: if_splits)
        with IH ok ls le show ?thesis by blast
      qed
    qed
  qed
qed

lemma gp_loop_legacy_ok:
  assumes ret: "gp_loop_legacy eps n u i pts lines = Some r"
  shows "seg_ok eps pts \<longrightarrow> set lines = seg_set pts \<longrightarrow> length pts \<le> n \<longrightarrow> seg_ok eps r \<and> length r = n"
proof (rule gp_loop_legacy.raw_induct [where P = "\<lambda>(eps :: real) (n :: nat) (u :: nat \<Rightarrow> real) (i :: nat)
      (pts :: pt list) (lines :: lineSegment list) (r :: pt list). seg_ok eps pts \<longrightarrow> set lines = seg_set pts
      \<longrightarrow> length pts \<le> n \<longrightarrow> seg_ok eps r \<and> length r = n", OF _ ret])
  fix f :: "real \<Rightarrow> nat \<Rightarrow> (nat \<Rightarrow> real) \<Rightarrow> nat \<Rightarrow> pt list \<Rightarrow> lineSegment list \<Rightarrow> pt list option"
    and eps :: real and n :: nat and u :: "nat \<Rightarrow> real" and i :: nat and pts :: "pt list"
    and lines :: "lineSegment list" and r :: "pt list"
  assume IH: "\<And>eps n u i pts lines r. f eps n u i pts lines = Some r \<Longrightarrow> seg_ok eps pts \<longrightarrow>
      set lines = seg_set pts \<longrightarrow> length pts \<le> n \<longrightarrow> seg_ok eps r \<and> length r = n"
    and eq: "(if length pts < n then
        (let point = Pt (u i) (u (i + 1));
             valid = \<not> list_ex (\<lambda>line. contains eps line point) lines
         in if valid then f eps n u (i + 2) (pts @ [point]) (lines @ map (\<lambda>pt. LineSegment pt point) pts)
            else f eps n u (i + 2) pts lines)
      else Some pts) = Some r"
  show "seg_ok eps pts \<longrightarrow> set lines = seg_set pts \<longrightarrow> length pts \<le> n \<longrightarrow> seg_ok eps r \<and> length r = n"
  proof (intro impI)
    assume ok: "seg_ok eps pts" and ls: "set lines = seg_set pts" and le: "length pts \<le> n"
    show "seg_ok eps r \<and> length r = n"
    proof (cases "length pts < n")
      case False
      with eq le ok show ?thesis by simp
    next
      case True
      define point where "point = Pt (u i) (u (i + 1))"
      show ?thesis
      proof (cases "list_ex (\<lambda>line. contains eps line point) lines")
        case False
        with eq True have "f eps n u (i + 2) (pts @ [point]) (lines @ map (\<lambda>pt. LineSegment pt point) pts) = Some r"
          by (simp add: point_def Let_def)
        moreover have "seg_ok eps (pts @ [point])"
          using seg_ok_snoc [OF ok] False ls by (auto simp: list_ex_iff)
        moreover have "set (lines @ map (\<lambda>pt. LineSegment pt point) pts) = seg_set (pts @ [point])"
          using ls by (simp add: seg_set_snoc)
        ultimately show ?thesis using IH True by fastforce
      next
        case True
        with eq \<open>length pts < n\<close> have "f eps n u (i + 2) pts lines = Some r"
          by (simp add: point_def Let_def)
        with IH ok ls le show ?thesis by blast
      qed
    qed
  qed
qed

text \<open>
  C26: when \<open>generatePoints\<close> returns, it returns \<open>n\<close> points of pairwise distinct
  heights, none of which lies (within the tolerance of \<open>contains\<close>) on a segment
  between two points generated before it.
\<close>

theorem generatePoints_ok:
  assumes "generatePoints eps n u = Some pts"
  shows "length pts = n \<and> gen_ok eps pts"
  using gp_loop_ok [OF assms [unfolded generatePoints_def]] by (simp add: gen_ok_def seg_ok_def seg_set_def)

lemmas gen_eval_simps = gp_loop.simps gp_loop_legacy.simps contains_def signedArea_def epsilon_def Let_def

theorem generatePoints_ok_witness:
  "generatePoints epsilon 3 (\<lambda>i. of_nat (i div 2)) = Some [Pt 0 0, Pt 1 1, Pt 2 2]
   \<and> length [Pt 0 0, Pt 1 1, Pt 2 2] = 3"
proof -
  have r: "generatePoints epsilon 3 (\<lambda>i. of_nat (i div 2)) = Some [Pt 0 0, Pt 1 1, Pt 2 2]"
    by (simp add: generatePoints_def gen_eval_simps)
  from generatePoints_ok [OF r] r show ?thesis by simp
qed

lemma generatePoints_legacy_length:
  "generatePoints_legacy eps n u = Some pts \<Longrightarrow> length pts = n"
  using gp_loop_legacy_ok [of eps n u 0 "[]" "[]" pts] by (simp add: generatePoints_legacy_def seg_ok_def seg_set_def)

text \<open>
  C27: when the generator of Solver.py returns, it returns \<open>n\<close> points none of which lies
  (within the tolerance of \<open>contains\<close>) on a segment between two points generated
  before it; it tests nothing else, so, unlike the clean generator, it lets equal heights
  through, and a candidate equal to a kept point passes while no segment exists yet (the
  witness returns the same point twice).
\<close>

theorem generatePoints_legacy_ok:
  assumes "generatePoints_legacy eps n u = Some pts"
  shows "length pts = n \<and> seg_ok eps pts"
  using gp_loop_legacy_ok [OF assms [unfolded generatePoints_legacy_def]] by (simp add: seg_ok_def seg_set_def)

theorem generatePoints_legacy_ok_witness:
  "generatePoints_legacy epsilon 2 (\<lambda>i. 0) = Some [Pt 0 0, Pt 0 0] \<and> length [Pt 0 0, Pt 0 0] = 2"
proof -
  have r: "generatePoints_legacy epsilon 2 (\<lambda>i. 0) = Some [Pt 0 0, Pt 0 0]"
    by (simp add: generatePoints_legacy_def gen_eval_simps)
  from generatePoints_legacy_ok [OF r] r show ?thesis by simp
qed

text \<open>
  C28: the check of \<open>generateConvexPoints\<close>, commented "make sure that two points don't
  have the same y coordinate", rejects \<open>-theta\<close>, which mirrors the height; the angle
  with the same height is \<open>pi - theta\<close>, and it is accepted. For every radius
  \<open>r \<noteq> 0\<close> and every angle \<open>0 < theta < pi\<close> other than \<open>pi / 2\<close> (both angles lie in the
  range \<open>(-pi, pi)\<close> of the draws), the draws \<open>theta, pi - theta\<close> give two distinct points
  of equal height.
\<close>

theorem generateConvexPoints_equal_heights:
  assumes "0 < theta" "theta < pi" "theta \<noteq> pi / 2" "r \<noteq> 0"
  shows "\<exists>p q. generateConvexPoints 2 r (\<lambda>i. if i = 0 then theta else pi - theta) = Some [p, q]
           \<and> pt_y p = pt_y q \<and> p \<noteq> q"
proof -
  have ne: "pi - theta \<noteq> theta" "- (pi - theta) \<noteq> theta" using assms(1-3) by linarith+
  have "cos theta \<noteq> 0"
  proof
    assume "cos theta = 0"
    then have "cos theta = cos (pi / 2)" by simp
    moreover have "0 \<le> theta" "theta \<le> pi" "0 \<le> pi / 2" "pi / 2 \<le> pi" using assms(1,2) pi_gt_zero by linarith+
    ultimately have "theta = pi / 2" by (rule cos_inj_pi [rotated 4])
    with assms(3) show False by simp
  qed
  then have "r * cos theta \<noteq> r * cos (pi - theta)" using assms(4) by (simp add: cos_pi_minus)
  then have d: "Pt (r * cos theta) (r * sin theta) \<noteq> Pt (r * cos (pi - theta)) (r * sin (pi - theta))"
    by simp
  define u where "u = (\<lambda>i::nat. if i = 0 then theta else pi - theta)"
  have "gcp_loop 2 r u 0 [] [] = gcp_loop 2 r u 1 [theta] [Pt (r * cos theta) (r * sin theta)]"
    unfolding gcp_loop.simps [of 2 r u 0] by (simp add: u_def)
  also have "\<dots> = gcp_loop 2 r u 2 [theta, pi - theta]
      [Pt (r * cos theta) (r * sin theta), Pt (r * cos (pi - theta)) (r * sin (pi - theta))]"
    unfolding gcp_loop.simps [of 2 r u 1] using ne by (simp add: u_def Let_def numeral_2_eq_2)
  also have "\<dots> = Some [Pt (r * cos theta) (r * sin theta), Pt (r * cos (pi - theta)) (r * sin (pi - theta))]"
    unfolding gcp_loop.simps [of 2 r u 2] by simp
  finally show ?thesis using d by (simp add: generateConvexPoints_def u_def [symmetric])
qed

theorem generateConvexPoints_equal_heights_witness:
  "\<exists>p q. generateConvexPoints 2 100 (\<lambda>i. if i = 0 then pi / 6 else pi - pi / 6) = Some [p, q]
     \<and> pt_y p = pt_y q \<and> p \<noteq> q"
proof -
  have "0 < pi / 6" "pi / 6 < pi" "pi / 6 \<noteq> pi / 2" "(100::real) \<noteq> 0" using pi_gt_zero by simp_all
  from generateConvexPoints_equal_heights [OF this] show ?thesis .
qed

end
