(* ===== verification/Trials.thy ===== *)
theory Trials
  imports Legacy PointGen
begin

text \<open>
  The remaining batch drivers. \<open>bunchOfTrials\<close> of src/CleanSolution.py (lines 358-394)
  solves every pattern on several point sets, each with its own dict, through
  \<open>pathStringDPWrapper\<close>, and writes the largest count with the oracle's;
  \<open>generateAllPathStrings\<close> of src/Solver.py (lines 249-264) solves every pattern of
  each size into one dict with \<open>pathStringBulk\<close>. Both fail before their loops: the
  first calls \<open>hullJumpingRecursive(tempPoints, p, tempString)\<close> on names that are not
  bound (line 365), the second displays \<open>points\<close> before assigning it (line 251). Their
  loops are modelled as written although the program never reaches them; the point sets
  are parameters and a file is the list of its rows. \<open>randomRun\<close> of src/Solver.py
  draws a pattern and points from one stream of random draws and solves them with the
  legacy wrapper; the lemma on it shows which points its pattern really uses.
\<close>

text \<open>Python's \<open>max\<close> on a list: \<open>ValueError\<close> on the empty list.\<close>

definition py_max :: "nat list \<Rightarrow> nat res" where
  "py_max xs = (if xs = [] then Inl ValueError else Inr (Max (set xs)))"

text \<open>
  CleanSolution.py lines 382-391: solve in the set's own dict (\<open>inOrder\<close> is true, so
  the list is not re-sorted), subscript the wrapper's return value with the pattern, and
  display \<open>pointSet[i]\<close> (not bound: \<open>NameError\<close>) when there is no path.
\<close>

fun clean_trial_sets :: "real \<Rightarrow> pt list list \<Rightarrow> memo list \<Rightarrow> string \<Rightarrow> (memo list \<times> nat list) res" where
  "clean_trial_sets eps [] ms string = Inr ([], [])"
| "clean_trial_sets eps (P # Ps) [] string = Inl IndexError"
| "clean_trial_sets eps (P # Ps) (m # ms) string =
     ebind (pathStringDPWrapper eps P string m True) (\<lambda>(P', solved', ret).
     ebind (subscript_ret ret string) (\<lambda>sols.
       if length sols = 0 then Inl NameError
       else ebind (clean_trial_sets eps Ps ms string) (\<lambda>(ms', arr). Inr (solved' # ms', length sols # arr))))"

text \<open>
  Lines 375-393: for each pattern, the row \<open>string, max(arr), partialOrderings(string, {})\<close>
  (the oracle's \<open>None\<close> in the base case is kept as an option).
\<close>

fun clean_trials_loop :: "real \<Rightarrow> nat \<Rightarrow> pt list list \<Rightarrow> nat list \<Rightarrow> memo list
    \<Rightarrow> (string \<times> nat \<times> nat option) list \<Rightarrow> (string \<times> nat \<times> nat option) list res" where
  "clean_trials_loop eps numPoints Ps [] ms rows = Inr rows"
| "clean_trials_loop eps numPoints Ps (i # is) ms rows =
     (let string = pattern_of numPoints i in
      ebind (clean_trial_sets eps Ps ms string) (\<lambda>(ms', arr).
      ebind (py_max arr) (\<lambda>mx.
      ebind (partialOrderings string Map.empty) (\<lambda>(_, c).
        clean_trials_loop eps numPoints Ps is ms' (rows @ [(string, mx, c)])))))"

text \<open>
  Lines 358-394: the call of line 365 raises before the point sets are built (lines
  368-372: sorted by height, a fresh dict each) and the loop runs.
\<close>

definition bunchOfTrials_clean :: "real \<Rightarrow> nat \<Rightarrow> pt list list \<Rightarrow> (string \<times> nat \<times> nat option) list res" where
  "bunchOfTrials_clean eps numPoints pointSets =
     ebind (Inl NameError :: unit res) (\<lambda>_.
       (let pointSets = map (sort_key pt_y) pointSets;
            solvedSets = replicate (length pointSets) Map.empty
        in clean_trials_loop eps numPoints pointSets (pattern_range numPoints) solvedSets []))"

text \<open>
  Solver.py lines 255-263: one dict for all patterns of size \<open>j\<close>; \<open>pathStringBulk\<close>
  writes the row \<open>string, len(solved[string])\<close>.
\<close>

fun legacy_gen_loop :: "real \<Rightarrow> nat \<Rightarrow> pt list \<Rightarrow> nat list \<Rightarrow> memo \<Rightarrow> (string \<times> nat) list
    \<Rightarrow> (string \<times> nat) list res" where
  "legacy_gen_loop eps j points [] solved rows = Inr rows"
| "legacy_gen_loop eps j points (i # is) solved rows =
     (let string = pattern_of j i in
      ebind (pathStringBulk eps points string solved) (\<lambda>solved'.
      ebind (dict_get solved' string) (\<lambda>sols.
        legacy_gen_loop eps j points is solved' (rows @ [(string, length sols)]))))"

text \<open>
  Lines 249-264: the display of line 251 raises before the loop over the sizes
  \<open>j = start .. stop\<close>, whose point sets \<open>gen j\<close> (random, lines 253-254) are a parameter.
\<close>

fun legacy_gen_sizes :: "real \<Rightarrow> (nat \<Rightarrow> pt list) \<Rightarrow> nat list \<Rightarrow> (string \<times> nat) list
    \<Rightarrow> (string \<times> nat) list res" where
  "legacy_gen_sizes eps gen [] rows = Inr rows"
| "legacy_gen_sizes eps gen (j # js) rows =
     (let points = sort_key (\<lambda>p. -1 * pt_y p) (gen j) in
      ebind (legacy_gen_loop eps j points (pattern_range j) Map.empty rows) (\<lambda>rows'.
        legacy_gen_sizes eps gen js rows'))"

definition generateAllPathStrings_legacy :: "real \<Rightarrow> nat \<Rightarrow> nat \<Rightarrow> (nat \<Rightarrow> pt list) \<Rightarrow> (string \<times> nat) list res" where
  "generateAllPathStrings_legacy eps start stop gen =
     ebind (Inl NameError :: unit res) (\<lambda>_. legacy_gen_sizes eps gen [start..<stop + 1] [])"

text \<open>
  Solver.py lines 231-237: \<open>n - 1\<close> letters, \<open>U\<close> when the uniform draw exceeds \<open>.5\<close>.
  The draws are a parameter \<open>u\<close> (\<open>u i\<close> is the \<open>i\<close>-th call of \<open>random.uniform\<close>).
\<close>

definition randomPathString :: "nat \<Rightarrow> (nat \<Rightarrow> real) \<Rightarrow> string" where
  "randomPathString n u = map (\<lambda>i. if u i > 1 / 2 then CHR ''U'' else CHR ''D'') [0..<n - 1]"

text \<open>
  Lines 240-247, with the one stream of draws \<open>u\<close>: \<open>randomPathString(n - 1)\<close> takes the
  first \<open>n - 2\<close> draws, the legacy \<open>generatePoints\<close> the following ones; the wrapper's
  path is assigned to \<open>lines\<close> and dropped, and the function returns \<open>None\<close> (the unit
  value). A generator that never returns makes the run hang (\<open>None\<close>).
\<close>

definition randomRun :: "real \<Rightarrow> nat \<Rightarrow> (nat \<Rightarrow> real) \<Rightarrow> unit res option" where
  "randomRun eps n u =
     (let s = randomPathString (n - 1) u
      in case generatePoints_legacy eps n (\<lambda>i. u (n - 2 + i)) of
           None \<Rightarrow> None
         | Some points \<Rightarrow> Some (ebind (pathStringWrapper eps points s) (\<lambda>lines. Inr ())))"

subsection \<open>A random run skips the third highest point\<close>

lemma length_randomPathString: "length (randomPathString n u) = n - 1"
  by (simp add: randomPathString_def)

lemma set_randomPathString: "set (randomPathString n u) \<subseteq> {CHR ''U'', CHR ''D''}"
  by (auto simp: randomPathString_def)

lemma py_upper_UD: "set s \<subseteq> {CHR ''U'', CHR ''D''} \<Longrightarrow> map py_upper s = s"
  by (induction s) (auto simp: py_upper_def)

text \<open>
  C25: \<open>randomRun(winX, winY, n)\<close> returns nothing, and, for \<open>n \<ge> 3\<close>, raises
  \<open>IndexError\<close> (at \<open>solved[string][0]\<close> in the wrapper) exactly when the legacy solver
  finds no path. The pattern has \<open>n - 2\<close> letters (\<open>randomPathString(n - 1)\<close> already
  drops one) for \<open>n\<close> points sorted highest first; the solver takes the last point as
  its top and the first two in its base case, so the third highest point is never used:
  the run solves its pattern on the other \<open>n - 1\<close> points.
\<close>

theorem randomRun_IndexError_iff:
  assumes "3 \<le> n" "generatePoints_legacy eps n (\<lambda>i. u (n - 2 + i)) = Some pts"
  defines "P \<equiv> sort_key (\<lambda>p. -1 * pt_y p) pts"
  shows "\<exists>sols. solutions_all eps (take 2 P @ drop 3 P) (randomPathString (n - 1) u) = Inr sols
           \<and> randomRun eps n u = Some (if sols = [] then Inl IndexError else Inr ())"
proof -
  define s where "s = randomPathString (n - 1) u"
  define Q where "Q = take 2 P @ drop 3 P"
  have lP: "length P = length s + 2" using generatePoints_legacy_length [OF assms(2)] assms(1)
    by (simp add: P_def s_def length_randomPathString)
  have ls: "length s = n - 2" by (simp add: s_def length_randomPathString)
  have lQ: "length Q = length s + 1" using lP ls assms(1) by (simp add: Q_def)
  have "s \<noteq> []" "length s < length Q" using lQ ls assms(1) by auto
  moreover have "memo_ok solutions_all eps Q (length s) (Map.empty(s := None))" by (simp add: memo_ok_def)
  ultimately obtain m' sols where r: "pathString eps Q s Map.empty = Inr (m', ())"
    and sa: "solutions_all eps Q s = Inr sols" and ms: "m' s = Some sols"
    using pathString_dp_spec [of s Q eps Map.empty] lQ by (auto simp: dp_spec_def)
  have "pathString eps P s Map.empty = Inr (m', ())"
    using pathString_skip3 [OF lP, of eps Map.empty] r by (simp add: Q_def)
  moreover have up: "map py_upper s = s" unfolding s_def by (rule py_upper_UD [OF set_randomPathString])
  have "pathStringWrapper eps pts s = ebind (pathString eps P s Map.empty) (\<lambda>(solved, _).
      ebind (dict_get solved s) (\<lambda>sols. ebind (py_nth sols 0) (\<lambda>p. Inr (P, p))))"
    by (simp only: pathStringWrapper_def Let_def P_def up)
  moreover have "randomRun eps n u = Some (ebind (pathStringWrapper eps pts s) (\<lambda>lines. Inr ()))"
    unfolding randomRun_def Let_def s_def using assms(2) by simp
  ultimately have "randomRun eps n u = Some (if sols = [] then Inl IndexError else Inr ())"
    using ms by (simp add: dict_get_def py_nth_def)
  with sa show ?thesis by (auto simp: Q_def s_def)
qed

theorem randomRun_IndexError_iff_witness:
  "randomRun epsilon 3 (\<lambda>i. of_nat (i * i)) = Some (Inr ())"
proof -
  have g: "generatePoints_legacy epsilon 3 (\<lambda>i. (\<lambda>i. of_nat (i * i)) (3 - 2 + i)) = Some [Pt 1 4, Pt 9 16, Pt 25 36]"
    by (simp add: generatePoints_legacy_def gen_eval_simps)
  have "3 \<le> (3::nat)" by simp
  from randomRun_IndexError_iff [OF this g] obtain sols where
    "solutions_all epsilon (take 2 (sort_key (\<lambda>p. -1 * pt_y p) [Pt 1 4, Pt 9 16, Pt 25 36])
      @ drop 3 (sort_key (\<lambda>p. -1 * pt_y p) [Pt 1 4, Pt 9 16, Pt 25 36])) (randomPathString (3 - 1) (\<lambda>i. of_nat (i * i))) = Inr sols"
    "randomRun epsilon 3 (\<lambda>i. of_nat (i * i)) = Some (if sols = [] then Inl IndexError else Inr ())"
    by blast
  moreover have "randomPathString (3 - 1) (\<lambda>i. of_nat (i * i)) = ''D''" by (simp add: randomPathString_def)
  ultimately show ?thesis
    by (auto simp: solutions_all.simps [of _ _ "''D''"] base_edge_def py_nth_def)
qed

end
