(* ===== verification/OrderCount.thy ===== *)
theory OrderCount
  imports Enumeration PartialOrderings
begin

text \<open>
  What the oracle of src/PartialOrderings.py counts. Its docstring promises the "number
  of ordered lists satisfying a path string". \<open>sig xs\<close> is the up/down signature of a
  list of distinct heights (\<open>U\<close> where the next is higher); \<open>orderings s\<close> is the set of
  orderings of \<open>0, ..., length s\<close> whose signature is \<open>s\<close>. Removing the highest element
  \<open>length s\<close> from such an ordering (\<open>ins_max\<close> puts it back at position \<open>k\<close>) leaves an
  ordering of a pattern one letter shorter: \<open>tl s\<close> when it stood first (\<open>s\<close> starts with
  \<open>D\<close>), \<open>butlast s\<close> when it stood last (\<open>s\<close> ends with \<open>U\<close>), and one of the two
  collapses of a \<open>UD\<close> when it stood at a peak (\<open>max_pos s k\<close>). These are the three cases
  of \<open>partialOrderings\<close>, so \<open>po_count s = card (orderings s)\<close>. Summed over all patterns
  of \<open>n - 1\<close> letters, the counts give \<open>n!\<close>.
\<close>

definition updown :: "nat \<Rightarrow> nat \<Rightarrow> char" where
  "updown a b = (if a < b then CHR ''U'' else CHR ''D'')"

fun sig :: "nat list \<Rightarrow> string" where
  "sig (a # b # xs) = updown a b # sig (b # xs)"
| "sig _ = []"

definition orderings :: "string \<Rightarrow> nat list set" where
  "orderings s = {xs. distinct xs \<and> set xs = {0..<Suc (length s)} \<and> sig xs = s}"

definition ins_max :: "nat \<Rightarrow> nat \<Rightarrow> nat list \<Rightarrow> nat list" where
  "ins_max M k ys = take k ys @ M # drop k ys"

definition max_pos :: "string \<Rightarrow> nat \<Rightarrow> nat list set" where
  "max_pos s k =
     (if k = 0 then (if hd s = CHR ''D'' then orderings (tl s) else {})
      else if k = length s then (if last s = CHR ''U'' then orderings (butlast s) else {})
      else if s ! (k - 1) = CHR ''U'' \<and> s ! k = CHR ''D''
      then orderings (collapse s (k - 1) CHR ''U'') \<union> orderings (collapse s (k - 1) CHR ''D'')
      else {})"

lemma length_sig [simp]: "length (sig xs) = length xs - 1"
  by (induction xs rule: sig.induct) auto

lemma sig_append:
  "xs \<noteq> [] \<Longrightarrow> ys \<noteq> [] \<Longrightarrow> sig (xs @ ys) = sig xs @ updown (last xs) (hd ys) # sig ys"
proof (induction xs rule: induct_list012)
  case (3 a b xs)
  then show ?case by simp
qed (auto simp: neq_Nil_conv)

lemma sig_max_front:
  "ys \<noteq> [] \<Longrightarrow> \<forall>y\<in>set ys. y < M \<Longrightarrow> sig (M # ys) = CHR ''D'' # sig ys"
  by (cases ys) (auto simp: updown_def)

lemma sig_max_back:
  "ys \<noteq> [] \<Longrightarrow> \<forall>y\<in>set ys. y < M \<Longrightarrow> sig (ys @ [M]) = sig ys @ [CHR ''U'']"
  using sig_append [of ys "[M]"] by (simp add: updown_def)

lemma sig_max_mid:
  assumes "a \<noteq> []" "b \<noteq> []" "\<forall>y\<in>set (a @ b). y < M"
  shows "sig (a @ M # b) = sig a @ CHR ''U'' # CHR ''D'' # sig b"
proof -
  have "sig (a @ [M] @ b) = sig a @ updown (last a) M # sig (M # b)"
    using sig_append [of a "M # b"] assms by simp
  then show ?thesis using assms sig_max_front [of b M] by (simp add: updown_def)
qed

lemma orderings_props:
  assumes "xs \<in> orderings s"
  shows "length xs = Suc (length s)" "distinct xs" "set xs = {0..<Suc (length s)}" "sig xs = s"
  using assms distinct_card [of xs] by (auto simp: orderings_def)

lemma finite_orderings: "finite (orderings s)"
proof (rule finite_subset)
  show "orderings s \<subseteq> {xs. set xs \<subseteq> {0..<Suc (length s)} \<and> length xs = Suc (length s)}"
    using orderings_props by blast
qed (rule finite_lists_length_eq, simp)

lemma orderings_Nil: "orderings [] = {[0]}"
proof -
  have "xs = [0]" if "distinct xs" "set xs = {0}" for xs :: "nat list"
  proof -
    have "length xs = 1" using distinct_card [OF that(1)] that(2) by simp
    then obtain x where "xs = [x]" by (auto simp: length_Suc_conv)
    with that(2) show ?thesis by simp
  qed
  then show ?thesis by (auto simp: orderings_def)
qed

lemma split_UD:
  "i + 1 < length s \<Longrightarrow> s = take i s @ s ! i # s ! (i + 1) # drop (i + 2) s"
  by (metis Cons_nth_drop_Suc Suc_eq_plus1 add_2_eq_Suc' append_take_drop_id less_imp_le_nat
      le_less_trans lessI)

lemma max_pos_props:
  assumes "s \<noteq> []" "k \<le> length s" "ys \<in> max_pos s k"
  shows "length ys = length s" "distinct ys" "set ys = {0..<length s}"
proof -
  obtain s' where o: "ys \<in> orderings s'" "length s' = length s - 1"
    using assms by (auto simp: max_pos_def length_collapse split: if_splits)
  then show "length ys = length s" "distinct ys" "set ys = {0..<length s}"
    using orderings_props [OF o(1)] assms(1) by simp_all
qed

lemma ins_max_props:
  "set (ins_max M k ys) = insert M (set ys)"
  "distinct (ins_max M k ys) \<longleftrightarrow> M \<notin> set ys \<and> distinct ys"
  "length (ins_max M k ys) = Suc (length ys)"
proof -
  have "set (a @ M # b) = insert M (set (a @ b))" "distinct (a @ M # b) \<longleftrightarrow> M \<notin> set (a @ b) \<and> distinct (a @ b)"
    for a b :: "nat list" by auto
  from this [of "take k ys" "drop k ys"]
  show "set (ins_max M k ys) = insert M (set ys)"
    "distinct (ins_max M k ys) \<longleftrightarrow> M \<notin> set ys \<and> distinct ys"
    by (simp_all add: ins_max_def)
  show "length (ins_max M k ys) = Suc (length ys)" by (simp add: ins_max_def)
qed

lemma sig_collapse_split:
  assumes "sig (a @ b) = collapse s i c" "a \<noteq> []" "b \<noteq> []" "length a = Suc i"
  shows "sig a = take i s" "sig b = drop (i + 2) s"
proof -
  have l: "i \<le> length s" using assms(1,3,4) length_sig [of "a @ b"]
    by (cases b) (auto simp: collapse_def min_def split: if_splits)
  have "sig a @ updown (last a) (hd b) # sig b = take i s @ c # drop (i + 2) s"
    using assms(1) sig_append [OF assms(2,3)] by (simp add: collapse_def)
  moreover have "length (sig a) = length (take i s)" using assms(4) l by simp
  ultimately show "sig a = take i s" "sig b = drop (i + 2) s" by simp_all
qed

lemma ins_max_in_orderings:
  assumes "s \<noteq> []" "k \<le> length s" "ys \<in> max_pos s k"
  shows "ins_max (length s) k ys \<in> orderings s"
proof -
  note p = max_pos_props [OF assms]
  have lt: "\<forall>y\<in>set ys. y < length s" and nM: "length s \<notin> set ys" using p(3) by auto
  have ne: "ys \<noteq> []" using p(1) assms(1) by auto
  have "sig (ins_max (length s) k ys) = s"
  proof (cases "k = 0")
    case True
    then have "hd s = CHR ''D''" "ys \<in> orderings (tl s)" using assms(3) by (auto simp: max_pos_def split: if_splits)
    then show ?thesis using True sig_max_front [OF ne lt] orderings_props(4) assms(1)
      by (simp add: ins_max_def) (metis list.collapse)
  next
    case k0: False
    show ?thesis
    proof (cases "k = length s")
      case True
      then have "last s = CHR ''U''" "ys \<in> orderings (butlast s)" using assms(3) k0
        by (auto simp: max_pos_def split: if_splits)
      then show ?thesis using True p(1) sig_max_back [OF ne lt] orderings_props(4) assms(1)
        by (simp add: ins_max_def) (metis append_butlast_last_id)
    next
      case False
      then have k: "0 < k" "k < length s" using k0 assms(2) by auto
      then obtain c where ud: "s ! (k - 1) = CHR ''U''" "s ! k = CHR ''D''"
        and o: "ys \<in> orderings (collapse s (k - 1) c)"
        using assms(3) by (auto simp: max_pos_def split: if_splits)
      have ab: "take k ys \<noteq> []" "drop k ys \<noteq> []" "length (take k ys) = Suc (k - 1)"
        using k p(1) by auto
      have "sig (take k ys @ drop k ys) = collapse s (k - 1) c" using orderings_props(4) [OF o] by simp
      note sc = sig_collapse_split [OF this ab]
      have "sig (ins_max (length s) k ys) = sig (take k ys) @ CHR ''U'' # CHR ''D'' # sig (drop k ys)"
        unfolding ins_max_def using ab lt by (intro sig_max_mid) (auto dest: in_set_takeD in_set_dropD)
      also have "\<dots> = s" using split_UD [of "k - 1" s] k ud sc by simp
      finally show ?thesis .
    qed
  qed
  then show ?thesis using p nM ins_max_props [of "length s" k ys] by (auto simp: orderings_def)
qed

lemma orderings_split:
  assumes "xs \<in> orderings s" "s \<noteq> []"
  shows "\<exists>k ys. k \<le> length s \<and> ys \<in> max_pos s k \<and> xs = ins_max (length s) k ys"
proof -
  note p = orderings_props [OF assms(1)]
  have "length s \<in> set xs" using p(3) by simp
  then obtain a b where xs: "xs = a @ length s # b" by (blast dest: split_list)
  have d: "distinct (a @ b)" "length s \<notin> set (a @ b)" using p(2) xs by auto
  have "set (a @ b) = set xs - {length s}" using xs d(2) by auto
  then have st: "set (a @ b) = {0..<length s}" using p(3) by (simp add: atLeastLessThanSuc)
  have lt: "\<forall>y\<in>set (a @ b). y < length s" using st by auto
  have lab: "length a + length b = length s" using p(1) xs by simp
  have sx: "sig (a @ length s # b) = s" using p(4) xs by simp
  have "a @ b \<in> max_pos s (length a)"
  proof (cases "a = []")
    case True
    then have "b \<noteq> []" using lab assms(2) by auto
    then have "s = CHR ''D'' # sig b" using sx True sig_max_front [of b "length s"] lt by simp
    then show ?thesis using True d st by (auto simp: max_pos_def orderings_def)
  next
    case a: False
    show ?thesis
    proof (cases "b = []")
      case True
      then have "s = sig a @ [CHR ''U'']" using sx a sig_max_back [of a "length s"] lt by simp
      then show ?thesis using True a d st lab by (auto simp: max_pos_def orderings_def)
    next
      case b: False
      have s: "s = sig a @ CHR ''U'' # CHR ''D'' # sig b"
        using sx sig_max_mid [OF a b lt] by simp
      define i where "i = length a - 1"
      have li: "length (sig a) = i" "length a = Suc i" using a by (auto simp: i_def)
      have ud: "s ! i = CHR ''U''" "s ! (i + 1) = CHR ''D''" using s li by (simp_all add: nth_append)
      have "sig (a @ b) = collapse s i (updown (last a) (hd b))"
        using sig_append [OF a b] s li by (simp add: collapse_def)
      moreover have "length (collapse s i c) = i + length b" for c
        using s li b by (simp add: collapse_def)
      ultimately have "a @ b \<in> orderings (collapse s i CHR ''U'') \<union> orderings (collapse s i CHR ''D'')"
        using d st lab li by (auto simp: orderings_def updown_def split: if_splits)
      moreover have "length a \<noteq> length s" "length a \<noteq> 0" using lab b li by (cases b, auto)+
      ultimately show ?thesis using ud li by (simp add: max_pos_def)
    qed
  qed
  moreover have "ins_max (length s) (length a) (a @ b) = xs" by (simp add: ins_max_def xs)
  ultimately show ?thesis using lab by (intro exI [of _ "length a"] exI [of _ "a @ b"]) simp
qed

lemma ins_max_inj:
  assumes "k \<le> length ys" "k \<le> length zs" "ins_max M k ys = ins_max M k zs"
  shows "ys = zs"
proof -
  have "take k (ins_max M k xs) = take k xs" "drop (Suc k) (ins_max M k xs) = drop k xs"
    if "k \<le> length xs" for xs using that by (simp_all add: ins_max_def)
  then show ?thesis using assms by (metis append_take_drop_id)
qed

lemma ins_max_pos:
  "M \<notin> set ys \<Longrightarrow> length (takeWhile (\<lambda>x. x \<noteq> M) (ins_max M k ys)) = min k (length ys)"
  unfolding ins_max_def by (subst takeWhile_append2) (auto dest: in_set_takeD)

lemma orderings_UN:
  "s \<noteq> [] \<Longrightarrow> orderings s = (\<Union>k\<in>{0..<Suc (length s)}. ins_max (length s) k ` max_pos s k)"
  using orderings_split [of _ s] ins_max_in_orderings [of s] by fastforce

lemma card_orderings_sum:
  assumes "s \<noteq> []"
  shows "card (orderings s) = sum_list (map (\<lambda>k. card (max_pos s k)) [0..<Suc (length s)])"
proof -
  have fin: "finite (max_pos s k)" for k by (simp add: max_pos_def finite_orderings)
  have lys: "k \<le> length s \<Longrightarrow> ys \<in> max_pos s k \<Longrightarrow> length ys = length s \<and> length s \<notin> set ys"
    for k ys using max_pos_props [of s k ys] assms by auto
  have inj: "inj_on (ins_max (length s) k) (max_pos s k)" if "k \<le> length s" for k
  proof (rule inj_onI)
    fix ys zs assume "ys \<in> max_pos s k" "zs \<in> max_pos s k" "ins_max (length s) k ys = ins_max (length s) k zs"
    with lys [OF that] that show "ys = zs" by (metis ins_max_inj)
  qed
  have disj: "ins_max (length s) k ` max_pos s k \<inter> ins_max (length s) j ` max_pos s j = {}"
    if "k \<le> length s" "j \<le> length s" "k \<noteq> j" for k j
  proof (rule equals0I)
    fix xs assume "xs \<in> ins_max (length s) k ` max_pos s k \<inter> ins_max (length s) j ` max_pos s j"
    then obtain ys zs where y: "ys \<in> max_pos s k" "xs = ins_max (length s) k ys"
      and z: "zs \<in> max_pos s j" "xs = ins_max (length s) j zs" by blast
    have "length (takeWhile (\<lambda>x. x \<noteq> length s) xs) = k"
      using y lys [OF that(1) y(1)] ins_max_pos [of "length s" ys k] that(1) by simp
    moreover have "length (takeWhile (\<lambda>x. x \<noteq> length s) xs) = j"
      using z lys [OF that(2) z(1)] ins_max_pos [of "length s" zs j] that(2) by simp
    ultimately show False using that(3) by simp
  qed
  have "card (orderings s) = (\<Sum>k\<in>{0..<Suc (length s)}. card (ins_max (length s) k ` max_pos s k))"
    unfolding orderings_UN [OF assms] using fin disj by (intro card_UN_disjoint) auto
  also have "\<dots> = (\<Sum>k\<in>{0..<Suc (length s)}. card (max_pos s k))"
    using inj by (intro sum.cong refl card_image) auto
  finally show ?thesis by (metis sum_set_upt_conv_sum_list_nat set_upt)
qed

lemma orderings_disjoint: "s1 \<noteq> s2 \<Longrightarrow> orderings s1 \<inter> orderings s2 = {}"
  by (auto simp: orderings_def)

lemma collapse_ne: "collapse s i c \<noteq> []"
  by (simp add: collapse_def)

lemma collapse_nth: "i \<le> length s \<Longrightarrow> collapse s i c ! i = c"
  by (simp add: collapse_def nth_append)

lemma card_max_pos_mid:
  assumes "i + 1 < length s"
  shows "card (max_pos s (Suc i)) = (if s ! i = CHR ''U'' \<and> s ! (i + 1) = CHR ''D''
           then card (orderings (collapse s i CHR ''U'')) + card (orderings (collapse s i CHR ''D'')) else 0)"
proof -
  have "collapse s i CHR ''U'' ! i \<noteq> collapse s i CHR ''D'' ! i" using assms by (simp add: collapse_nth)
  then have "orderings (collapse s i CHR ''U'') \<inter> orderings (collapse s i CHR ''D'') = {}"
    by (intro orderings_disjoint) auto
  then have "card (orderings (collapse s i CHR ''U'') \<union> orderings (collapse s i CHR ''D''))
      = card (orderings (collapse s i CHR ''U'')) + card (orderings (collapse s i CHR ''D''))"
    by (intro card_Un_disjoint finite_orderings)
  moreover have "Suc i \<noteq> length s" using assms by simp
  ultimately show ?thesis unfolding max_pos_def by simp
qed

lemma card_orderings_step:
  assumes "s \<noteq> []"
  shows "card (orderings s) =
           (if hd s = CHR ''D'' then card (orderings (tl s)) else 0)
         + (if last s = CHR ''U'' then card (orderings (butlast s)) else 0)
         + sum_list (map (\<lambda>i. if s ! i = CHR ''U'' \<and> s ! (i + 1) = CHR ''D''
             then card (orderings (collapse s i CHR ''U'')) + card (orderings (collapse s i CHR ''D''))
             else 0) [0..<length s - 1])"
proof -
  let ?f = "\<lambda>k. card (max_pos s k)"
  have "[0..<Suc (length s)] = 0 # map Suc [0..<length s - 1] @ [length s]"
    using assms by (simp add: map_Suc_upt upt_conv_Cons)
  then have eq: "card (orderings s) = ?f 0 + ?f (length s) + sum_list (map (\<lambda>i. ?f (Suc i)) [0..<length s - 1])"
    unfolding card_orderings_sum [OF assms] by (simp add: comp_def)
  have m: "map (\<lambda>i. ?f (Suc i)) [0..<length s - 1] = map (\<lambda>i. if s ! i = CHR ''U'' \<and> s ! (i + 1) = CHR ''D''
             then card (orderings (collapse s i CHR ''U'')) + card (orderings (collapse s i CHR ''D''))
             else 0) [0..<length s - 1]"
    by (rule map_cong [OF refl]) (simp add: card_max_pos_mid)
  have f: "?f 0 = (if hd s = CHR ''D'' then card (orderings (tl s)) else 0)"
    "?f (length s) = (if last s = CHR ''U'' then card (orderings (butlast s)) else 0)"
    using assms by (simp_all add: max_pos_def)
  show ?thesis by (simp only: eq m f)
qed

lemma po_count_orderings:
  "set s \<subseteq> {CHR ''U'', CHR ''D''} \<Longrightarrow> s \<noteq> [] \<Longrightarrow> po_count s = card (orderings s)"
proof (induction "length s" arbitrary: s rule: less_induct)
  case less
  have IH: "po_count p = card (orderings p)"
    if "length p < length s" "set p \<subseteq> {CHR ''U'', CHR ''D''}" "p \<noteq> []" for p
    using less.hyps that by blast
  show ?case
  proof (cases "length s = 1")
    case True
    then obtain c where s: "s = [c]" "c \<in> {CHR ''U'', CHR ''D''}" using less.prems
      by (auto simp: length_Suc_conv)
    moreover have "po_count [c] = 1" by (simp add: po_count.simps [of "[c]"])
    ultimately show ?thesis using card_orderings_step [of s] by (auto simp: orderings_Nil)
  next
    case False
    then have l: "2 \<le> length s" using less.prems(2) by (cases s) (auto simp: Suc_le_eq)
    have "tl s \<noteq> []" "butlast s \<noteq> []" using l by (simp_all flip: length_0_conv)
    moreover have "set (tl s) \<subseteq> set s" by (cases s) auto
    moreover have "set (butlast s) \<subseteq> set s" by (auto dest: in_set_butlastD)
    ultimately have tb: "tl s \<noteq> []" "butlast s \<noteq> []" "set (tl s) \<subseteq> {CHR ''U'', CHR ''D''}"
      "set (butlast s) \<subseteq> {CHR ''U'', CHR ''D''}" using less.prems(1) by auto
    have ud: "ud_term s i = (if s ! i = CHR ''U'' \<and> s ! (i + 1) = CHR ''D''
             then card (orderings (collapse s i CHR ''U'')) + card (orderings (collapse s i CHR ''D''))
             else 0)" if "i < length s - 1" for i
    proof -
      have "length (collapse s i c) < length s" "collapse s i c \<noteq> []"
        "set (collapse s i c) \<subseteq> {CHR ''U'', CHR ''D''}" if "c \<in> {CHR ''U'', CHR ''D''}" for c
        using \<open>i < length s - 1\<close> l less.prems(1) set_collapse [of s i c] that
        by (auto simp: length_collapse collapse_ne)
      then show ?thesis by (simp add: ud_term_def IH)
    qed
    have m: "map (ud_term s) [0..<length s - 1] = map (\<lambda>i. if s ! i = CHR ''U'' \<and> s ! (i + 1) = CHR ''D''
             then card (orderings (collapse s i CHR ''U'')) + card (orderings (collapse s i CHR ''D''))
             else 0) [0..<length s - 1]" by (rule map_cong [OF refl]) (simp add: ud)
    have h: "po_count (tl s) = card (orderings (tl s))" "po_count (butlast s) = card (orderings (butlast s))"
      using IH [OF _ tb(3) tb(1)] IH [OF _ tb(4) tb(2)] l by simp_all
    show ?thesis
      by (simp only: po_count_step [OF False less.prems(2)] card_orderings_step [OF less.prems(2)] h m)
  qed
qed

lemma sig_letters: "set (sig xs) \<subseteq> {CHR ''U'', CHR ''D''}"
  by (induction xs rule: sig.induct) (auto simp: updown_def)

lemma card_perms: "card {xs. distinct xs \<and> set xs = {0..<n}} = fact n"
proof -
  have "{xs. distinct xs \<and> set xs = {0..<n}} = {xs. length xs = n \<and> distinct xs \<and> set xs \<subseteq> {0..<n}}"
  proof (intro equalityI subsetI)
    fix xs assume "xs \<in> {xs. distinct xs \<and> set xs = {0..<n}}"
    then show "xs \<in> {xs. length xs = n \<and> distinct xs \<and> set xs \<subseteq> {0..<n}}"
      using distinct_card [of xs] by auto
  next
    fix xs assume xs: "xs \<in> {xs. length xs = n \<and> distinct xs \<and> set xs \<subseteq> {0..<n}}"
    then have "card (set xs) = card {0..<n}" using distinct_card [of xs] by simp
    then show "xs \<in> {xs. distinct xs \<and> set xs = {0..<n}}"
      using xs card_subset_eq [of "{0..<n}" "set xs"] by auto
  qed
  then show ?thesis by (simp add: card_lists_distinct_length_eq fact_prod)
qed

lemma perms_UN:
  assumes "1 \<le> n"
  shows "{xs. distinct xs \<and> set xs = {0..<n}}
       = (\<Union>s\<in>{s. length s = n - 1 \<and> set s \<subseteq> {CHR ''U'', CHR ''D''}}. orderings s)"
proof (intro equalityI subsetI)
  fix xs assume "xs \<in> {xs. distinct xs \<and> set xs = {0..<n}}"
  then have xs: "distinct xs" "set xs = {0..<n}" "length xs = n" using distinct_card [of xs] by auto
  then have "xs \<in> orderings (sig xs)" using assms by (simp add: orderings_def)
  then show "xs \<in> (\<Union>s\<in>{s. length s = n - 1 \<and> set s \<subseteq> {CHR ''U'', CHR ''D''}}. orderings s)"
    using xs(3) sig_letters [of xs] by (intro UN_I [of "sig xs"]) auto
next
  fix xs assume "xs \<in> (\<Union>s\<in>{s. length s = n - 1 \<and> set s \<subseteq> {CHR ''U'', CHR ''D''}}. orderings s)"
  then show "xs \<in> {xs. distinct xs \<and> set xs = {0..<n}}" using assms by (auto simp: orderings_def)
qed

lemma sum_po_count_fact:
  assumes "2 \<le> n"
  shows "(\<Sum>s\<in>{s. length s = n - 1 \<and> set s \<subseteq> {CHR ''U'', CHR ''D''}}. po_count s) = fact n"
proof -
  let ?S = "{s. length s = n - 1 \<and> set s \<subseteq> {CHR ''U'', CHR ''D''}}"
  have fin: "finite ?S"
  proof (rule finite_subset)
    show "?S \<subseteq> {s. set s \<subseteq> {CHR ''U'', CHR ''D''} \<and> length s = n - 1}" by auto
  qed (rule finite_lists_length_eq, simp)
  have "(\<Sum>s\<in>?S. po_count s) = (\<Sum>s\<in>?S. card (orderings s))"
    using assms by (intro sum.cong refl po_count_orderings) auto
  also have "\<dots> = card (\<Union>s\<in>?S. orderings s)"
    using fin by (intro card_UN_disjoint [symmetric] ballI impI finite_orderings orderings_disjoint) auto
  also have "\<dots> = fact n" using assms perms_UN [of n] card_perms [of n] by simp
  finally show ?thesis .
qed

subsection \<open>What the oracle counts\<close>

text \<open>
  C29: on a non-empty pattern over \<open>{U, D}\<close>, \<open>partialOrderings\<close> run on an empty dict
  raises nothing and stores (and, beyond one letter, returns) the number of orderings of
  \<open>0, ..., n\<close> whose up/down signature is the pattern: the "number of ordered lists
  satisfying a path string" of its docstring.
\<close>

theorem partialOrderings_counts_orderings:
  assumes "set s \<subseteq> {CHR ''U'', CHR ''D''}" "s \<noteq> []"
  shows "\<exists>m'. partialOrderings s Map.empty = Inr (m', if length s = 1 then None else Some (card (orderings s)))
           \<and> m' s = Some (PCount (card (orderings s)))"
proof -
  have "po_memo_ok (length s) (Map.empty(s := None))" by (simp add: po_memo_ok_def)
  from partialOrderings_po_spec [OF assms(2) this] obtain m' where
    "partialOrderings s Map.empty = Inr (m', if length s = 1 then None else Some (po_count s))"
    "m' s = Some (PCount (po_count s))" unfolding po_spec_def by blast
  then show ?thesis unfolding po_count_orderings [OF assms] by blast
qed

theorem partialOrderings_counts_orderings_witness:
  "\<exists>m'. partialOrderings ''UDU'' Map.empty = Inr (m', Some (card (orderings ''UDU'')))
     \<and> m' ''UDU'' = Some (PCount (card (orderings ''UDU'')))"
  using partialOrderings_counts_orderings [of "''UDU''"] by simp

text \<open>
  C30: over the patterns the drivers enumerate for \<open>n \<ge> 2\<close> points
  (\<open>pattern_of n i\<close> for \<open>i\<close> in \<open>range(2 ** (n - 1))\<close>), the oracle's counts add up to
  \<open>n!\<close>: every ordering of the \<open>n\<close> heights has exactly one signature, so the oracle
  column of \<open>bunchOfTrials\<close> partitions all orderings.
\<close>

theorem oracle_counts_sum_fact:
  assumes "2 \<le> n"
  shows "sum_list (map (\<lambda>i. po_count (pattern_of n i)) (pattern_range n)) = fact n"
proof -
  note e = patterns_enumerated [OF assms]
  have "sum_list (map (\<lambda>i. po_count (pattern_of n i)) (pattern_range n))
      = sum_list (map po_count (map (pattern_of n) (pattern_range n)))" by (simp add: comp_def)
  also have "\<dots> = (\<Sum>s\<in>{s. length s = n - 1 \<and> set s \<subseteq> {CHR ''U'', CHR ''D''}}. po_count s)"
    using e by (simp only: sum_list_distinct_conv_sum_set)
  finally show ?thesis using sum_po_count_fact [OF assms] by simp
qed

theorem oracle_counts_sum_fact_witness:
  "sum_list (map (\<lambda>i. po_count (pattern_of 3 i)) (pattern_range 3)) = fact 3"
  using oracle_counts_sum_fact [of 3] by simp

end
