(* ===== verification/ScreenSaver.thy ===== *)
theory ScreenSaver
  imports Trials PointGen
begin

text \<open>
  The \<open>screenSaver\<close> driver of src/Solver.py (lines 292-335). Each of its 100000 frames
  generates ten points with the legacy \<open>generatePoints\<close> (draws \<open>fst (d i)\<close>), sorts them
  highest first, draws a nine-letter pattern with \<open>randomPathString(10)\<close> (draws
  \<open>snd (d i)\<close>), solves it with \<open>pathStringBulkNoWrite\<close> on a fresh dict and, inside a
  \<open>try\<close>, reads \<open>x[string]\<close> and draws every edge of every path (\<open>Drawn\<close>: the points,
  the pattern text and the edges). The \<open>except IndexError\<close> branch opens a window and
  shows the points (\<open>Handler\<close>). The window, the sleeps and the drawing calls are I/O and
  are not modelled, so the only statement of the \<open>try\<close> block that is modelled is the
  read \<open>x[string]\<close>, which raises at most \<open>KeyError\<close>; a frame whose generator never
  returns makes the driver hang (\<open>None\<close>).
\<close>

datatype ss_frame = is_Drawn: Drawn "pt list" string "lineSegment list" | Handler "pt list"

definition screenSaver_frame :: "real \<Rightarrow> (nat \<Rightarrow> real) \<Rightarrow> (nat \<Rightarrow> real) \<Rightarrow> ss_frame res option" where
  "screenSaver_frame eps ug us =
     (case generatePoints_legacy eps 10 ug of
        None \<Rightarrow> None
      | Some points0 \<Rightarrow> Some
          (let points = sort_key (\<lambda>p. -1 * pt_y p) points0;
               string = randomPathString 10 us
           in ebind (pathStringBulkNoWrite eps points string Map.empty) (\<lambda>x.
                case dict_get x string of
                  Inl IndexError \<Rightarrow> Inr (Handler points)
                | Inl e \<Rightarrow> Inl e
                | Inr linesSet \<Rightarrow> Inr (Drawn points string (concat linesSet)))))"

fun ss_loop :: "real \<Rightarrow> (nat \<Rightarrow> (nat \<Rightarrow> real) \<times> (nat \<Rightarrow> real)) \<Rightarrow> nat list \<Rightarrow> ss_frame list
                  \<Rightarrow> ss_frame list res option" where
  "ss_loop eps d [] frames = Some (Inr frames)"
| "ss_loop eps d (i # is) frames =
     (case screenSaver_frame eps (fst (d i)) (snd (d i)) of
        None \<Rightarrow> None
      | Some (Inl e) \<Rightarrow> Some (Inl e)
      | Some (Inr f) \<Rightarrow> ss_loop eps d is (frames @ [f]))"

definition screenSaver :: "real \<Rightarrow> (nat \<Rightarrow> (nat \<Rightarrow> real) \<times> (nat \<Rightarrow> real)) \<Rightarrow> ss_frame list res option" where
  "screenSaver eps d = ss_loop eps d [0..<100000] []"

text \<open>
  \<open>ss_shows eps d i f\<close>: frame \<open>f\<close> is what iteration \<open>i\<close> should draw, the sorted
  points, the pattern and every edge of every path the legacy solver finds.
\<close>

abbreviation ss_shows :: "real \<Rightarrow> (nat \<Rightarrow> (nat \<Rightarrow> real) \<times> (nat \<Rightarrow> real)) \<Rightarrow> nat \<Rightarrow> ss_frame \<Rightarrow> bool" where
  "ss_shows eps d i f \<equiv> \<exists>pts sols. generatePoints_legacy eps 10 (fst (d i)) = Some pts
     \<and> solutions_all eps (sort_key (\<lambda>p. -1 * pt_y p) pts) (randomPathString 10 (snd (d i))) = Inr sols
     \<and> f = Drawn (sort_key (\<lambda>p. -1 * pt_y p) pts) (randomPathString 10 (snd (d i))) (concat sols)"

text \<open>One frame: ten generated points, a nine-letter pattern, and the legacy solver's full list.\<close>

lemma screenSaver_frame_Drawn:
  fixes us :: "nat \<Rightarrow> real"
  assumes gen: "generatePoints_legacy eps 10 ug = Some pts"
  defines "P \<equiv> sort_key (\<lambda>p. -1 * pt_y p) pts" and "s \<equiv> randomPathString 10 us"
  shows "\<exists>sols. solutions_all eps P s = Inr sols
           \<and> screenSaver_frame eps ug us = Some (Inr (Drawn P s (concat sols)))"
proof -
  have lP: "length P = 10" using generatePoints_legacy_length [OF gen] by (simp add: P_def)
  have ls: "length s = 9" by (simp add: s_def length_randomPathString)
  then have "s \<noteq> []" "length s < length P" "take (length s + 1) P = P" using lP by auto
  moreover have "memo_ok solutions_all eps P (length s) (Map.empty(s := None))" by (simp add: memo_ok_def)
  ultimately obtain m' sols where r: "pathString eps P s Map.empty = Inr (m', ())"
    and sa: "solutions_all eps P s = Inr sols" and ms: "m' s = Some sols"
    using pathString_dp_spec [of s P eps Map.empty] by (auto simp: dp_spec_def)
  have "screenSaver_frame eps ug us = Some (Inr (Drawn P s (concat sols)))"
    using gen r ms by (simp add: screenSaver_frame_def P_def s_def pathStringBulkNoWrite_def dict_get_def)
  with sa show ?thesis by blast
qed

lemma ss_loop_Drawn:
  "\<forall>i\<in>set is. generatePoints_legacy eps 10 (fst (d i)) \<noteq> None \<Longrightarrow>
   \<exists>fs. ss_loop eps d is frames = Some (Inr (frames @ fs)) \<and> list_all2 (ss_shows eps d) is fs"
proof (induction "is" arbitrary: frames)
  case (Cons i "is")
  then obtain pts where gen: "generatePoints_legacy eps 10 (fst (d i)) = Some pts" by auto
  from screenSaver_frame_Drawn [OF gen, of "snd (d i)"] obtain f where
    sh: "ss_shows eps d i f" and fr: "screenSaver_frame eps (fst (d i)) (snd (d i)) = Some (Inr f)"
    using gen by blast
  have "\<forall>i\<in>set is. generatePoints_legacy eps 10 (fst (d i)) \<noteq> None" using Cons.prems by simp
  from Cons.IH [OF this, of "frames @ [f]"] obtain fs
    where "ss_loop eps d is (frames @ [f]) = Some (Inr ((frames @ [f]) @ fs))"
    and "list_all2 (ss_shows eps d) is fs" by blast
  with sh fr show ?case by (intro exI [of _ "f # fs"]) simp
qed simp

lemma list_all2_right: "list_all2 P xs ys \<Longrightarrow> (\<And>x y. P x y \<Longrightarrow> Q y) \<Longrightarrow> list_all Q ys"
  by (induction rule: list_all2_induct) auto

subsection \<open>The handler is dead code\<close>

text \<open>
  C31: when the generator returns in every frame, \<open>screenSaver\<close> runs all 100000 frames
  without raising, and every frame is drawn with its points, its pattern and every edge
  of every path the legacy solver finds: the \<open>except IndexError\<close> branch is never taken
  (\<open>x[string]\<close> is always bound after the solver returns; a pattern without a path
  shows an empty frame).
\<close>

theorem screenSaver_never_handles:
  assumes "\<forall>i<100000. generatePoints_legacy eps 10 (fst (d i)) \<noteq> None"
  shows "\<exists>fs. screenSaver eps d = Some (Inr fs) \<and> list_all2 (ss_shows eps d) [0..<100000] fs
           \<and> list_all is_Drawn fs"
proof -
  have "\<forall>i\<in>set [0..<100000]. generatePoints_legacy eps 10 (fst (d i)) \<noteq> None" using assms by simp
  from ss_loop_Drawn [OF this, of "[]"] obtain fs where
    "ss_loop eps d [0..<100000] [] = Some (Inr fs)" and sh: "list_all2 (ss_shows eps d) [0..<100000] fs"
    by auto
  moreover have "list_all is_Drawn fs" using sh by (rule list_all2_right) auto
  ultimately show ?thesis by (simp add: screenSaver_def)
qed

theorem screenSaver_never_handles_witness:
  "\<exists>fs. screenSaver epsilon (\<lambda>i. (\<lambda>j. of_nat (j * j), \<lambda>j. 1)) = Some (Inr fs)
     \<and> length fs = 100000 \<and> list_all is_Drawn fs"
proof -
  have "generatePoints_legacy epsilon 10 (\<lambda>j. of_nat (j * j)) = Some [Pt 0 1, Pt 4 9, Pt 16 25,
      Pt 36 49, Pt 64 81, Pt 100 121, Pt 144 169, Pt 196 225, Pt 256 289, Pt 324 361]"
    by (simp add: generatePoints_legacy_def gen_eval_simps)
  then have "\<forall>i<100000. generatePoints_legacy epsilon 10 (fst ((\<lambda>i. (\<lambda>j. of_nat (j * j), \<lambda>j. 1)) i)) \<noteq> None"
    by simp
  from screenSaver_never_handles [OF this] show ?thesis by (auto dest: list_all2_lengthD)
qed

end
