(* ===== verification/Spec2Isabelle.thy ===== *)
theory Spec2Isabelle
  imports Session PartialOrderings Driver Enumeration HullTermination Trials PointGen OrderCount ScreenSaver
begin

text \<open>
  \<^bold>\<open>PathStrings: a verification development.\<close>

  The repository (src/CleanSolution.py, src/PartialOrderings.py, and the older
  src/Solver.py) enumerates crossing-free directed polygonal paths through a planar point
  set whose up/down height profile matches a pattern over \<open>{U, D}\<close>. Its parts:
  \<^item> geometric primitives, the classes \<open>Pt\<close> and \<open>LineSegment\<close> (CleanSolution.py
    8-110): signed area, \<open>contains\<close>, \<open>orientation\<close> with the tolerance
    \<open>LineSegment.epsilon\<close>, and the segment \<open>intersect\<close>ion test;
  \<^item> the dynamic-programming solver \<open>pathStringDP\<close> (147-316), which builds the paths
    for a pattern of length \<open>L\<close> on the \<open>L + 1\<close> lowest points from the paths of
    shorter patterns (Case I: prepend an edge from the new top point; Case II: append one
    to it; Case III: split an edge at the first \<open>"UD"\<close>), memoised in the dict
    \<open>solved\<close> shared by the recursive calls, and its wrapper \<open>pathStringDPWrapper\<close>
    (318-323) and batch drivers (336-409);
  \<^item> the counting oracle \<open>partialOrderings\<close> (PartialOrderings.py), the same three-case
    recursion counting instead of building;
  \<^item> the convex hull \<open>convexHull\<close> (Graham scan, 425-453), the Jarvis-march step
    \<open>jarvisMarchSinglePass\<close> (455-469), and the hull-jumping enumerator
    \<open>hullJumping\<close>/\<open>hullJumpingRecursive\<close> (471-545);
  \<^item> point generation (\<open>generatePoints\<close>, 114-136, \<open>generateConvexPoints\<close>,
    411-423, random), the screensaver loop \<open>screenSaver\<close> of Solver.py (292-333),
    display, file output.

  \<^bold>\<open>Theories.\<close>
  \<^item> \<open>Prelude\<close>: Python exceptions as the datatype \<open>pyexc\<close>, the result type
    \<open>'a res = pyexc + 'a\<close> with its bind \<open>ebind\<close> (and a \<open>fundef_cong\<close> rule so
    recursion may pass through it), \<open>py_nth\<close>, \<open>py_last\<close>, \<open>dict_get\<close>.
  \<^item> \<open>Geometry\<close>: \<open>pt\<close> and \<open>lineSegment\<close> as records with the constructors
    \<open>Pt\<close>, \<open>LineSegment\<close>; \<open>signedArea\<close>, \<open>contains\<close>, \<open>orientation\<close>,
    \<open>intersect\<close>, each with the tolerance as a parameter \<open>eps\<close> (default
    \<open>epsilon = 1/100\<close>). Float coordinates are modelled as \<open>real\<close>: rounding is not
    modelled. Lemmas: \<open>intersect\<close> is a proper-crossing test or one of four
    \<open>contains\<close> tests (\<open>intersect_iff\<close>); it is symmetric (C3), independent of the
    direction of either segment (C4), and true of any two segments sharing an endpoint
    (C5), which is why the solver never tests an edge against its neighbour.
  \<^item> \<open>Path\<close>: the abstract specification of a solution, \<open>path_ok eps pts s p\<close>:
    \<open>length p = length s\<close>, \<open>chained p\<close>, the vertex multiset equals \<open>mset pts\<close>,
    \<open>profile p = s\<close>, and \<open>noncross eps p\<close> (no two non-consecutive edges
    \<open>intersect\<close>); \<open>heights_sorted\<close> says the points ascend strictly in height. Its
    lemmas describe prepending, appending and splitting an edge.
  \<^item> \<open>PathStringDP\<close>: the solver as written. One definition per candidate loop body
    (\<open>caseI_ext\<close>, \<open>caseII_ext\<close>, \<open>caseIII_ext\<close>), the loop appending to
    \<open>solved[string]\<close> (\<open>extend_into\<close>), the sub-pattern check
    (\<open>ensure_solved\<close>), the scan for \<open>"UD"\<close> (\<open>find_UD\<close>), the collapsed pattern
    (\<open>collapse\<close>), and \<open>pathStringDP\<close> itself, returning the memo table and the Python
    return value (\<open>None\<close>, or \<open>Some solved\<close> where \<open>return solved\<close> runs). It is a
    \<open>function\<close> terminating on the pattern length. \<open>solutions\<close> is the same recursion
    without the table (\<open>collect\<close> for the loops): the reference. Lemmas: the reference
    never raises when the points number one more than the letters
    (\<open>solutions_total\<close>), and every path it returns satisfies \<open>path_ok\<close> when the
    points are sorted and the pattern is over \<open>{U, D}\<close> (\<open>solutions_paths_ok\<close>).
    C9: with no more points than letters (and no entry for a shorter pattern in the
    dict) the solver raises \<open>IndexError\<close>, whatever the pattern.
  \<^item> \<open>MemoTable\<close> and \<open>MemoDP\<close>: the memo invariant \<open>memo_ok ref eps P n m\<close>, generic in the
    reference \<open>ref\<close> (every entry with a key of
    length at most \<open>n\<close> is the reference's result on the \<open>length k + 1\<close> lowest points
    of \<open>P\<close>) and the refinement theorem (C1): from a table correct below the pattern,
    \<open>pathStringDP\<close> returns, stores the reference's result, keeps the table correct and
    leaves longer keys alone. With the soundness of the reference this gives C2: every
    path the solver stores is a solution.

  \<^item> \<open>Session\<close>: one memo dict shared by a sequence of solver calls on the same points,
    as the batch drivers share \<open>solved\<close>: the reachable dicts are the inductive
    predicate \<open>dp_session\<close>. By rule induction every reachable dict is correct
    (\<open>table_ok\<close>, C24).
  \<^item> \<open>PartialOrderings\<close>: the oracle as written, its memo values \<open>PEmpty\<close> (the
    placeholder \<open>[]\<close>) and \<open>PCount n\<close>, its \<open>"UD"\<close> loop \<open>po_loop\<close> (mutually
    recursive with \<open>partialOrderings\<close>, terminating by the pattern length, then the
    loop index), and the memo-free count \<open>po_count\<close>. Lemmas: the memo refinement (C6,
    by the same stage argument as \<open>MemoDP\<close>, so no placeholder is ever added to a
    count), and \<open>solutions_length_le\<close>: the reference solver builds at most
    \<open>po_count s\<close> paths, since each candidate yields at most one path and it splits only
    one of the \<open>"UD"\<close>s the count sums over.
  \<^item> \<open>Driver\<close>: \<open>pathStringDPWrapper\<close> (its in-place sort is \<open>sort_key pt_y\<close>,
    stable like Python's), the pattern enumeration of the drivers (\<open>bin_of\<close>,
    \<open>pattern_of\<close>, \<open>pattern_range\<close>), \<open>generateAllPathStrings\<close> (its file is the
    list of rows) and \<open>nonIntersectingPaths\<close>, with one memo table shared across all
    patterns. C8: both raise \<open>TypeError\<close> on their first pattern.
  \<^item> \<open>Enumeration\<close>: the drivers' patterns read back as numbers (\<open>pat_val\<close>, with
    \<open>U = 0\<close>, \<open>D = 1\<close>; a specification function, the sources only encode). C19:
    the encoding round-trips for \<open>n \<ge> 2\<close>; C20: the drivers visit every pattern of
    \<open>n - 1\<close> letters exactly once.
  \<^item> \<open>ConvexHull\<close>: the Graham scan as written: the pivot (\<open>hull_bottom\<close>, the first
    point of least height), the slope sort (\<open>sort_by_slope\<close>, \<open>ZeroDivisionError\<close> when
    a point shares the pivot's height, else Python's stable \<open>sort_key\<close>), the pop loop
    \<open>graham_pop\<close> (\<open>IndexError\<close> on an empty stack) and the scan \<open>graham_scan\<close>, with
    the stack kept top-first so that both are structural recursion. C10: on four or more
    points in general position the result is a counter-clockwise convex polygon
    (\<open>ccw_polygon\<close>) of at least three distinct input points starting at the lowest one;
    C11: \<open>ZeroDivisionError\<close> is raised exactly when another point has the pivot's height.
  \<^item> \<open>HullJumping\<close>: the Jarvis step \<open>jarvisMarchSinglePass\<close> as a fold (C12: from a
    point below all others it returns the two extreme neighbours), the hull-repair
    \<open>while\<close> loop \<open>hull_walk\<close> as a \<open>partial_function (option)\<close> (it walks along a
    cyclic hull and need not stop, so not returning is the value \<open>None\<close>), and
    \<open>hullJumpingRecursive\<close> with its candidate loops. C13: the base case accepts the
    letter opposite to the move it checks. A concrete run (\<open>hull_walk_stops_early\<close>)
    shows the loop condition \<open>and\<close> stopping the walk at a point sharing one coordinate
    with its target, so that the search misses a solution.
  \<^item> \<open>HullTermination\<close>: the hull walk's \<open>None\<close> proved by the induction rule of its
    \<open>partial_function\<close>: on three collinear points it bounces between two of them
    forever, and C23 shows that \<open>hullJumping\<close> itself never returns on the five points
    \<open>col5\<close> (the walks met before the cycle are evaluated one by one).
  \<^item> \<open>Legacy\<close>: the older solver \<open>pathString\<close> of src/Solver.py (111-214). It is the
    code of \<open>pathStringDP\<close> except that its Case III loop (\<open>ps_loop\<close>) has no
    \<open>return\<close> and splits every \<open>"UD"\<close>, as the spec (section 5) and the oracle do; its
    memo-free reference is \<open>solutions_all\<close>. The refinement (C14) reuses the block
    lemma of \<open>MemoTable\<close>, instantiated with the legacy solver; soundness (C15) follows
    as for C2. The wrapper \<open>pathStringWrapper\<close> sorts highest first and upper-cases the
    pattern (\<open>py_upper\<close>), so it returns paths with the inverse profile (C18);
    \<open>pathStringBulk\<close> and \<open>pathStringBulkNoWrite\<close> solve into a caller's dict.
    The batch driver \<open>bunchOfTrials\<close> (266-290) is \<open>trials_loop\<close> over the patterns and
    \<open>trial_sets\<close> over the point sets, one dict each; its invariant \<open>trial_inv\<close> says
    every dict stays correct for the batch length. C21: it writes the least path count
    over the sets, or raises \<open>NameError\<close> where a set has none (the misspelt
    \<open>pointSet\<close>). \<open>pathString_skip3\<close>: called with two points more than letters, the
    solver never reads the third point of its list.
  \<^item> \<open>PointGen\<close>: the point generators, \<open>generatePoints\<close> of both files and
    \<open>generateConvexPoints\<close>, as rejection loops over a parameter \<open>u\<close> of random draws
    (\<open>partial_function (option)\<close>: they stop only when enough candidates pass). By the
    induction rule of the \<open>partial_function\<close>, a list the clean generator returns has
    distinct heights and no point on a segment between earlier ones (\<open>gen_ok\<close>, C26);
    one the legacy generator returns only the second (\<open>seg_ok\<close>, C27; its witness
    repeats a point). C28: for every angle \<open>0 < theta < pi\<close> but \<open>pi / 2\<close>, the convex
    generator's check lets \<open>theta\<close> and \<open>pi - theta\<close> through, two points of equal
    height.
  \<^item> \<open>Trials\<close>: the remaining drivers. \<open>bunchOfTrials\<close> of CleanSolution.py
    (\<open>bunchOfTrials_clean\<close>, which raises \<open>NameError\<close> at line 365 before its loop) and
    \<open>generateAllPathStrings\<close> of Solver.py (\<open>NameError\<close> at line 251) are modelled as
    written; the program never runs their loops, and no property is claimed of them.
    \<open>randomPathString\<close> and \<open>randomRun\<close> take one stream of random draws. C25:
    \<open>randomRun\<close> returns \<open>None\<close> and raises \<open>IndexError\<close> exactly when the legacy
    solver finds no path for its pattern, which is one letter short and is solved without
    the third highest point (by \<open>pathString_skip3\<close>).
  \<^item> \<open>OrderCount\<close>: what the oracle counts. \<open>sig\<close> is the up/down signature of a
    list of distinct heights and \<open>orderings s\<close> the orderings of \<open>0, ..., length s\<close>
    with signature \<open>s\<close>. Removing the highest element (\<open>ins_max\<close>, \<open>max_pos\<close>)
    gives a bijection onto the orderings of the shorter patterns of the oracle's three
    cases, so \<open>po_count s = card (orderings s)\<close> and \<open>partialOrderings\<close> stores that
    number (C29). Over the drivers' patterns the counts add up to \<open>n!\<close> (C30).
  \<^item> \<open>ScreenSaver\<close>: \<open>screenSaver\<close> of Solver.py as a loop \<open>ss_loop\<close> over its 100000
    frames, each \<open>screenSaver_frame\<close>: ten points from the legacy generator (draws
    \<open>fst (d i)\<close>), sorted highest first, a nine-letter pattern (draws \<open>snd (d i)\<close>),
    \<open>pathStringBulkNoWrite\<close> on a fresh dict, and the \<open>try\<close> block (\<open>Drawn\<close>) with its
    \<open>except IndexError\<close> branch (\<open>Handler\<close>). Inside the \<open>try\<close> only \<open>x[string]\<close>
    is modelled: the rest are graphics calls; so the handler is reached only if that read
    raises \<open>IndexError\<close>, which a dict read never does. C31: when every frame's generator
    returns, all frames are drawn with the legacy solver's full list, nothing is raised
    and the handler never runs.
  \<^item> This theory: C7 and C17, the oracle's count bounds the number of paths either solver
    stores; C16, every path of the clean solver is a path of the legacy one; C22, on
    patterns with at most one \<open>"UD"\<close> (\<open>ud_count\<close>, a specification function of
    \<open>Legacy\<close>) the two solvers store the same list. Two concrete runs document findings:
    on the five points \<open>ex5\<close> (in general position) the inclusion of C16 is strict, the
    clean solver's early \<open>return\<close> losing two solutions; and the generator can produce
    the collinear input on which hull jumping hangs.

  \<^bold>\<open>Claims.\<close> C1 memo refinement of the solver; C2 soundness of every stored path;
  C3-C5 the intersection test; C6 memo refinement of the oracle; C7 the oracle bounds the
  solver; C8 the drivers' \<open>TypeError\<close>; C9 too few points raise \<open>IndexError\<close>;
  C10-C11 the convex hull; C12-C13 the Jarvis step and the hull-jumping base case;
  C14-C15 the legacy solver's refinement and soundness; C16-C17 the two solvers
  compared; C18 the legacy wrapper; C19-C20 the pattern enumeration; C21 the legacy batch
  driver; C22 the solvers agree on patterns with one \<open>"UD"\<close>; C23 hull jumping does not
  terminate on collinear input; C24 the memo dict across a session; C25 \<open>randomRun\<close>;
  C26-C28 the point generators and what they let through; C29-C30 what the oracle
  counts; C31 the screensaver's dead exception handler.

  \<^bold>\<open>Modelling choices.\<close> Floats are reals (no rounding); the tolerance is a parameter
  \<open>eps\<close>. An exception is a value \<open>Inl e\<close>, and the state mutated before it is raised
  is not kept (only the screensaver catches one, and C31 shows it never arrives). Point
  lists are parameters of the solvers; the generators and \<open>randomPathString\<close> take the
  sequence of random draws as a parameter (\<open>randomRun\<close> one stream, split as the
  program consumes it; each screensaver frame two, one for its points and one for its
  pattern, since the number of draws the generator consumes varies). The solvers, the oracle and the Graham scan
  recurse on the pattern length or the list, so they are total \<open>function\<close>s; the hull
  walk and the generators' rejection loops may not end, and they are
  \<open>partial_function (option)\<close>s rather than fuelled loops, so their result is exactly
  Python's (a loop that never stops is \<open>None\<close>); C23 shows a walk that does not return.
  The screensaver's 100000 frames are a list of frame numbers, so its loop is
  structural. \<open>int(math.pow(2, n - 1))\<close> is modelled as \<open>2 ^ (n - 1)\<close>; Python's float
  \<open>pow\<close> overflows (\<open>OverflowError\<close>) from \<open>n = 1025\<close> on, where the solvers'
  recursion depth is beyond Python's default limit anyway, so C8, C19-C21 describe the
  program for \<open>n \<le> 1024\<close>. \<open>str.upper\<close> is modelled on ASCII letters (\<open>py_upper\<close>),
  enough for patterns over \<open>{U, D, u, d}\<close>.

  \<^bold>\<open>Not modelled\<close>: the random source itself (the draws are a parameter, so every
  theorem holds for every sequence of draws), \<open>display\<close> (Solver.py 104-109,
  CleanSolution.py 138-145: it only draws in a graphics window), printing, \<open>input()\<close>,
  the screensaver's window, sleeps and drawing calls, and file output (graphics and
  I/O; nothing the program reads back; a written file is the list of its rows). The
  classes of Solver.py (lines 10-85) compute as those of CleanSolution.py and are not
  modelled twice.
\<close>

section \<open>Properties across components\<close>

text \<open>The oracle on the pattern of the spec's three-point example.\<close>

lemma partialOrderings_UD_run:
  "partialOrderings ''UD'' Map.empty = Inr ([''U'' \<mapsto> PCount 1, ''D'' \<mapsto> PCount 1, ''UD'' \<mapsto> PCount 2], Some 2)"
  by (simp add: partialOrderings.simps po_loop.simps ensure_solved_def dict_get_def py_add_def
      collapse_def eval_nat_numeral)

text \<open>
  C7: the counting oracle bounds the solver (spec, section 6): whenever both run from
  correct memo tables, the number of paths \<open>pathStringDP\<close> stores for a pattern is at
  most the count \<open>partialOrderings\<close> stores for it. The solver splits only the first
  \<open>"UD"\<close> while the oracle counts every one, and each candidate yields at most one path.
\<close>

theorem solver_count_le_oracle:
  assumes "s \<noteq> []" "length s < length P"
    and "memo_ok solutions eps P (length s) (m(s := None))" "po_memo_ok (length s) (c(s := None))"
    and "pathStringDP eps (take (length s + 1) P) s m = Inr (m', r)" "m' s = Some sols"
    and "partialOrderings s c = Inr (c', x)" "c' s = Some (PCount n)"
  shows "length sols \<le> n"
proof -
  from pathStringDP_dp_spec [OF assms(1-3)] assms(5,6)
  have "solutions eps (take (length s + 1) P) s = Inr sols" by (auto simp: dp_spec_def)
  then have "length sols \<le> po_count s" by (rule solutions_length_le)
  moreover from partialOrderings_po_spec [OF assms(1,4)] assms(7,8) have "n = po_count s"
    by (auto simp: po_spec_def)
  ultimately show ?thesis by simp
qed

theorem solver_count_le_oracle_witness:
  "length (the (ex3_memo ''UD'')) \<le> 2
   \<and> pathStringDP epsilon (take (length ''UD'' + 1) ex3) ''UD'' Map.empty = Inr (ex3_memo, Some ex3_memo)"
proof -
  have h: "''UD'' \<noteq> []" "length ''UD'' < length ex3"
    "memo_ok solutions epsilon ex3 (length ''UD'') (Map.empty(''UD'' := None))"
    "po_memo_ok (length ''UD'') (Map.empty(''UD'' := None))"
    "pathStringDP epsilon (take (length ''UD'' + 1) ex3) ''UD'' Map.empty = Inr (ex3_memo, Some ex3_memo)"
    "ex3_memo ''UD'' = Some (the (ex3_memo ''UD''))"
    "partialOrderings ''UD'' Map.empty = Inr ([''U'' \<mapsto> PCount 1, ''D'' \<mapsto> PCount 1, ''UD'' \<mapsto> PCount 2], Some 2)"
    "[''U'' \<mapsto> PCount 1, ''D'' \<mapsto> PCount 1, ''UD'' \<mapsto> PCount 2] ''UD'' = Some (PCount 2)"
    using ex3_run partialOrderings_UD_run
    by (simp_all add: ex3_def memo_ok_def po_memo_ok_def ex3_memo_def)
  show ?thesis using solver_count_le_oracle [OF h] h(5) by simp
qed

text \<open>
  C16: the clean solver finds no path the legacy solver misses. Run from correct memo
  tables on the same points, every path \<open>pathStringDP\<close> (src/CleanSolution.py) stores for
  a pattern is among those \<open>pathString\<close> (src/Solver.py) stores: the legacy loop splits
  every \<open>"UD"\<close>, the clean one only the first, and the other cases are the same code.
\<close>

theorem clean_subset_legacy:
  assumes "s \<noteq> []" "length s < length P"
    and "memo_ok solutions eps P (length s) (m1(s := None))" "memo_ok solutions_all eps P (length s) (m2(s := None))"
    and "pathStringDP eps (take (length s + 1) P) s m1 = Inr (m1', r)" "m1' s = Some A"
    and "pathString eps (take (length s + 1) P) s m2 = Inr (m2', u)" "m2' s = Some B"
  shows "set A \<subseteq> set B"
proof -
  from pathStringDP_dp_spec [OF assms(1-3)] assms(5,6)
  have "solutions eps (take (length s + 1) P) s = Inr A" by (auto simp: dp_spec_def)
  moreover from pathString_dp_spec [OF assms(1,2,4)] assms(7,8)
  have "solutions_all eps (take (length s + 1) P) s = Inr B" by (auto simp: dp_spec_def)
  ultimately show ?thesis by (rule solutions_subset_all)
qed

theorem clean_subset_legacy_witness:
  "set (the (ex3_memo ''UD'')) \<subseteq> set (the (ex3_memo ''UD''))
   \<and> pathStringDP epsilon (take (length ''UD'' + 1) ex3) ''UD'' Map.empty = Inr (ex3_memo, Some ex3_memo)
   \<and> pathString epsilon (take (length ''UD'' + 1) ex3) ''UD'' Map.empty = Inr (ex3_memo, ())"
proof -
  have h: "''UD'' \<noteq> []" "length ''UD'' < length ex3"
    "memo_ok solutions epsilon ex3 (length ''UD'') (Map.empty(''UD'' := None))"
    "memo_ok solutions_all epsilon ex3 (length ''UD'') (Map.empty(''UD'' := None))"
    "pathStringDP epsilon (take (length ''UD'' + 1) ex3) ''UD'' Map.empty = Inr (ex3_memo, Some ex3_memo)"
    "ex3_memo ''UD'' = Some (the (ex3_memo ''UD''))"
    "pathString epsilon (take (length ''UD'' + 1) ex3) ''UD'' Map.empty = Inr (ex3_memo, ())"
    "ex3_memo ''UD'' = Some (the (ex3_memo ''UD''))"
    using ex3_run legacy_ex3_run by (simp_all add: ex3_def memo_ok_def ex3_memo_def)
  show ?thesis using clean_subset_legacy [OF h] h(5,7) by simp
qed

text \<open>
  C17: the oracle's docstring ("an upperbound on number of pathstring solutions") holds of
  the legacy solver, whose recursion it copies: from correct memo tables, the number of
  paths \<open>pathString\<close> stores for a pattern is at most the count \<open>partialOrderings\<close>
  stores for it.
\<close>

theorem legacy_count_le_oracle:
  assumes "s \<noteq> []" "length s < length P"
    and "memo_ok solutions_all eps P (length s) (m(s := None))" "po_memo_ok (length s) (c(s := None))"
    and "pathString eps (take (length s + 1) P) s m = Inr (m', u)" "m' s = Some sols"
    and "partialOrderings s c = Inr (c', x)" "c' s = Some (PCount n)"
  shows "length sols \<le> n"
proof -
  from pathString_dp_spec [OF assms(1-3)] assms(5,6)
  have "solutions_all eps (take (length s + 1) P) s = Inr sols" by (auto simp: dp_spec_def)
  then have "length sols \<le> po_count s" by (rule solutions_all_length_le)
  moreover from partialOrderings_po_spec [OF assms(1,4)] assms(7,8) have "n = po_count s"
    by (auto simp: po_spec_def)
  ultimately show ?thesis by simp
qed

theorem legacy_count_le_oracle_witness:
  "length (the (ex3_memo ''UD'')) \<le> 2
   \<and> pathString epsilon (take (length ''UD'' + 1) ex3) ''UD'' Map.empty = Inr (ex3_memo, ())"
proof -
  have h: "''UD'' \<noteq> []" "length ''UD'' < length ex3"
    "memo_ok solutions_all epsilon ex3 (length ''UD'') (Map.empty(''UD'' := None))"
    "po_memo_ok (length ''UD'') (Map.empty(''UD'' := None))"
    "pathString epsilon (take (length ''UD'' + 1) ex3) ''UD'' Map.empty = Inr (ex3_memo, ())"
    "ex3_memo ''UD'' = Some (the (ex3_memo ''UD''))"
    "partialOrderings ''UD'' Map.empty = Inr ([''U'' \<mapsto> PCount 1, ''D'' \<mapsto> PCount 1, ''UD'' \<mapsto> PCount 2], Some 2)"
    "[''U'' \<mapsto> PCount 1, ''D'' \<mapsto> PCount 1, ''UD'' \<mapsto> PCount 2] ''UD'' = Some (PCount 2)"
    using legacy_ex3_run partialOrderings_UD_run
    by (simp_all add: ex3_def memo_ok_def po_memo_ok_def ex3_memo_def)
  show ?thesis using legacy_count_le_oracle [OF h] h(5) by simp
qed

lemma ex5_clean_run:
  "\<exists>m. pathStringDP epsilon ex5 ''UDUD'' Map.empty = Inr (m, Some m) \<and> m ''UDUD'' = Some
     [[LineSegment (Pt 5 0) (Pt 3 4), LineSegment (Pt 3 4) (Pt 1 1), LineSegment (Pt 1 1) (Pt 2 3), LineSegment (Pt 2 3) (Pt 0 2)],
      [LineSegment (Pt 2 3) (Pt 3 4), LineSegment (Pt 3 4) (Pt 5 0), LineSegment (Pt 5 0) (Pt 0 2), LineSegment (Pt 0 2) (Pt 1 1)]]"
  by (simp add: ex5_def dp_eval_simps)

lemma ex5_legacy_run:
  "\<exists>m. pathString epsilon ex5 ''UDUD'' Map.empty = Inr (m, ()) \<and> m ''UDUD'' = Some
     [[LineSegment (Pt 5 0) (Pt 3 4), LineSegment (Pt 3 4) (Pt 1 1), LineSegment (Pt 1 1) (Pt 2 3), LineSegment (Pt 2 3) (Pt 0 2)],
      [LineSegment (Pt 2 3) (Pt 3 4), LineSegment (Pt 3 4) (Pt 5 0), LineSegment (Pt 5 0) (Pt 0 2), LineSegment (Pt 0 2) (Pt 1 1)],
      [LineSegment (Pt 1 1) (Pt 0 2), LineSegment (Pt 0 2) (Pt 5 0), LineSegment (Pt 5 0) (Pt 3 4), LineSegment (Pt 3 4) (Pt 2 3)],
      [LineSegment (Pt 0 2) (Pt 2 3), LineSegment (Pt 2 3) (Pt 1 1), LineSegment (Pt 1 1) (Pt 3 4), LineSegment (Pt 3 4) (Pt 5 0)]]"
  by (simp add: ex5_def legacy_eval_simps)

text \<open>
  A run showing that the inclusion of C16 can be strict. On the five points \<open>ex5\<close>,
  sorted by height and in general position, the clean solver stores two paths for
  \<open>"UDUD"\<close>, the legacy solver four: the two more are the reverses of the first two,
  solutions built by splitting the second \<open>"UD"\<close>, which the clean solver's early
  \<open>return\<close> never reaches.
\<close>

lemma clean_misses_solution:
  "heights_sorted ex5
   \<and> (\<exists>m. pathStringDP epsilon ex5 ''UDUD'' Map.empty = Inr (m, Some m) \<and> m ''UDUD'' = Some [[LineSegment (Pt 5 0) (Pt 3 4), LineSegment (Pt 3 4) (Pt 1 1), LineSegment (Pt 1 1) (Pt 2 3), LineSegment (Pt 2 3) (Pt 0 2)], [LineSegment (Pt 2 3) (Pt 3 4), LineSegment (Pt 3 4) (Pt 5 0), LineSegment (Pt 5 0) (Pt 0 2), LineSegment (Pt 0 2) (Pt 1 1)]])
   \<and> (\<exists>m. pathString epsilon ex5 ''UDUD'' Map.empty = Inr (m, ()) \<and> m ''UDUD'' = Some [[LineSegment (Pt 5 0) (Pt 3 4), LineSegment (Pt 3 4) (Pt 1 1), LineSegment (Pt 1 1) (Pt 2 3), LineSegment (Pt 2 3) (Pt 0 2)], [LineSegment (Pt 2 3) (Pt 3 4), LineSegment (Pt 3 4) (Pt 5 0), LineSegment (Pt 5 0) (Pt 0 2), LineSegment (Pt 0 2) (Pt 1 1)], [LineSegment (Pt 1 1) (Pt 0 2), LineSegment (Pt 0 2) (Pt 5 0), LineSegment (Pt 5 0) (Pt 3 4), LineSegment (Pt 3 4) (Pt 2 3)], [LineSegment (Pt 0 2) (Pt 2 3), LineSegment (Pt 2 3) (Pt 1 1), LineSegment (Pt 1 1) (Pt 3 4), LineSegment (Pt 3 4) (Pt 5 0)]])
   \<and> path_ok epsilon ex5 ''UDUD'' [LineSegment (Pt 1 1) (Pt 0 2), LineSegment (Pt 0 2) (Pt 5 0), LineSegment (Pt 5 0) (Pt 3 4), LineSegment (Pt 3 4) (Pt 2 3)] \<and> path_ok epsilon ex5 ''UDUD'' [LineSegment (Pt 0 2) (Pt 2 3), LineSegment (Pt 2 3) (Pt 1 1), LineSegment (Pt 1 1) (Pt 3 4), LineSegment (Pt 3 4) (Pt 5 0)]"
proof -
  have "path_ok epsilon ex5 ''UDUD'' [LineSegment (Pt 1 1) (Pt 0 2), LineSegment (Pt 0 2) (Pt 5 0), LineSegment (Pt 5 0) (Pt 3 4), LineSegment (Pt 3 4) (Pt 2 3)]" "path_ok epsilon ex5 ''UDUD'' [LineSegment (Pt 0 2) (Pt 2 3), LineSegment (Pt 2 3) (Pt 1 1), LineSegment (Pt 1 1) (Pt 3 4), LineSegment (Pt 3 4) (Pt 5 0)]"
    by (simp_all add: path_ok_def ex5_def vertices_def dir_def profile_def add_mset_commute dp_eval_simps)
  moreover have "heights_sorted ex5" by (simp add: heights_sorted_def ex5_def)
  ultimately show ?thesis using ex5_clean_run ex5_legacy_run by blast
qed

text \<open>
  C22: on patterns with at most one \<open>"UD"\<close> the two solvers are equivalent. Run from
  correct memo tables on the same points, \<open>pathStringDP\<close> and \<open>pathString\<close> store the
  same list of paths, in the same order: with a single \<open>"UD"\<close> the clean solver's early
  \<open>return\<close> loses nothing, and no sub-pattern has more \<open>"UD"\<close>s than its pattern.
\<close>

theorem solvers_agree_single_UD:
  assumes "s \<noteq> []" "length s < length P" "ud_count s \<le> 1"
    and "memo_ok solutions eps P (length s) (m1(s := None))" "memo_ok solutions_all eps P (length s) (m2(s := None))"
    and "pathStringDP eps (take (length s + 1) P) s m1 = Inr (m1', r)" "m1' s = Some A"
    and "pathString eps (take (length s + 1) P) s m2 = Inr (m2', u)" "m2' s = Some B"
  shows "A = B"
proof -
  from pathStringDP_dp_spec [OF assms(1,2,4)] assms(6,7)
  have "solutions eps (take (length s + 1) P) s = Inr A" by (auto simp: dp_spec_def)
  moreover from pathString_dp_spec [OF assms(1,2,5)] assms(8,9)
  have "solutions_all eps (take (length s + 1) P) s = Inr B" by (auto simp: dp_spec_def)
  ultimately show ?thesis using solutions_all_eq [OF assms(3)] by simp
qed

theorem solvers_agree_single_UD_witness:
  "ud_count ''UD'' = 1
   \<and> pathStringDP epsilon (take (length ''UD'' + 1) ex3) ''UD'' Map.empty = Inr (ex3_memo, Some ex3_memo)
   \<and> pathString epsilon (take (length ''UD'' + 1) ex3) ''UD'' Map.empty = Inr (ex3_memo, ())"
proof -
  have h: "''UD'' \<noteq> []" "length ''UD'' < length ex3" "ud_count ''UD'' \<le> 1"
    "memo_ok solutions epsilon ex3 (length ''UD'') (Map.empty(''UD'' := None))"
    "memo_ok solutions_all epsilon ex3 (length ''UD'') (Map.empty(''UD'' := None))"
    "pathStringDP epsilon (take (length ''UD'' + 1) ex3) ''UD'' Map.empty = Inr (ex3_memo, Some ex3_memo)"
    "ex3_memo ''UD'' = Some (the (ex3_memo ''UD''))"
    "pathString epsilon (take (length ''UD'' + 1) ex3) ''UD'' Map.empty = Inr (ex3_memo, ())"
    "ex3_memo ''UD'' = Some (the (ex3_memo ''UD''))"
    using ex3_run legacy_ex3_run by (simp_all add: ex3_def memo_ok_def ex3_memo_def)
  show ?thesis using solvers_agree_single_UD [OF h] h(6,8) by simp
qed

lemma generatePoints_col5: "generatePoints epsilon 5 col5_draws = Some col5"
  by (simp add: generatePoints_def col5_draws_def col5_def gen_eval_simps)

text \<open>
  A run showing that the program's own generator can produce an input on which hull
  jumping hangs.
  \<open>generatePoints\<close> (CleanSolution.py, lines 114-136) tests a candidate only against
  the segments between earlier points, so a point beyond the end of a segment, on its
  line, is accepted: with the draws \<open>col5_draws\<close> it returns \<open>col5\<close>, three of whose
  points are collinear, and \<open>hullJumping\<close> on it with \<open>"UUUU"\<close> never returns.
  The docstring promises "non-degenerate points".
\<close>

lemma generated_points_hang_hullJumping:
  "\<exists>pts. generatePoints epsilon 5 col5_draws = Some pts \<and> hullJumping pts ''UUUU'' None = None
     \<and> signedArea (LineSegment (pts ! 3) (pts ! 1)) (pts ! 2) = 0"
  using generatePoints_col5 hullJumping_col5_None by (simp add: col5_def signedArea_def)

end
